(* ===== verification/KimPrelude.thy ===== *)
theory KimPrelude
  imports Main "HOL-Library.Word"
begin

text \<open>
  Prelude of the KimRpc development: the types every component shares (bytes, the fixed-width
  integers of the wire format), byte-string literals, the little-endian integer codec that
  \<open>memcpy\<close> and \<open>append((char *)&x, sizeof x)\<close> perform on the x86-64 targets of the
  code, \<open>std::unordered_map::insert\<close> on association lists, and reachability with its
  invariant rule.
\<close>

unbundle bit_operations_syntax

named_theorems le_simps \<open>length and round-trip facts of the little-endian codec\<close>

section \<open>Bytes and machine integers\<close>

type_synonym byte = "8 word"
type_synonym bytes = "byte list"  \<comment> \<open>\<open>std::string\<close>: a sequence of arbitrary bytes\<close>
type_synonym u32 = "32 word"
type_synonym u64 = "64 word"

definition str :: "string \<Rightarrow> bytes" where
  "str s = map of_char s"

lemma str_Nil [simp]: "str [] = []"
  and str_Cons [simp]: "str (c # s) = of_char c # str s"
  and str_append [simp]: "str (s @ t) = str s @ str t"
  by (simp_all add: str_def)

lemma length_str [simp]: "length (str s) = length s"
  by (simp add: str_def)

section \<open>The little-endian codec\<close>

primrec le_bytes :: "nat \<Rightarrow> 'a::len word \<Rightarrow> bytes" where
  "le_bytes 0 w = []"
| "le_bytes (Suc n) w = ucast w # le_bytes n (drop_bit 8 w)"

primrec of_le :: "bytes \<Rightarrow> 'a::len word" where
  "of_le [] = 0"
| "of_le (b # bs) = ucast b OR push_bit 8 (of_le bs)"

lemma length_le_bytes [simp, le_simps]: "length (le_bytes n w) = n"
  by (induction n arbitrary: w) simp_all

lemma le_bytes_eq_Nil [simp]: "le_bytes n w = [] \<longleftrightarrow> n = 0"
  by (cases n) simp_all

lemma of_le_le_bytes_take: "of_le (le_bytes n w) = take_bit (8 * n) w"
proof (induction n arbitrary: w)
  case 0
  show ?case by simp
next
  case (Suc n)
  show ?case
    by (rule bit_word_eqI) (auto simp: Suc bit_simps algebra_simps)
qed

lemma of_le_le_bytes [simp, le_simps]:
  fixes w :: "'a::len word"
  shows "LENGTH('a) \<le> 8 * n \<Longrightarrow> of_le (le_bytes n w) = w"
  by (simp add: of_le_le_bytes_take take_bit_word_eq_self)

definition le32 :: "u32 \<Rightarrow> bytes" where
  "le32 w = le_bytes 4 w"

definition le64 :: "u64 \<Rightarrow> bytes" where
  "le64 w = le_bytes 8 w"

definition rd32 :: "bytes \<Rightarrow> u32" where
  "rd32 bs = of_le (take 4 bs)"

definition rd64 :: "bytes \<Rightarrow> u64" where
  "rd64 bs = of_le (take 8 bs)"

lemma length_le32 [simp, le_simps]: "length (le32 w) = 4"
  by (simp add: le32_def)

lemma length_le64 [simp, le_simps]: "length (le64 w) = 8"
  by (simp add: le64_def)

lemma rd32_le32 [simp, le_simps]: "rd32 (le32 w @ bs) = w"
  by (simp add: rd32_def le32_def)

lemma rd64_le64 [simp, le_simps]: "rd64 (le64 w @ bs) = w"
  by (simp add: rd64_def le64_def)

lemma rd32_append: "4 \<le> length b \<Longrightarrow> rd32 (b @ c) = rd32 b"
  by (simp add: rd32_def)

lemma rd64_append: "8 \<le> length b \<Longrightarrow> rd64 (b @ c) = rd64 b"
  by (simp add: rd64_def)

lemma le64_inj: "le64 a = le64 b \<longleftrightarrow> a = b"
  by (metis append.right_neutral rd64_le64)

lemma take_drop_prefix: "m + n \<le> length b \<Longrightarrow> take n (drop m (b @ c)) = take n (drop m b)"
  by simp

lemma drop_prefix: "n \<le> length b \<Longrightarrow> drop n (b @ c) = drop n b @ c"
  by simp

section \<open>Association lists as \<open>std::unordered_map\<close>\<close>

text \<open>\<open>insert({k, v})\<close> keeps an entry that is already there.\<close>

definition map_insert :: "'k \<Rightarrow> 'v \<Rightarrow> ('k \<times> 'v) list \<Rightarrow> ('k \<times> 'v) list" where
  "map_insert k v al = (if map_of al k = None then al @ [(k, v)] else al)"

lemma map_of_map_insert:
  "map_of (map_insert k v al) =
     (if map_of al k = None then (map_of al)(k \<mapsto> v) else map_of al)"
  by (auto simp: map_insert_def map_add_def fun_eq_iff split: option.splits)

lemma distinct_map_insert:
  "distinct (map fst al) \<Longrightarrow> distinct (map fst (map_insert k v al))"
  by (auto simp: map_insert_def map_of_eq_None_iff)

section \<open>Reachable states and invariants\<close>

inductive reach :: "('s \<Rightarrow> bool) \<Rightarrow> ('s \<Rightarrow> 's \<Rightarrow> bool) \<Rightarrow> 's \<Rightarrow> bool"
  for init :: "'s \<Rightarrow> bool" and step :: "'s \<Rightarrow> 's \<Rightarrow> bool" where
  reach_init: "init s \<Longrightarrow> reach init step s"
| reach_step: "reach init step s \<Longrightarrow> step s t \<Longrightarrow> reach init step t"

text \<open>
  The contract of an inductive invariant. Every component with concurrent steps interprets it
  on its own start states and steps.
\<close>

locale inductive_invariant =
  fixes init :: "'s \<Rightarrow> bool" and step :: "'s \<Rightarrow> 's \<Rightarrow> bool" and inv :: "'s \<Rightarrow> bool"
  assumes inv_init: "init s \<Longrightarrow> inv s"
    and inv_step: "inv s \<Longrightarrow> step s t \<Longrightarrow> inv t"
begin

lemma reach_inv: "reach init step s \<Longrightarrow> inv s"
  by (induction rule: reach.induct) (auto intro: inv_init inv_step)

lemma steps_inv: "step\<^sup>*\<^sup>* s t \<Longrightarrow> inv s \<Longrightarrow> inv t"
  by (induction rule: rtranclp_induct) (auto intro: inv_step)

end

section \<open>Threads that are asked to stop\<close>

text \<open>
  The contract of a background thread with a stop flag, which \<open>join\<close> relies on: once the flag is
  set it stays set, every step of the thread brings it closer to its return, and the thread is not
  stuck before.
\<close>

locale stoppable_thread =
  fixes stopped :: "'s \<Rightarrow> bool" and step :: "'s \<Rightarrow> 's \<Rightarrow> bool" and left :: "'s \<Rightarrow> nat"
  assumes stopped_step: "stopped s \<Longrightarrow> step s t \<Longrightarrow> stopped t"
    and left_step: "stopped s \<Longrightarrow> step s t \<Longrightarrow> left t < left s"
    and not_stuck: "stopped s \<Longrightarrow> 0 < left s \<Longrightarrow> \<exists>t. step s t"
begin

lemma bounded: "(step ^^ n) s t \<Longrightarrow> stopped s \<Longrightarrow> n + left t \<le> left s"
proof (induction n arbitrary: t)
  case (Suc n)
  then obtain u where u: "(step ^^ n) s u" "step u t" by auto
  have "stopped u" using u(1) Suc.prems(2)
    by (induction n arbitrary: u) (auto intro: stopped_step)
  then show ?case using Suc.IH [OF u(1) Suc.prems(2)] left_step [OF _ u(2)] by simp
qed simp

lemma returns: "stopped s \<Longrightarrow> \<exists>t. step\<^sup>*\<^sup>* s t \<and> left t = 0"
proof (induction "left s" arbitrary: s rule: less_induct)
  case less
  show ?case
  proof (cases "left s = 0")
    case False
    then obtain u where u: "step s u" using not_stuck [OF less.prems] by auto
    then obtain t where "step\<^sup>*\<^sup>* u t" "left t = 0"
      using less.hyps [OF left_step [OF less.prems u] stopped_step [OF less.prems u]] by blast
    then show ?thesis using u by (meson converse_rtranclp_into_rtranclp)
  qed blast
qed

end

end
