(* ===== verification/StreamConsumer.thy ===== *)
theory StreamConsumer
  imports KimPrelude
begin

text \<open>
  Readers of a byte stream. Both servers, the client's receive loop and the etcd watch keep a
  buffer, append what the transport delivers and take complete items off its front until none
  is left. \<open>drain\<close> is that loop; the locale \<open>consumer\<close> states the contract of one
  "take an item" routine and proves that the items do not depend on how the transport cut
  the stream; \<open>framing\<close> adds an encoder.
\<close>

section \<open>Draining a buffer\<close>

function drain :: "(bytes \<Rightarrow> ('a \<times> bytes) option) \<Rightarrow> ('a \<Rightarrow> bool) \<Rightarrow> bytes \<Rightarrow> 'a list \<times> bytes" where
  "drain take_one final b =
     (case take_one b of
        None \<Rightarrow> ([], b)
      | Some (a, r) \<Rightarrow>
          if final a \<or> \<not> length r < length b then ([a], r)
          else (case drain take_one final r of (as, r') \<Rightarrow> (a # as, r')))"
  by pat_completeness auto
termination
  by (relation "measure (\<lambda>(t, f, b). length b)") auto

declare drain.simps [simp del]

text \<open>
  One delivery of the transport: nothing happens once a final item was taken (the connection
  is closed), otherwise the chunk is appended and the buffer drained.
\<close>

definition feed :: "(bytes \<Rightarrow> ('a \<times> bytes) option) \<Rightarrow> ('a \<Rightarrow> bool) \<Rightarrow> 'a list \<times> bytes \<Rightarrow> bytes \<Rightarrow> 'a list \<times> bytes" where
  "feed take_one final s c =
     (if \<exists>a\<in>set (fst s). final a then s
      else (case drain take_one final (snd s @ c) of (as, r) \<Rightarrow> (fst s @ as, r)))"

section \<open>The contract of a stream reader\<close>

locale consumer =
  fixes take_one :: "bytes \<Rightarrow> ('a \<times> bytes) option" and final :: "'a \<Rightarrow> bool"
  assumes stable: "take_one b = Some (a, r) \<Longrightarrow> take_one (b @ c) = Some (a, r @ c)"
    and shrinks: "take_one b = Some (a, r) \<Longrightarrow> \<not> final a \<Longrightarrow> length r < length b"
begin

lemma drain_None: "take_one b = None \<Longrightarrow> drain take_one final b = ([], b)"
  by (simp add: drain.simps [of take_one final b])

lemma drain_final: "take_one b = Some (a, r) \<Longrightarrow> final a \<Longrightarrow> drain take_one final b = ([a], r)"
  by (simp add: drain.simps [of take_one final b])

lemma drain_step:
  "take_one b = Some (a, r) \<Longrightarrow> \<not> final a \<Longrightarrow>
     drain take_one final b = (a # fst (drain take_one final r), snd (drain take_one final r))"
  using shrinks [of b a r]
  by (simp add: drain.simps [of take_one final b] split: prod.splits)

lemma drain_induct [case_names None Final Step]:
  assumes "\<And>b. take_one b = None \<Longrightarrow> P b"
    and "\<And>b a r. take_one b = Some (a, r) \<Longrightarrow> final a \<Longrightarrow> P b"
    and "\<And>b a r. take_one b = Some (a, r) \<Longrightarrow> \<not> final a \<Longrightarrow> P r \<Longrightarrow> P b"
  shows "P b"
proof (induction b rule: length_induct)
  case (1 b)
  show ?case
  proof (cases "take_one b")
    case None
    then show ?thesis by (rule assms(1))
  next
    case (Some ar)
    obtain a r where ar: "ar = (a, r)" by fastforce
    show ?thesis
    proof (cases "final a")
      case True
      then show ?thesis using assms(2) Some ar by blast
    next
      case False
      have "length r < length b" using shrinks [of b a r] Some ar False by blast
      then have "P r" using 1 by blast
      then show ?thesis using assms(3) [of b a r] Some ar False by blast
    qed
  qed
qed

lemma drain_rest_None:
  "\<forall>a\<in>set (fst (drain take_one final b)). \<not> final a \<Longrightarrow>
     take_one (snd (drain take_one final b)) = None"
proof (induction b rule: drain_induct)
  case (Step b a r)
  then show ?case by (simp add: drain_step [OF Step.hyps])
qed (simp_all add: drain_None drain_final)

lemma drain_final_last:
  "\<exists>a\<in>set (fst (drain take_one final b)). final a \<Longrightarrow>
     \<exists>as a. fst (drain take_one final b) = as @ [a] \<and> final a \<and> (\<forall>x\<in>set as. \<not> final x)"
proof (induction b rule: drain_induct)
  case (None b)
  then show ?case by (simp add: drain_None)
next
  case (Final b a r)
  then show ?case by (intro exI [of _ "[]"]) (simp add: drain_final)
next
  case (Step b a r)
  then have "\<exists>x\<in>set (fst (drain take_one final r)). final x"
    by (simp add: drain_step [OF Step.hyps])
  with Step.IH obtain as x where
    "fst (drain take_one final r) = as @ [x]" "final x" "\<forall>y\<in>set as. \<not> final y" by blast
  with Step.hyps show ?case
    by (intro exI [of _ "a # as"] exI [of _ x]) (simp add: drain_step [OF Step.hyps])
qed

lemma drain_append_final:
  "\<exists>a\<in>set (fst (drain take_one final b)). final a \<Longrightarrow>
     fst (drain take_one final (b @ c)) = fst (drain take_one final b)"
proof (induction b rule: drain_induct)
  case (None b)
  then show ?case by (simp add: drain_None)
next
  case (Final b a r)
  then show ?case using stable [of b a r c] by (simp add: drain_final)
next
  case (Step b a r)
  note eqs = drain_step [OF Step.hyps] drain_step [OF stable [OF Step.hyps(1)] Step.hyps(2)]
  from Step show ?case by (simp add: eqs)
qed

lemma drain_append:
  "\<forall>a\<in>set (fst (drain take_one final b)). \<not> final a \<Longrightarrow>
     drain take_one final (b @ c) =
       (fst (drain take_one final b) @ fst (drain take_one final (snd (drain take_one final b) @ c)),
        snd (drain take_one final (snd (drain take_one final b) @ c)))"
proof (induction b rule: drain_induct)
  case (None b)
  then show ?case by (simp add: drain_None [OF None.hyps])
next
  case (Final b a r)
  then show ?case by (simp add: drain_final [OF Final.hyps])
next
  case (Step b a r)
  have "\<forall>a\<in>set (fst (drain take_one final r)). \<not> final a"
    using Step.prems by (simp add: drain_step [OF Step.hyps])
  note IH = Step.IH [OF this]
  show ?case
    unfolding drain_step [OF stable [OF Step.hyps(1)] Step.hyps(2)] IH
    by (simp add: drain_step [OF Step.hyps])
qed

text \<open>What comes later only adds items.\<close>

lemma drain_more: "\<exists>more. fst (drain take_one final (b @ c)) = fst (drain take_one final b) @ more"
proof (cases "\<exists>a\<in>set (fst (drain take_one final b)). final a")
  case True
  then show ?thesis using drain_append_final [OF True, of c] by simp
next
  case False
  then show ?thesis using drain_append [of b c] by auto
qed

text \<open>The items are those of the whole stream, however it was cut.\<close>

lemma feed_chunks:
  "fst (foldl (feed take_one final) (drain take_one final b) cs) =
     fst (drain take_one final (b @ concat cs))"
proof (induction cs arbitrary: b)
  case Nil
  show ?case by simp
next
  case (Cons c cs)
  let ?d = "drain take_one final"
  show ?case
  proof (cases "\<exists>a\<in>set (fst (?d b)). final a")
    case True
    have "foldl (feed take_one final) (?d b) xs = ?d b" for xs
      by (induction xs) (use True in \<open>simp_all add: feed_def\<close>)
    from this [of "c # cs"] this [of "[]"] show ?thesis
      using drain_append_final [OF True, of "concat (c # cs)"] by simp
  next
    case False
    then have "feed take_one final (?d b) c = ?d (b @ c)"
      by (auto simp: feed_def drain_append split: prod.splits)
    then show ?thesis using Cons.IH [of "b @ c"] by simp
  qed
qed

lemma feed_from_empty:
  assumes "take_one [] = None"
  shows "fst (foldl (feed take_one final) ([], []) cs) = fst (drain take_one final (concat cs))"
  using feed_chunks [of "[]" cs] assms by (simp add: drain_None)

end

text \<open>A reader with a writer: what \<open>enc\<close> writes is taken back as one item.\<close>

locale framing = consumer take_one final
  for take_one :: "bytes \<Rightarrow> ('a \<times> bytes) option" and final :: "'a \<Rightarrow> bool" +
  fixes enc :: "'m \<Rightarrow> bytes" and item :: "'m \<Rightarrow> 'a" and ok :: "'m \<Rightarrow> bool"
  assumes take_enc: "ok m \<Longrightarrow> take_one (enc m @ r) = Some (item m, r)"
    and item_not_final: "ok m \<Longrightarrow> \<not> final (item m)"
begin

lemma drain_enc_append:
  "\<forall>m\<in>set ms. ok m \<Longrightarrow>
     drain take_one final (concat (map enc ms) @ r) =
       (map item ms @ fst (drain take_one final r), snd (drain take_one final r))"
  by (induction ms) (auto simp: drain_step take_enc item_not_final)

lemma feed_enc:
  assumes "\<forall>m\<in>set ms. ok m" and "take_one [] = None" and "concat cs = concat (map enc ms)"
  shows "fst (foldl (feed take_one final) ([], []) cs) = map item ms"
  using drain_enc_append [of ms "[]"] assms by (simp add: feed_from_empty drain_None)

end

end
