(* ===== verification/WireFormat.thy ===== *)
theory WireFormat
  imports StreamConsumer
begin

text \<open>
  The wire protocol (README, section "Wire"): the request frame
  \<open>[4B header_size][RpcHeader][args]\<close> a client writes, the response frame
  \<open>[4B size][8B request_id][body]\<close> a server writes, the table of published services, and
  the two server-side readers of request frames: \<open>uring_take\<close> (the decoding part of
  \<open>UringRpcProvider::tryHandleRequest\<close>) and \<open>muduo_take\<close> (one round of the loop of
  \<open>RpcProvider::onMessage\<close>).

  Protobuf is a library the code links against: its three entry points the code uses are the
  fields of the record \<open>protobuf\<close>, an argument of every definition that needs them. A parsed
  message is represented by bytes, so \<open>parse_request\<close> is an arbitrary partial function.
\<close>

section \<open>Frames\<close>

record rpc_header =
  service_name :: bytes
  method_name :: bytes
  args_size :: u32
  request_id :: u64

record method_desc =  \<comment> \<open>\<open>google::protobuf::MethodDescriptor\<close>: what the code reads of it\<close>
  md_service :: bytes
  md_name :: bytes

type_synonym message = bytes

record protobuf =
  parse_header :: "bytes \<Rightarrow> rpc_header option"
  serialize_header :: "rpc_header \<Rightarrow> bytes option"
  parse_request :: "method_desc \<Rightarrow> bytes \<Rightarrow> message option"

definition kMaxHeaderSize :: u32 where "kMaxHeaderSize = 64 * 1024"
definition kMaxBodySize :: u32 where "kMaxBodySize = 64 * 1024 * 1024"

text \<open>The client: \<open>header_size\<close> and \<open>args_size\<close> are \<open>uint32_t\<close>, so lengths are
  truncated to 32 bits.\<close>

definition request_frame :: "bytes \<Rightarrow> bytes \<Rightarrow> bytes" where
  "request_frame rpc_header_str args_str =
     le32 (of_nat (length rpc_header_str)) @ rpc_header_str @ args_str"

definition make_request :: "protobuf \<Rightarrow> bytes \<Rightarrow> bytes \<Rightarrow> u64 \<Rightarrow> bytes \<Rightarrow> bytes option" where
  "make_request pb svc mth rid args_str =
     map_option (\<lambda>hs. request_frame hs args_str)
       (serialize_header pb \<lparr>service_name = svc, method_name = mth,
          args_size = of_nat (length args_str), request_id = rid\<rparr>)"

text \<open>The servers: \<open>response_size = sizeof(uint64_t) + body\<close> is a \<open>uint32_t\<close>.\<close>

definition response_frame :: "u64 \<Rightarrow> bytes \<Rightarrow> bytes" where
  "response_frame rid body = le32 (8 + of_nat (length body)) @ le64 rid @ body"

lemma length_response_frame [simp]: "length (response_frame rid body) = 12 + length body"
  by (simp add: response_frame_def)

lemma response_frame_nonempty [simp]: "response_frame rid body \<noteq> []"
  using length_response_frame [of rid body] by (metis add_is_0 list.size(3) zero_neq_numeral)

section \<open>Published services\<close>

record service =  \<comment> \<open>a \<open>google::protobuf::Service\<close> object and what its descriptor lists\<close>
  svc_id :: nat
  svc_name :: bytes
  svc_methods :: "method_desc list"

record service_info =
  m_service :: service
  m_methodMap :: "(bytes \<times> method_desc) list"

type_synonym service_map = "(bytes \<times> service_info) list"

definition NotifyService :: "service \<Rightarrow> service_map \<Rightarrow> service_map" where
  "NotifyService svc m_serviceMap =
     (let service_info =
        \<lparr>m_service = svc,
         m_methodMap = foldl (\<lambda>mm md. map_insert (md_name md) md mm) [] (svc_methods svc)\<rparr>
      in map_insert (svc_name svc) service_info m_serviceMap)"

section \<open>Request readers\<close>

record request =
  rq_service :: service
  rq_method :: method_desc
  rq_id :: u64
  rq_msg :: message

datatype reject_reason =
    HeaderTooLarge
  | HeaderParseError
  | ArgsTooLarge
  | NoService bytes
  | NoMethod bytes bytes
  | RequestParseError

datatype req_item = Reject reject_reason | Request request

text \<open>Finding the service and the method and parsing the arguments, as both servers do.\<close>

definition resolve_request :: "protobuf \<Rightarrow> service_map \<Rightarrow> rpc_header \<Rightarrow> bytes \<Rightarrow> req_item" where
  "resolve_request pb sm h args_str =
     (case map_of sm (service_name h) of
        None \<Rightarrow> Reject (NoService (service_name h))
      | Some sinfo \<Rightarrow>
         (case map_of (m_methodMap sinfo) (method_name h) of
            None \<Rightarrow> Reject (NoMethod (service_name h) (method_name h))
          | Some md \<Rightarrow>
             (case parse_request pb md args_str of
                None \<Rightarrow> Reject RequestParseError
              | Some msg \<Rightarrow>
                  Request \<lparr>rq_service = m_service sinfo, rq_method = md,
                           rq_id = request_id h, rq_msg = msg\<rparr>)))"

text \<open>
  \<open>None\<close>: the item is not complete yet. \<open>Some (x, rest)\<close>: the item and what is left in
  \<open>ctx->input\<close> (a header or size error leaves the input as it is).
\<close>

definition uring_take :: "protobuf \<Rightarrow> service_map \<Rightarrow> bytes \<Rightarrow> (req_item \<times> bytes) option" where
  "uring_take pb sm input =
     (if length input < 4 then None
      else let header_size = rd32 input in
      if header_size > kMaxHeaderSize then Some (Reject HeaderTooLarge, input)
      else if length input < 4 + unat header_size then None
      else (case parse_header pb (take (unat header_size) (drop 4 input)) of
        None \<Rightarrow> Some (Reject HeaderParseError, input)
      | Some h \<Rightarrow>
          if args_size h > kMaxBodySize then Some (Reject ArgsTooLarge, input)
          else let request_size = 4 + unat header_size + unat (args_size h) in
          if length input < request_size then None
          else Some (resolve_request pb sm h
                       (take (unat (args_size h)) (drop (4 + unat header_size) input)),
                     drop request_size input)))"

text \<open>The muduo server has no size limits, and only a header error ends its loop.\<close>

definition muduo_take :: "protobuf \<Rightarrow> service_map \<Rightarrow> bytes \<Rightarrow> (req_item \<times> bytes) option" where
  "muduo_take pb sm buffer =
     (if length buffer < 4 then None
      else let header_size = rd32 buffer in
      if length buffer < 4 + unat header_size then None
      else (case parse_header pb (take (unat header_size) (drop 4 buffer)) of
        None \<Rightarrow> Some (Reject HeaderParseError, buffer)
      | Some h \<Rightarrow>
          let frame_size = 4 + unat header_size + unat (args_size h) in
          if length buffer < frame_size then None
          else Some (resolve_request pb sm h
                       (take (unat (args_size h)) (drop (4 + unat header_size) buffer)),
                     drop frame_size buffer)))"

primrec uring_closes :: "req_item \<Rightarrow> bool" where
  "uring_closes (Reject r) = True"
| "uring_closes (Request r) = False"

definition muduo_stops :: "req_item \<Rightarrow> bool" where
  "muduo_stops x \<longleftrightarrow> x = Reject HeaderParseError"

section \<open>The client's reader of response frames\<close>

datatype response_item = BadFrame | Response u64 bytes

definition take_response :: "bytes \<Rightarrow> (response_item \<times> bytes) option" where
  "take_response b =
     (if length b < 4 then None
      else let size = rd32 b in
      if size < 8 then Some (BadFrame, drop 4 b)
      else if length b < 4 + unat size then None
      else Some (Response (rd64 (drop 4 b)) (take (unat size - 8) (drop 12 b)),
                 drop (4 + unat size) b))"

definition is_bad_frame :: "response_item \<Rightarrow> bool" where
  "is_bad_frame x \<longleftrightarrow> x = BadFrame"


section \<open>The readers are stream consumers\<close>

lemma uring_take_stable: "uring_take pb sm b = Some (a, r) \<Longrightarrow> uring_take pb sm (b @ c) = Some (a, r @ c)"
  by (auto simp: uring_take_def Let_def rd32_append take_drop_prefix
      split: if_splits option.splits)

lemma uring_take_shrinks: "uring_take pb sm b = Some (a, r) \<Longrightarrow> \<not> uring_closes a \<Longrightarrow> length r < length b"
  by (auto simp: uring_take_def Let_def split: if_splits option.splits)

interpretation uring: consumer "uring_take pb sm" uring_closes for pb sm
  by unfold_locales (fact uring_take_stable, fact uring_take_shrinks)

lemma muduo_take_stable: "muduo_take pb sm b = Some (a, r) \<Longrightarrow> muduo_take pb sm (b @ c) = Some (a, r @ c)"
  by (auto simp: muduo_take_def Let_def rd32_append take_drop_prefix
      split: if_splits option.splits)

lemma muduo_take_shrinks: "muduo_take pb sm b = Some (a, r) \<Longrightarrow> \<not> muduo_stops a \<Longrightarrow> length r < length b"
  by (auto simp: muduo_take_def muduo_stops_def Let_def split: if_splits option.splits)

interpretation muduo: consumer "muduo_take pb sm" muduo_stops for pb sm
  by unfold_locales (fact muduo_take_stable, fact muduo_take_shrinks)

lemma take_response_stable: "take_response b = Some (a, r) \<Longrightarrow> take_response (b @ c) = Some (a, r @ c)"
proof -
  assume *: "take_response b = Some (a, r)"
  then have 4: "4 \<le> length b" by (auto simp: take_response_def split: if_splits)
  show ?thesis
  proof (cases "rd32 b < 8")
    case True
    with * 4 show ?thesis by (simp add: take_response_def rd32_append)
  next
    case False
    then have "8 \<le> unat (rd32 b)" by (simp add: word_less_nat_alt)
    with * 4 False show ?thesis
      by (auto simp: take_response_def rd32_append rd64_append Let_def take_drop_prefix
          split: if_splits)
  qed
qed

lemma take_response_shrinks: "take_response b = Some (a, r) \<Longrightarrow> \<not> is_bad_frame a \<Longrightarrow> length r < length b"
  by (auto simp: take_response_def Let_def split: if_splits)

text \<open>
  A response body shorter than \<open>2^32 - 8\<close> is framed and read back; the bound is where
  \<open>uint32_t response_size\<close> wraps around.
\<close>

definition body_fits :: "bytes \<Rightarrow> bool" where
  "body_fits body \<longleftrightarrow> length body + 8 < 2 ^ 32"

lemma unat_frame_size: "body_fits body \<Longrightarrow> unat (8 + of_nat (length body) :: u32) = 8 + length body"
  by (simp add: body_fits_def unat_word_ariths unat_of_nat)

lemma take_response_frame:
  "body_fits body \<Longrightarrow> take_response (response_frame rid body @ r) = Some (Response rid body, r)"
  by (simp add: take_response_def response_frame_def unat_frame_size word_less_nat_alt Let_def)

interpretation responses: framing take_response is_bad_frame
  "\<lambda>(rid, body). response_frame rid body" "\<lambda>(rid, body). Response rid body"
  "\<lambda>(rid, body). body_fits body"
  by unfold_locales
    (auto simp: take_response_stable take_response_shrinks take_response_frame is_bad_frame_def)

section \<open>Request frames and their readers\<close>

text \<open>
  A request frame is \<open>(h, hs, args)\<close>: a header, its serialisation and the arguments. It is
  \<open>uring_ok\<close> when protobuf parses the header back, the sizes are within the server's limits
  and the server knows the method and can parse the arguments.
\<close>

definition uring_ok :: "protobuf \<Rightarrow> service_map \<Rightarrow> rpc_header \<times> bytes \<times> bytes \<Rightarrow> bool" where
  "uring_ok pb sm m =
     (case m of (h, hs, args) \<Rightarrow>
        parse_header pb hs = Some h \<and> length hs \<le> unat kMaxHeaderSize \<and>
        unat (args_size h) = length args \<and> args_size h \<le> kMaxBodySize \<and>
        \<not> uring_closes (resolve_request pb sm h args))"

lemma unat_header_size: "length hs \<le> unat kMaxHeaderSize \<Longrightarrow> unat (of_nat (length hs) :: u32) = length hs"
  by (simp add: kMaxHeaderSize_def unat_of_nat)

lemma uring_take_frame:
  assumes "uring_ok pb sm (h, hs, args)"
  shows "uring_take pb sm (request_frame hs args @ r) = Some (resolve_request pb sm h args, r)"
proof -
  have size: "unat (of_nat (length hs) :: u32) = length hs"
    using assms by (auto simp: uring_ok_def unat_header_size)
  moreover have "\<not> kMaxHeaderSize < (of_nat (length hs) :: u32)"
    using assms size by (auto simp: uring_ok_def word_less_nat_alt)
  ultimately show ?thesis
    using assms by (auto simp: uring_take_def request_frame_def uring_ok_def Let_def)
qed

interpretation uring_frames: framing "uring_take pb sm" uring_closes
  "\<lambda>(h, hs, args). request_frame hs args" "\<lambda>(h, hs, args). resolve_request pb sm h args"
  "uring_ok pb sm" for pb sm
  by unfold_locales (auto simp: uring_take_frame uring_ok_def)

end
