(* ===== verification/ConnManager.thy ===== *)
theory ConnManager
  imports KimPrelude
begin

text \<open>
  \<open>ConnectionContext\<close> and \<open>ConnectionManager\<close> (include/connectionmanager.h,
  connectionmanager.cc). A context pointer is an index into \<open>m_allConns\<close>, the vector that
  owns the contexts and never shrinks; \<open>m_nConns\<close> is its length. The \<open>::close\<close> system
  calls are recorded in \<open>closed_fds\<close>.
\<close>

section \<open>State\<close>

type_synonym ctx_ptr = nat

record conn_ctx =
  cfd :: int
  connId :: u64
  input :: bytes
  outQueue :: "bytes list"
  written :: nat
  sending :: bool
  inflight :: int
  closing :: bool
  pendingReqs :: int
  readPaused :: bool

text \<open>\<open>std::make_unique<ConnectionContext>()\<close> zero-initialises the scalars.\<close>

definition new_ctx :: conn_ctx where
  "new_ctx = \<lparr>cfd = 0, connId = 0, input = [], outQueue = [], written = 0, sending = False,
     inflight = 0, closing = False, pendingReqs = 0, readPaused = False\<rparr>"

definition reset :: "int \<Rightarrow> conn_ctx \<Rightarrow> conn_ctx" where
  "reset newfd c = c\<lparr>cfd := newfd, input := [], outQueue := [], written := 0, sending := False,
     inflight := 0, closing := False, pendingReqs := 0, readPaused := False\<rparr>"

record conn_mgr =
  m_active :: "int \<Rightarrow> ctx_ptr option"
  m_allConns :: "ctx_ptr \<Rightarrow> conn_ctx"
  m_nConns :: nat
  m_idlePool :: "ctx_ptr list"
  nextId :: u64
  closed_fds :: "int list"

definition mgr_init :: conn_mgr where
  "mgr_init = \<lparr>m_active = (\<lambda>_. None), m_allConns = (\<lambda>_. new_ctx), m_nConns = 0,
     m_idlePool = [], nextId = 1, closed_fds = []\<rparr>"

abbreviation upd_ctx :: "ctx_ptr \<Rightarrow> (conn_ctx \<Rightarrow> conn_ctx) \<Rightarrow> conn_mgr \<Rightarrow> conn_mgr" where
  "upd_ctx p f m \<equiv> m\<lparr>m_allConns := (m_allConns m)(p := f (m_allConns m p))\<rparr>"

section \<open>Operations\<close>

definition acquire :: "int \<Rightarrow> conn_mgr \<Rightarrow> ctx_ptr \<times> conn_mgr" where
  "acquire fd m =
     (let (p, m1) =
        (if m_idlePool m \<noteq> []
         then (let p = last (m_idlePool m)
               in (p, upd_ctx p (reset fd) (m\<lparr>m_idlePool := butlast (m_idlePool m)\<rparr>)))
         else (let p = m_nConns m
               in (p, (upd_ctx p (\<lambda>_. reset fd new_ctx) m)\<lparr>m_nConns := Suc p\<rparr>)));
        m2 = upd_ctx p (connId_update (\<lambda>_. nextId m)) (m1\<lparr>nextId := nextId m + 1\<rparr>)
      in (p, m2\<lparr>m_active := (m_active m2)(fd \<mapsto> p)\<rparr>))"

definition find_conn :: "int \<Rightarrow> conn_mgr \<Rightarrow> ctx_ptr option" where
  "find_conn fd m = m_active m fd"

definition onSubmit :: "ctx_ptr \<Rightarrow> conn_mgr \<Rightarrow> conn_mgr" where
  "onSubmit p m = upd_ctx p (\<lambda>c. c\<lparr>inflight := inflight c + 1\<rparr>) m"

definition recycle :: "ctx_ptr \<Rightarrow> conn_mgr \<Rightarrow> conn_mgr" where
  "recycle p m = m\<lparr>m_idlePool := m_idlePool m @ [p]\<rparr>"

text \<open>\<open>onComplete\<close>: \<open>True\<close> means that the context was recycled.\<close>

definition onComplete :: "ctx_ptr option \<Rightarrow> conn_mgr \<Rightarrow> bool \<times> conn_mgr" where
  "onComplete ctx m =
     (case ctx of
        None \<Rightarrow> (False, m)
      | Some p \<Rightarrow>
          let m1 = upd_ctx p (\<lambda>c. c\<lparr>inflight := inflight c - 1\<rparr>) m
          in if closing (m_allConns m1 p) \<and> inflight (m_allConns m1 p) = 0
             then (True, recycle p m1) else (False, m1))"

definition close_conn :: "int \<Rightarrow> conn_mgr \<Rightarrow> conn_mgr" where
  "close_conn fd m =
     (case m_active m fd of
        None \<Rightarrow> m
      | Some p \<Rightarrow>
          let m1 = m\<lparr>m_active := (m_active m)(fd := None),
                     closed_fds := closed_fds m @ [cfd (m_allConns m p)]\<rparr>;
              m2 = upd_ctx p (\<lambda>c. c\<lparr>closing := True\<rparr>) m1
          in if inflight (m_allConns m2 p) = 0 then recycle p m2 else m2)"

section \<open>The invariant of the manager\<close>

text \<open>
  An owned context is active under exactly its own descriptor, or idle in the pool with no
  operation in flight, or draining: closed, with operations still in flight.
\<close>

definition mgr_ok :: "conn_mgr \<Rightarrow> bool" where
  "mgr_ok m \<longleftrightarrow>
     (\<forall>fd p. m_active m fd = Some p \<longrightarrow>
        p < m_nConns m \<and> cfd (m_allConns m p) = fd \<and> \<not> closing (m_allConns m p) \<and>
        p \<notin> set (m_idlePool m)) \<and>
     distinct (m_idlePool m) \<and>
     (\<forall>p\<in>set (m_idlePool m). p < m_nConns m \<and> inflight (m_allConns m p) = 0) \<and>
     (\<forall>p<m_nConns m. 0 \<le> inflight (m_allConns m p)) \<and>
     (\<forall>p<m_nConns m. p \<notin> set (m_idlePool m) \<longrightarrow>
        m_active m (cfd (m_allConns m p)) = Some p \<or>
        closing (m_allConns m p) \<and> 0 < inflight (m_allConns m p))"

lemmas mgr_defs = acquire_def find_conn_def onSubmit_def recycle_def onComplete_def close_conn_def

lemma mgr_ok_init: "mgr_ok mgr_init"
  by (simp add: mgr_ok_def mgr_init_def)

lemma mgr_okD:
  assumes "mgr_ok m" and "m_active m fd = Some p"
  shows "p < m_nConns m" "cfd (m_allConns m p) = fd" "\<not> closing (m_allConns m p)"
    "p \<notin> set (m_idlePool m)" "0 \<le> inflight (m_allConns m p)"
  using assms unfolding mgr_ok_def by blast+

lemma mgr_okI:
  assumes "\<And>fd p. m_active m fd = Some p \<Longrightarrow>
             p < m_nConns m \<and> cfd (m_allConns m p) = fd \<and> \<not> closing (m_allConns m p) \<and>
             p \<notin> set (m_idlePool m)"
    and "distinct (m_idlePool m)"
    and "\<And>p. p \<in> set (m_idlePool m) \<Longrightarrow> p < m_nConns m \<and> inflight (m_allConns m p) = 0"
    and "\<And>p. p < m_nConns m \<Longrightarrow> 0 \<le> inflight (m_allConns m p)"
    and "\<And>p. p < m_nConns m \<Longrightarrow> p \<notin> set (m_idlePool m) \<Longrightarrow>
           m_active m (cfd (m_allConns m p)) \<noteq> Some p \<Longrightarrow>
           closing (m_allConns m p) \<and> 0 < inflight (m_allConns m p)"
  shows "mgr_ok m"
  using assms unfolding mgr_ok_def by blast

lemma mgr_ok_distinct: "mgr_ok m \<Longrightarrow> distinct (m_idlePool m)"
  by (simp add: mgr_ok_def)

lemma mgr_ok_idle:
  "mgr_ok m \<Longrightarrow> p \<in> set (m_idlePool m) \<Longrightarrow> p < m_nConns m \<and> inflight (m_allConns m p) = 0"
  by (simp add: mgr_ok_def)

lemma mgr_ok_nonneg: "mgr_ok m \<Longrightarrow> p < m_nConns m \<Longrightarrow> 0 \<le> inflight (m_allConns m p)"
  by (simp add: mgr_ok_def)

lemma mgr_ok_draining:
  "mgr_ok m \<Longrightarrow> p < m_nConns m \<Longrightarrow> p \<notin> set (m_idlePool m) \<Longrightarrow>
     m_active m (cfd (m_allConns m p)) \<noteq> Some p \<Longrightarrow>
     closing (m_allConns m p) \<and> 0 < inflight (m_allConns m p)"
  by (auto simp: mgr_ok_def)

lemma mgr_ok_inj: "mgr_ok m \<Longrightarrow> m_active m fd = Some p \<Longrightarrow> m_active m fd' = Some p \<Longrightarrow> fd = fd'"
  using mgr_okD(2) by blast

lemma mgr_ok_idle_last:
  assumes "mgr_ok m" and "m_idlePool m \<noteq> []"
  shows "last (m_idlePool m) < m_nConns m" "last (m_idlePool m) \<notin> ran (m_active m)"
    "last (m_idlePool m) \<notin> set (butlast (m_idlePool m))"
proof -
  let ?p = "last (m_idlePool m)"
  have "?p \<in> set (m_idlePool m)" using assms(2) by simp
  then show "?p < m_nConns m" "?p \<notin> ran (m_active m)"
    using assms(1) unfolding mgr_ok_def ran_def by blast+
  have "distinct (butlast (m_idlePool m) @ [?p])"
    using assms unfolding mgr_ok_def by (metis append_butlast_last_id)
  then show "?p \<notin> set (butlast (m_idlePool m))" by simp
qed

text \<open>What \<open>acquire\<close> returns, without the two branches.\<close>

definition acquire_ptr :: "conn_mgr \<Rightarrow> ctx_ptr" where
  "acquire_ptr m = (if m_idlePool m \<noteq> [] then last (m_idlePool m) else m_nConns m)"

lemma acquire_simps:
  "fst (acquire fd m) = acquire_ptr m"
  "m_active (snd (acquire fd m)) = (m_active m)(fd \<mapsto> acquire_ptr m)"
  "nextId (snd (acquire fd m)) = nextId m + 1"
  "closed_fds (snd (acquire fd m)) = closed_fds m"
  "m_idlePool (snd (acquire fd m)) = butlast (m_idlePool m)"
  "m_nConns (snd (acquire fd m)) = (if m_idlePool m \<noteq> [] then m_nConns m else Suc (m_nConns m))"
  by (simp_all add: acquire_def acquire_ptr_def Let_def)

definition fresh_ctx :: "int \<Rightarrow> u64 \<Rightarrow> conn_ctx" where
  "fresh_ctx fd i = \<lparr>cfd = fd, connId = i, input = [], outQueue = [], written = 0, sending = False,
     inflight = 0, closing = False, pendingReqs = 0, readPaused = False\<rparr>"

lemma fresh_ctx_simps [simp]:
  "cfd (fresh_ctx fd i) = fd" "connId (fresh_ctx fd i) = i" "input (fresh_ctx fd i) = []"
  "outQueue (fresh_ctx fd i) = []" "written (fresh_ctx fd i) = 0" "\<not> sending (fresh_ctx fd i)"
  "inflight (fresh_ctx fd i) = 0" "\<not> closing (fresh_ctx fd i)"
  "pendingReqs (fresh_ctx fd i) = 0" "\<not> readPaused (fresh_ctx fd i)"
  by (simp_all add: fresh_ctx_def)

lemma reset_fresh: "(reset fd c)\<lparr>connId := i\<rparr> = fresh_ctx fd i"
  by (cases c) (simp add: reset_def fresh_ctx_def)

lemma acquire_ctx:
  "m_allConns (snd (acquire fd m)) =
     (m_allConns m)(acquire_ptr m := fresh_ctx fd (nextId m))"
  by (simp add: acquire_def acquire_ptr_def Let_def reset_fresh)

lemma acquire_ptr_fresh:
  assumes "mgr_ok m"
  shows "acquire_ptr m \<notin> ran (m_active m)" "acquire_ptr m < m_nConns (snd (acquire fd m))"
    "acquire_ptr m \<notin> set (butlast (m_idlePool m))"
proof -
  show "acquire_ptr m \<notin> ran (m_active m)"
    using mgr_ok_idle_last(2) [OF assms] mgr_okD(1) [OF assms]
    by (auto simp: acquire_ptr_def ran_def split: if_splits)
  show "acquire_ptr m < m_nConns (snd (acquire fd m))"
    using mgr_ok_idle_last(1) [OF assms] by (simp add: acquire_ptr_def acquire_simps)
  show "acquire_ptr m \<notin> set (butlast (m_idlePool m))"
    using mgr_ok_idle_last(3) [OF assms] by (cases "m_idlePool m = []") (simp_all add: acquire_ptr_def)
qed


section \<open>Every operation keeps the invariant\<close>

lemma mgr_ok_acquire:
  assumes ok: "mgr_ok m" and free: "m_active m fd = None"
  shows "mgr_ok (snd (acquire fd m))"
proof -
  note fresh = acquire_ptr_fresh [OF ok]
  have old: "p < m_nConns (snd (acquire fd m)) \<Longrightarrow> p \<noteq> acquire_ptr m \<Longrightarrow> p < m_nConns m" for p
    using mgr_ok_idle_last(1) [OF ok] by (auto simp: acquire_simps acquire_ptr_def split: if_splits)
  have pool: "p \<in> set (m_idlePool m) \<Longrightarrow> p \<noteq> acquire_ptr m \<Longrightarrow> p \<in> set (butlast (m_idlePool m))" for p
    by (cases "m_idlePool m" rule: rev_cases) (auto simp: acquire_ptr_def)
  have less: "p < m_nConns m \<Longrightarrow> p < m_nConns (snd (acquire fd m))" for p
    by (simp add: acquire_simps)
  show ?thesis
  proof (rule mgr_okI, unfold acquire_ctx acquire_simps(2,5), goal_cases)
    case (1 fd' p)
    show ?case
    proof (cases "fd' = fd")
      case True
      with 1 show ?thesis using fresh by simp
    next
      case False
      with 1 have "m_active m fd' = Some p" by simp
      moreover from this have "p \<noteq> acquire_ptr m" using fresh(1) by (auto simp: ran_def)
      ultimately show ?thesis
        using mgr_okD [OF ok, of fd' p] less [of p] by (auto dest: in_set_butlastD)
    qed
  next
    case 2
    then show ?case using mgr_ok_distinct [OF ok] by (simp add: distinct_butlast)
  next
    case (3 p)
    then show ?case using mgr_ok_idle [OF ok, of p] less [of p] by (auto dest: in_set_butlastD)
  next
    case (4 p)
    then show ?case using mgr_ok_nonneg [OF ok, of p] old [of p] by auto
  next
    case (5 p)
    then have "p \<noteq> acquire_ptr m" by auto
    with 5 have p: "p < m_nConns m" "p \<notin> set (m_idlePool m)" using old pool by blast+
    moreover have "m_active m (cfd (m_allConns m p)) \<noteq> Some p"
      using 5 \<open>p \<noteq> acquire_ptr m\<close> free by (auto split: if_splits)
    ultimately show ?case using mgr_ok_draining [OF ok] \<open>p \<noteq> acquire_ptr m\<close> by simp
  qed
qed

text \<open>A change of one context that keeps its descriptor and its closing flag.\<close>

lemma mgr_ok_upd:
  assumes ok: "mgr_ok m" and p: "p < m_nConns m" "p \<notin> set (m_idlePool m)"
    and "cfd (f (m_allConns m p)) = cfd (m_allConns m p)"
    and "closing (f (m_allConns m p)) = closing (m_allConns m p)"
    and "0 \<le> inflight (f (m_allConns m p))"
    and "closing (m_allConns m p) \<Longrightarrow> 0 < inflight (f (m_allConns m p))"
  shows "mgr_ok (upd_ctx p f m)"
proof (rule mgr_okI, goal_cases)
  case (1 fd q)
  then show ?case using mgr_okD [OF ok, of fd q] assms by auto
next
  case 2
  then show ?case using mgr_ok_distinct [OF ok] by simp
next
  case (3 q)
  then show ?case using mgr_ok_idle [OF ok, of q] p by auto
next
  case (4 q)
  then show ?case using mgr_ok_nonneg [OF ok, of q] assms by auto
next
  case (5 q)
  then show ?case using mgr_ok_draining [OF ok, of q] assms by (auto split: if_splits)
qed

lemma mgr_ok_onSubmit:
  "mgr_ok m \<Longrightarrow> p < m_nConns m \<Longrightarrow> p \<notin> set (m_idlePool m) \<Longrightarrow> mgr_ok (onSubmit p m)"
  unfolding onSubmit_def by (rule mgr_ok_upd) (auto simp: mgr_ok_def)

lemma mgr_ok_close:
  assumes ok: "mgr_ok m"
  shows "mgr_ok (close_conn fd m)"
proof (cases "m_active m fd")
  case None
  then show ?thesis using ok by (simp add: close_conn_def)
next
  case (Some p)
  note act = mgr_okD [OF ok Some]
  have other: "m_active m fd' = Some p \<Longrightarrow> fd' = fd" for fd'
    using mgr_ok_inj [OF ok Some] by blast
  let ?m' = "close_conn fd m"
  have ctx: "m_allConns ?m' = (m_allConns m)(p := (m_allConns m p)\<lparr>closing := True\<rparr>)"
    and n: "m_nConns ?m' = m_nConns m"
    and active: "m_active ?m' = (m_active m)(fd := None)"
    and pool: "m_idlePool ?m' =
           (if inflight (m_allConns m p) = 0 then m_idlePool m @ [p] else m_idlePool m)"
    using Some by (simp_all add: close_conn_def recycle_def Let_def)
  show ?thesis
  proof (rule mgr_okI, unfold ctx n active, goal_cases)
    case (1 fd' q)
    then have "m_active m fd' = Some q" "fd' \<noteq> fd" by (simp_all split: if_splits)
    moreover from this have "q \<noteq> p" using other by blast
    ultimately show ?case using mgr_okD [OF ok, of fd' q] by (simp add: pool)
  next
    case 2
    then show ?case using mgr_ok_distinct [OF ok] act(4) by (simp add: pool)
  next
    case (3 q)
    then show ?case using mgr_ok_idle [OF ok, of q] act(1) by (cases "q = p") (auto simp: pool split: if_splits)
  next
    case (4 q)
    then show ?case using mgr_ok_nonneg [OF ok, of q] by auto
  next
    case (5 q)
    show ?case
    proof (cases "q = p")
      case True
      with 5 act(5) show ?thesis by (simp add: pool split: if_splits)
    next
      case False
      with 5 have "q \<notin> set (m_idlePool m)" by (simp add: pool split: if_splits)
      moreover have "m_active m (cfd (m_allConns m q)) \<noteq> Some q"
        using 5 False Some by (auto split: if_splits)
      ultimately show ?thesis using mgr_ok_draining [OF ok 5(1)] False by simp
    qed
  qed
qed

lemma mgr_ok_onComplete:
  assumes ok: "mgr_ok m" and p: "p < m_nConns m" "p \<notin> set (m_idlePool m)"
    and busy: "0 < inflight (m_allConns m p)"
  shows "mgr_ok (snd (onComplete (Some p) m))"
proof -
  let ?m1 = "upd_ctx p (\<lambda>c. c\<lparr>inflight := inflight c - 1\<rparr>) m"
  show ?thesis
  proof (cases "closing (m_allConns m p) \<and> inflight (m_allConns m p) = 1")
    case False
    then have "closing (m_allConns m p) \<Longrightarrow> 1 < inflight (m_allConns m p)" using busy by auto
    then have "mgr_ok ?m1" using ok p busy by (intro mgr_ok_upd) auto
    then show ?thesis using False by (auto simp: onComplete_def Let_def)
  next
    case True
    then have not_live: "m_active m fd \<noteq> Some p" for fd using mgr_okD(3) [OF ok] by blast
    let ?m' = "?m1\<lparr>m_idlePool := m_idlePool m @ [p]\<rparr>"
    have "mgr_ok ?m'"
    proof (rule mgr_okI, goal_cases)
      case (1 fd q)
      then have "q \<noteq> p" using not_live by auto
      with 1 show ?case using mgr_okD [OF ok, of fd q] by simp
    next
      case 2
      then show ?case using mgr_ok_distinct [OF ok] p by simp
    next
      case (3 q)
      then show ?case using mgr_ok_idle [OF ok, of q] p True by auto
    next
      case (4 q)
      then show ?case using mgr_ok_nonneg [OF ok, of q] True by simp
    next
      case (5 q)
      then show ?case using mgr_ok_draining [OF ok, of q] by auto
    qed
    then show ?thesis using True by (simp add: onComplete_def recycle_def Let_def)
  qed
qed

section \<open>The interface the provider uses\<close>

text \<open>
  What the reactor relies on: a table of descriptors whose contexts are never shared, entries
  that appear on \<open>acquire\<close> and disappear on \<open>close\<close>, and a count of operations that
  decides when a closed context may be handed out again.
\<close>

locale connection_table =
  fixes ok :: "'m \<Rightarrow> bool" and lookup :: "'m \<Rightarrow> int \<Rightarrow> 'p option" and pool :: "'m \<Rightarrow> 'p set"
    and busy :: "'m \<Rightarrow> 'p \<Rightarrow> int"
    and acq :: "int \<Rightarrow> 'm \<Rightarrow> 'p \<times> 'm" and cls :: "int \<Rightarrow> 'm \<Rightarrow> 'm"
  assumes ok_acq: "ok m \<Longrightarrow> lookup m fd = None \<Longrightarrow> ok (snd (acq fd m))"
    and ok_cls: "ok m \<Longrightarrow> ok (cls fd m)"
    and lookup_acq: "lookup (snd (acq fd m)) = (lookup m)(fd \<mapsto> fst (acq fd m))"
    and lookup_cls: "lookup (cls fd m) = (lookup m)(fd := None)"
    and acq_unshared: "ok m \<Longrightarrow> fst (acq fd m) \<notin> ran (lookup m)"
    and pool_cls: "ok m \<Longrightarrow> lookup m fd = Some p \<Longrightarrow>
           pool (cls fd m) = (if busy m p = 0 then insert p (pool m) else pool m)"
    and pool_live: "ok m \<Longrightarrow> lookup m fd = Some p \<Longrightarrow> p \<notin> pool m"
    and live_inj: "ok m \<Longrightarrow> lookup m fd = Some p \<Longrightarrow> lookup m fd' = Some p \<Longrightarrow> fd = fd'"
begin

lemma lookup_cls_same [simp]: "lookup (cls fd m) fd = None"
  by (simp add: lookup_cls)

lemma lookup_acq_same [simp]: "lookup (snd (acq fd m)) fd = Some (fst (acq fd m))"
  by (simp add: lookup_acq)

lemma lookup_other:
  "fd' \<noteq> fd \<Longrightarrow> lookup (cls fd m) fd' = lookup m fd'"
  "fd' \<noteq> fd \<Longrightarrow> lookup (snd (acq fd m)) fd' = lookup m fd'"
  by (simp_all add: lookup_cls lookup_acq)

lemma acq_not_shared:
  assumes "ok m" and "lookup m fd' = Some p" and "fd' \<noteq> fd"
  shows "lookup (snd (acq fd m)) fd' = Some p \<and> fst (acq fd m) \<noteq> p"
  using assms acq_unshared [of m fd] by (auto simp: lookup_acq ran_def)

text \<open>Closing a descriptor with operations in flight keeps its context out of the pool.\<close>

lemma cls_draining:
  assumes "ok m" and "lookup m fd = Some p" and "busy m p \<noteq> 0"
  shows "p \<notin> pool (cls fd m) \<and> p \<notin> ran (lookup (cls fd m))"
proof
  show "p \<notin> pool (cls fd m)"
    using assms pool_live [OF assms(1,2)] pool_cls [OF assms(1,2)] by simp
  show "p \<notin> ran (lookup (cls fd m))"
  proof
    assume "p \<in> ran (lookup (cls fd m))"
    then obtain fd' where "((lookup m)(fd := None)) fd' = Some p"
      by (auto simp: lookup_cls ran_def)
    then have "fd' \<noteq> fd" "lookup m fd' = Some p" by (simp_all split: if_splits)
    then show False using live_inj [OF assms(1,2)] by blast
  qed
qed

lemma cls_reusable:
  assumes "ok m" and "lookup m fd = Some p" and "busy m p = 0"
  shows "p \<in> pool (cls fd m)"
  using assms pool_cls [of m fd p] by simp

end

lemma close_simps:
  "m_active (close_conn fd m) = (m_active m)(fd := None)"
  "nextId (close_conn fd m) = nextId m"
  "m_nConns (close_conn fd m) = m_nConns m"
  by (auto simp: close_conn_def recycle_def Let_def fun_eq_iff split: option.splits)

interpretation conns: connection_table mgr_ok m_active "\<lambda>m. set (m_idlePool m)"
  "\<lambda>m p. inflight (m_allConns m p)" acquire close_conn
proof (unfold_locales, goal_cases)
  case (1 m fd) then show ?case by (rule mgr_ok_acquire)
next
  case (2 m fd) then show ?case by (rule mgr_ok_close)
next
  case (3 fd m) show ?case by (simp add: acquire_simps)
next
  case (4 fd m) show ?case by (rule close_simps)
next
  case (5 m fd) then show ?case using acquire_ptr_fresh(1) by (simp add: acquire_simps)
next
  case (6 m fd p) then show ?case by (simp add: close_conn_def recycle_def Let_def)
next
  case (7 m fd p) then show ?case by (rule mgr_okD(4))
next
  case (8 m fd p fd') then show ?case by (rule mgr_ok_inj)
qed

end
