(* ===== verification/UserData.thy ===== *)
theory UserData
  imports KimPrelude
begin

text \<open>
  The 64-bit \<open>user_data\<close> of an io_uring entry: \<open>packUserData\<close>, \<open>unpackCtx\<close> and
  \<open>unpackOp\<close> of uringrpcprovider.cc put a context pointer into the low 48 bits and the
  operation above them; include/coroutine/io_uring_awaiter.h marks the entries of coroutines
  with bit 63. A user-space pointer of x86-64 is below \<open>2^47\<close>.
\<close>

datatype op_type = ACCEPT | RECV | SEND | NOTIFY

primrec op_code :: "op_type \<Rightarrow> u64" where
  "op_code ACCEPT = 0"
| "op_code RECV = 1"
| "op_code SEND = 2"
| "op_code NOTIFY = 3"

text \<open>\<open>static_cast<OpType>\<close> of a number that is no enumerator yields no enumerator.\<close>

definition op_of_code :: "u64 \<Rightarrow> op_type option" where
  "op_of_code c =
     (if c = 0 then Some ACCEPT else if c = 1 then Some RECV
      else if c = 2 then Some SEND else if c = 3 then Some NOTIFY else None)"

definition kEventShift :: nat where "kEventShift = 48"
definition kPtrMask :: u64 where "kPtrMask = push_bit kEventShift 1 - 1"

definition packUserData :: "u64 \<Rightarrow> op_type \<Rightarrow> u64" where
  "packUserData ctx op = (ctx AND kPtrMask) OR push_bit kEventShift (op_code op)"

definition unpackCtx :: "u64 \<Rightarrow> u64" where
  "unpackCtx ud = ud AND kPtrMask"

definition unpackOp :: "u64 \<Rightarrow> op_type option" where
  "unpackOp ud = op_of_code (drop_bit kEventShift ud)"

definition kCoroTagBit :: u64 where "kCoroTagBit = push_bit 63 1"

definition makeCoroUserData :: "u64 \<Rightarrow> u64" where
  "makeCoroUserData req = req OR kCoroTagBit"

definition isCoroUserData :: "u64 \<Rightarrow> bool" where
  "isCoroUserData ud \<longleftrightarrow> ud AND kCoroTagBit \<noteq> 0"

definition coroRequestFromUserData :: "u64 \<Rightarrow> u64" where
  "coroRequestFromUserData ud = ud AND NOT kCoroTagBit"

lemma kPtrMask_mask: "kPtrMask = mask 48"
  by (simp add: kPtrMask_def kEventShift_def mask_eq_exp_minus_1)

lemma op_code_less: "op_code op < 4"
  by (cases op) simp_all

lemma op_of_code_code [simp]: "op_of_code (op_code op) = Some op"
  by (cases op) (simp_all add: op_of_code_def)

lemma op_code_bit: "bit (op_code op) n \<Longrightarrow> n < 2"
proof -
  have "take_bit 2 (op_code op) = op_code op" by (cases op) simp_all
  then show "bit (op_code op) n \<Longrightarrow> n < 2" by (metis bit_take_bit_iff)
qed

lemma bit_kCoroTagBit: "bit kCoroTagBit n \<longleftrightarrow> n = 63"
  unfolding kCoroTagBit_def bit_push_bit_iff bit_1_iff by auto

lemma unpackCtx_pack: "unpackCtx (packUserData ctx op) = take_bit 48 ctx"
  by (rule bit_word_eqI)
    (auto simp: unpackCtx_def packUserData_def kPtrMask_mask kEventShift_def bit_simps)

lemma drop_pack: "drop_bit 48 (packUserData ctx op) = op_code op"
  by (rule bit_word_eqI)
    (auto simp: packUserData_def kPtrMask_mask kEventShift_def bit_simps dest: op_code_bit)

lemma unpackOp_pack: "unpackOp (packUserData ctx op) = Some op"
  by (simp add: unpackOp_def kEventShift_def drop_pack)

lemma pack_not_coro: "\<not> isCoroUserData (packUserData ctx op)"
proof -
  have "packUserData ctx op AND kCoroTagBit = 0"
    by (rule bit_word_eqI)
      (auto simp: packUserData_def kPtrMask_mask kEventShift_def bit_kCoroTagBit bit_simps
        dest: op_code_bit)
  then show ?thesis by (simp add: isCoroUserData_def)
qed

lemma coro_user_data:
  assumes "req < 2 ^ 63"
  shows "isCoroUserData (makeCoroUserData req)"
    and "coroRequestFromUserData (makeCoroUserData req) = req"
proof -
  have no63: "\<not> bit req 63"
  proof -
    have "drop_bit 63 req = 0"
      using assms unfolding drop_bit_eq_div by (rule div_word_less)
    then have "\<not> bit (drop_bit 63 req) 0" by simp
    then show ?thesis by (simp add: bit_drop_bit_eq)
  qed
  have "bit (makeCoroUserData req AND kCoroTagBit) 63"
    by (simp add: makeCoroUserData_def bit_kCoroTagBit bit_simps)
  then show "isCoroUserData (makeCoroUserData req)"
    by (auto simp: isCoroUserData_def)
  show "coroRequestFromUserData (makeCoroUserData req) = req"
    using no63 by (intro bit_word_eqI)
      (auto simp: coroRequestFromUserData_def makeCoroUserData_def bit_kCoroTagBit bit_simps)
qed

end
