(* ===== verification/UringProvider.thy ===== *)
theory UringProvider
  imports WireFormat ConnManager UserData
begin

text \<open>
  \<open>UringRpcProvider\<close> (include/uringrpcprovider.h, uringrpcprovider.cc): the state of the
  io_uring server and its operations, one definition per method.

  liburing is not part of the repository. What the code learns from it is input of the
  model: \<open>sqe_answers\<close> holds the answers \<open>io_uring_get_sqe\<close> will give (\<open>False\<close> for
  \<open>nullptr\<close>; an exhausted list answers \<open>nullptr\<close>), and the completions are chosen by the
  steps of theory ReactorSteps. \<open>sq\<close>, \<open>inkernel\<close> and \<open>cq\<close> hold the prepared, the
  submitted and the completed operations. The \<open>user_data\<close> of an operation is kept as the
  pair that \<open>unpackCtx\<close> and \<open>unpackOp\<close> give back (theory UserData).

  \<open>ub\<close> records undefined behaviour: it is set where the code would call \<open>front()\<close> on an
  empty deque. Log output is left out.
\<close>

definition kMaxInflightPerConn :: int where "kMaxInflightPerConn = 256"
definition kBufRingEntries :: nat where "kBufRingEntries = 1024"
definition kBufSize :: nat where "kBufSize = 4096"
definition ENOBUFS :: int where "ENOBUFS = 105"

datatype sqe_kind =
    PrepAccept
  | PrepRecv int
  | PrepSend int bytes
  | PrepRead

record sqe =
  s_kind :: sqe_kind
  s_ctx :: "ctx_ptr option"
  s_op :: op_type

text \<open>A completion of an operation of the server, or of an awaiter of a coroutine (bit 63).\<close>

datatype user_data = UdOp "ctx_ptr option" op_type | UdCoro nat

record cqe =
  c_ud :: user_data
  c_res :: int
  c_flags :: u32

definition cqe_buffer :: "u32 \<Rightarrow> nat option" where
  "cqe_buffer flags = (if flags AND 1 \<noteq> 0 then Some (unat (drop_bit 16 flags)) else None)"

text \<open>A request handed to the thread pool: the arguments of \<open>handleRpc\<close>.\<close>

record rpc_task =
  t_fd :: int
  t_connId :: u64
  t_request :: request

record provider =
  mgr :: conn_mgr
  m_acceptPending :: bool
  m_notifyPending :: bool
  sqe_answers :: "bool list"
  sq :: "sqe list"
  inkernel :: "sqe list"
  cq :: "cqe list"
  buf_ring :: "nat list"
  m_bufBase :: "nat \<Rightarrow> bytes"
  m_serviceMap :: service_map
  m_taskQueue :: "rpc_task list"
  running :: "rpc_task list"
  m_readyCoros :: "(rpc_task \<times> bytes) list"
  coro_resumed :: "(nat \<times> int \<times> u32) list"
  ub :: bool

abbreviation ctx_of :: "provider \<Rightarrow> ctx_ptr \<Rightarrow> conn_ctx" where
  "ctx_of s p \<equiv> m_allConns (mgr s) p"

definition set_ctx :: "ctx_ptr \<Rightarrow> (conn_ctx \<Rightarrow> conn_ctx) \<Rightarrow> provider \<Rightarrow> provider" where
  "set_ctx p f s = s\<lparr>mgr := upd_ctx p f (mgr s)\<rparr>"

section \<open>Submitting operations\<close>

definition get_sqe :: "provider \<Rightarrow> bool \<times> provider" where
  "get_sqe s =
     (case sqe_answers s of
        [] \<Rightarrow> (False, s)
      | a # as \<Rightarrow> (a, s\<lparr>sqe_answers := as\<rparr>))"

definition push_sqe :: "sqe \<Rightarrow> provider \<Rightarrow> provider" where
  "push_sqe e s = s\<lparr>sq := sq s @ [e]\<rparr>"

definition submitAccept :: "provider \<Rightarrow> bool \<times> provider" where
  "submitAccept s =
     (let (ok, s1) = get_sqe s in
      if \<not> ok then (False, s1)
      else (True, push_sqe \<lparr>s_kind = PrepAccept, s_ctx = None, s_op = ACCEPT\<rparr> s1))"

definition submitRecv :: "int \<Rightarrow> provider \<Rightarrow> bool \<times> provider" where
  "submitRecv fd s =
     (case find_conn fd (mgr s) of
        None \<Rightarrow> (False, s)
      | Some ctx \<Rightarrow>
          let (ok, s1) = get_sqe s in
          if \<not> ok then (False, s1)
          else let s2 = push_sqe \<lparr>s_kind = PrepRecv fd, s_ctx = Some ctx, s_op = RECV\<rparr> s1
               in (True, s2\<lparr>mgr := onSubmit ctx (mgr s2)\<rparr>))"

definition submitSend :: "int \<Rightarrow> provider \<Rightarrow> bool \<times> provider" where
  "submitSend fd s =
     (case find_conn fd (mgr s) of
        None \<Rightarrow> (False, s)
      | Some ctx \<Rightarrow>
          (case outQueue (ctx_of s ctx) of
             [] \<Rightarrow> (True, set_ctx ctx (\<lambda>c. c\<lparr>sending := False\<rparr>) s)
           | front # _ \<Rightarrow>
               let (ok, s1) = get_sqe s in
               if \<not> ok then (False, s1)
               else let data = drop (written (ctx_of s ctx)) front;
                        s2 = push_sqe \<lparr>s_kind = PrepSend fd data, s_ctx = Some ctx, s_op = SEND\<rparr> s1;
                        s3 = s2\<lparr>mgr := onSubmit ctx (mgr s2)\<rparr>
                    in (True, set_ctx ctx (\<lambda>c. c\<lparr>sending := True\<rparr>) s3)))"

definition submitNotifyRead :: "provider \<Rightarrow> bool \<times> provider" where
  "submitNotifyRead s =
     (let (ok, s1) = get_sqe s in
      if \<not> ok then (False, s1)
      else (True, push_sqe \<lparr>s_kind = PrepRead, s_ctx = None, s_op = NOTIFY\<rparr> s1))"

definition close_fd :: "int \<Rightarrow> provider \<Rightarrow> provider" where
  "close_fd fd s = s\<lparr>mgr := close_conn fd (mgr s)\<rparr>"

section \<open>Thread pool and coroutines\<close>

definition submitTask :: "rpc_task \<Rightarrow> provider \<Rightarrow> provider" where
  "submitTask t s = s\<lparr>m_taskQueue := m_taskQueue s @ [t]\<rparr>"

text \<open>
  \<open>CallOnPoolAwaiter::await_suspend\<close>: the call and the handle of its coroutine are one task;
  \<open>handleRpc\<close> runs up to its \<open>co_await\<close> and is suspended there.
\<close>

definition CallOnPool_await_suspend :: "rpc_task \<Rightarrow> provider \<Rightarrow> provider" where
  [simp]: "CallOnPool_await_suspend h s = submitTask h s"

definition handleRpc :: "int \<Rightarrow> u64 \<Rightarrow> request \<Rightarrow> provider \<Rightarrow> provider" where
  "handleRpc fd cid rq s = CallOnPool_await_suspend \<lparr>t_fd = fd, t_connId = cid, t_request = rq\<rparr> s"

text \<open>A worker takes the oldest task.\<close>

definition workerThread_take :: "provider \<Rightarrow> provider" where
  "workerThread_take s =
     (case m_taskQueue s of
        [] \<Rightarrow> s
      | t # ts \<Rightarrow> s\<lparr>m_taskQueue := ts, running := running s @ [t]\<rparr>)"

definition resumeOnReactor :: "rpc_task \<times> bytes \<Rightarrow> provider \<Rightarrow> provider" where
  "resumeOnReactor h s = s\<lparr>m_readyCoros := m_readyCoros s @ [h]\<rparr>"

text \<open>
  The \<open>done\<close> callback. \<open>body\<close> is what \<open>SerializeToString\<close> of the response gives
  (\<open>None\<close> when it fails): the frame stays empty then.
\<close>

definition onPoolDone :: "rpc_task \<Rightarrow> bytes option \<Rightarrow> provider \<Rightarrow> provider" where
  "onPoolDone t body s =
     (let frame = (case body of
                     Some response_str \<Rightarrow> response_frame (rq_id (t_request t)) response_str
                   | None \<Rightarrow> [])
      in resumeOnReactor (t, frame) (s\<lparr>running := remove1 t (running s)\<rparr>))"

section \<open>Delivering responses\<close>

definition deliverResponse :: "int \<Rightarrow> u64 \<Rightarrow> bytes \<Rightarrow> provider \<Rightarrow> provider" where
  "deliverResponse fd cid data s =
     (case find_conn fd (mgr s) of
        None \<Rightarrow> s
      | Some ctx \<Rightarrow>
          if connId (ctx_of s ctx) \<noteq> cid then s
          else let s1 = set_ctx ctx (\<lambda>c. c\<lparr>outQueue := outQueue c @ [data]\<rparr>) s in
               if \<not> sending (ctx_of s1 ctx)
               then (let (ok, s2) = submitSend fd s1 in if \<not> ok then close_fd fd s2 else s2)
               else s1)"

text \<open>The resumed coroutine: nothing is sent for an empty frame.\<close>

definition resume_handleRpc :: "rpc_task \<times> bytes \<Rightarrow> provider \<Rightarrow> provider" where
  "resume_handleRpc h s =
     (case h of (t, frame) \<Rightarrow>
        if frame \<noteq> [] then deliverResponse (t_fd t) (t_connId t) frame s else s)"

definition handleNotify :: "provider \<Rightarrow> provider" where
  "handleNotify s =
     (let ready = m_readyCoros s in foldl (\<lambda>s h. resume_handleRpc h s) (s\<lparr>m_readyCoros := []\<rparr>) ready)"

section \<open>Handling completions\<close>

definition handleAccept :: "int \<Rightarrow> provider \<Rightarrow> provider" where
  "handleAccept result s =
     (let rearm = (\<lambda>s. let (ok, s') = submitAccept s
                        in if \<not> ok then s'\<lparr>m_acceptPending := True\<rparr> else s') in
      if result < 0 then rearm s
      else let connfd = result;
               s1 = s\<lparr>mgr := snd (acquire connfd (mgr s))\<rparr>;
               (ok, s2) = submitRecv connfd s1;
               s3 = (if \<not> ok then close_fd connfd s2 else s2)
           in rearm s3)"

text \<open>
  \<open>tryHandleRequest\<close>: \<open>False\<close> when no complete request is buffered. \<open>uring_take\<close> is its
  decoding part; an error closes the connection, a request is counted and dispatched.
\<close>

definition tryHandleRequest :: "protobuf \<Rightarrow> int \<Rightarrow> ctx_ptr \<Rightarrow> provider \<Rightarrow> bool \<times> provider" where
  "tryHandleRequest pb fd ctx s =
     (case uring_take pb (m_serviceMap s) (input (ctx_of s ctx)) of
        None \<Rightarrow> (False, s)
      | Some (item, rest) \<Rightarrow>
          let s1 = set_ctx ctx (\<lambda>c. c\<lparr>input := rest\<rparr>) s in
          (case item of
             Reject _ \<Rightarrow> (True, close_fd fd s1)
           | Request rq \<Rightarrow>
               let s2 = set_ctx ctx (\<lambda>c. c\<lparr>pendingReqs := pendingReqs c + 1\<rparr>) s1
               in (True, handleRpc fd (connId (ctx_of s2 ctx)) rq s2)))"

text \<open>
  The loop of \<open>handleRecv\<close>: \<open>while (tryHandleRequest(fd, ctx)) if (!find(fd)) return;\<close>.
  The result tells whether the loop ended normally (\<open>True\<close>) or by the \<open>return\<close>.
\<close>

lemma tryHandleRequest_shrinks:
  assumes "tryHandleRequest pb fd ctx s = (True, s')" and "find_conn fd (mgr s') \<noteq> None"
  shows "length (input (ctx_of s' ctx)) < length (input (ctx_of s ctx))"
proof -
  obtain item rest where t: "uring_take pb (m_serviceMap s) (input (ctx_of s ctx)) = Some (item, rest)"
    using assms(1) by (auto simp: tryHandleRequest_def split: option.splits)
  show ?thesis
  proof (cases item)
    case (Reject r)
    with assms t show ?thesis
      by (auto simp: tryHandleRequest_def close_fd_def find_conn_def close_simps Let_def)
  next
    case (Request rq)
    with assms(1) t uring_take_shrinks [OF t] show ?thesis
      by (auto simp: tryHandleRequest_def handleRpc_def submitTask_def set_ctx_def Let_def)
  qed
qed

function handle_requests :: "protobuf \<Rightarrow> int \<Rightarrow> ctx_ptr \<Rightarrow> provider \<Rightarrow> bool \<times> provider" where
  "handle_requests pb fd ctx s =
     (let (again, s1) = tryHandleRequest pb fd ctx s in
      if \<not> again then (True, s1)
      else if find_conn fd (mgr s1) = None then (False, s1)
      else handle_requests pb fd ctx s1)"
  by pat_completeness auto
termination
proof (relation "measure (\<lambda>(pb, fd, ctx, s). length (input (ctx_of s ctx)))", goal_cases)
  case 1
  show ?case by simp
next
  case (2 pb fd ctx s x again s1)
  from 2(1,2) have "tryHandleRequest pb fd ctx s = (again, s1)" by simp
  with 2(3,4) show ?case using tryHandleRequest_shrinks [of pb fd ctx s s1] by simp
qed

declare handle_requests.simps [simp del]

definition handleRecv :: "protobuf \<Rightarrow> ctx_ptr \<Rightarrow> int \<Rightarrow> provider \<Rightarrow> provider" where
  "handleRecv pb ctx result s =
     (let fd = cfd (ctx_of s ctx) in
      if closing (ctx_of s ctx) then s
      else if result \<le> 0 then
        (if result = - ENOBUFS
         then (let (ok, s1) = submitRecv fd s in if \<not> ok then close_fd fd s1 else s1)
         else close_fd fd s)
      else
        let (normal, s1) = handle_requests pb fd ctx s in
        if \<not> normal then s1
        else if kMaxInflightPerConn \<le> pendingReqs (ctx_of s1 ctx)
        then set_ctx ctx (\<lambda>c. c\<lparr>readPaused := True\<rparr>) s1
        else (let (ok, s2) = submitRecv fd s1 in if \<not> ok then close_fd fd s2 else s2))"

text \<open>
  \<open>handleSend\<close>. The inner step pops a finished response and resumes a paused reader; its
  flag tells whether the handler goes on.
\<close>

definition finish_response :: "int \<Rightarrow> ctx_ptr \<Rightarrow> provider \<Rightarrow> bool \<times> provider" where
  "finish_response fd ctx s =
     (let s1 = set_ctx ctx (\<lambda>c. c\<lparr>outQueue := tl (outQueue c), written := 0,
                                  pendingReqs := pendingReqs c - 1\<rparr>) s in
      if readPaused (ctx_of s1 ctx) \<and> pendingReqs (ctx_of s1 ctx) < kMaxInflightPerConn
      then let s2 = set_ctx ctx (\<lambda>c. c\<lparr>readPaused := False\<rparr>) s1;
               (ok, s3) = submitRecv fd s2
           in if \<not> ok then (False, close_fd fd s3) else (True, s3)
      else (True, s1))"

definition handleSend :: "ctx_ptr \<Rightarrow> int \<Rightarrow> provider \<Rightarrow> provider" where
  "handleSend ctx result s =
     (let fd = cfd (ctx_of s ctx) in
      if result \<le> 0 then close_fd fd s
      else
        let s1 = set_ctx ctx (\<lambda>c. c\<lparr>written := written c + nat result\<rparr>) s in
        (case outQueue (ctx_of s1 ctx) of
           [] \<Rightarrow> s1\<lparr>ub := True\<rparr>
         | front # _ \<Rightarrow>
             let (go_on, s2) = (if length front \<le> written (ctx_of s1 ctx)
                                then finish_response fd ctx s1 else (True, s1)) in
             if \<not> go_on then s2
             else if outQueue (ctx_of s2 ctx) = []
             then set_ctx ctx (\<lambda>c. c\<lparr>sending := False\<rparr>) s2
             else (let (ok, s3) = submitSend fd s2 in if \<not> ok then close_fd fd s3 else s3)))"

section \<open>The event loop\<close>

text \<open>The provided buffer of a RECV is copied out and given back before anything else.\<close>

definition return_buffer :: "ctx_ptr option \<Rightarrow> int \<Rightarrow> nat \<Rightarrow> provider \<Rightarrow> provider" where
  "return_buffer ctx result bid s =
     (let s1 = (case ctx of
                  Some p \<Rightarrow>
                    if 0 < result \<and> \<not> closing (ctx_of s p)
                    then set_ctx p (\<lambda>c. c\<lparr>input := input c @ take (nat result) (m_bufBase s bid)\<rparr>) s
                    else s
                | None \<Rightarrow> s)
      in s1\<lparr>buf_ring := buf_ring s1 @ [bid]\<rparr>)"

definition dispatch_cqe :: "protobuf \<Rightarrow> op_type \<Rightarrow> ctx_ptr option \<Rightarrow> int \<Rightarrow> provider \<Rightarrow> provider" where
  "dispatch_cqe pb op ctx result s =
     (case op of
        ACCEPT \<Rightarrow> handleAccept result s
      | RECV \<Rightarrow> (case ctx of Some p \<Rightarrow> handleRecv pb p result s | None \<Rightarrow> s\<lparr>ub := True\<rparr>)
      | SEND \<Rightarrow> (case ctx of Some p \<Rightarrow> handleSend p result s | None \<Rightarrow> s\<lparr>ub := True\<rparr>)
      | NOTIFY \<Rightarrow>
          (let s1 = handleNotify s; (ok, s2) = submitNotifyRead s1
           in if \<not> ok then s2\<lparr>m_notifyPending := True\<rparr> else s2))"

text \<open>One round of the inner loop, for the completion \<open>e\<close> that was just marked seen.\<close>

definition process_cqe :: "protobuf \<Rightarrow> cqe \<Rightarrow> provider \<Rightarrow> provider" where
  "process_cqe pb e s =
     (case c_ud e of
        UdCoro req \<Rightarrow> s\<lparr>coro_resumed := coro_resumed s @ [(req, c_res e, c_flags e)]\<rparr>
      | UdOp ctx op \<Rightarrow>
          let s1 = (case (op, cqe_buffer (c_flags e)) of
                      (RECV, Some bid) \<Rightarrow> return_buffer ctx (c_res e) bid s
                    | _ \<Rightarrow> s);
              (recycled, m) = onComplete ctx (mgr s1);
              s2 = s1\<lparr>mgr := m\<rparr>
          in if recycled then s2 else dispatch_cqe pb op ctx (c_res e) s2)"

text \<open>\<open>io_uring_submit_and_wait\<close> has flushed the queue; deferred submissions are retried.\<close>

definition flush_sq :: "provider \<Rightarrow> provider" where
  "flush_sq s = s\<lparr>inkernel := inkernel s @ sq s, sq := []\<rparr>"

definition retry_deferred :: "provider \<Rightarrow> provider" where
  "retry_deferred s =
     (let s1 = (if m_acceptPending s
                then (let (ok, s') = submitAccept s
                      in if ok then s'\<lparr>m_acceptPending := False\<rparr> else s')
                else s)
      in (if m_notifyPending s1
          then (let (ok, s') = submitNotifyRead s1
                in if ok then s'\<lparr>m_notifyPending := False\<rparr> else s')
          else s1))"

text \<open>The inner loop over the completions that are there, and one round of the outer loop.\<close>

fun drain_cq :: "protobuf \<Rightarrow> cqe list \<Rightarrow> provider \<Rightarrow> provider" where
  "drain_cq pb [] s = s"
| "drain_cq pb (e # es) s = drain_cq pb es (process_cqe pb e (s\<lparr>cq := es\<rparr>))"

definition event_loop_round :: "protobuf \<Rightarrow> int \<Rightarrow> cqe list \<Rightarrow> provider \<Rightarrow> provider" where
  "event_loop_round pb wait_ret arrived s =
     (if wait_ret < 0 then s
      else let s1 = retry_deferred (flush_sq s) in
           drain_cq pb (cq s1 @ arrived) (s1\<lparr>cq := cq s1 @ arrived\<rparr>))"

section \<open>Start\<close>

definition setupBufRing :: "provider \<Rightarrow> provider" where
  "setupBufRing s = s\<lparr>buf_ring := [0..<kBufRingEntries]\<rparr>"

definition provider_init :: "service_map \<Rightarrow> bool list \<Rightarrow> provider" where
  "provider_init sm answers =
     \<lparr>mgr = mgr_init, m_acceptPending = False, m_notifyPending = False, sqe_answers = answers,
      sq = [], inkernel = [], cq = [], buf_ring = [], m_bufBase = (\<lambda>_. []), m_serviceMap = sm,
      m_taskQueue = [], running = [], m_readyCoros = [], coro_resumed = [], ub = False\<rparr>"

text \<open>The part of \<open>Run\<close> after listening and registration; \<open>None\<close> is \<open>exit(EXIT_FAILURE)\<close>.\<close>

definition start_loop :: "provider \<Rightarrow> provider option" where
  "start_loop s =
     (let s1 = setupBufRing s; (ok1, s2) = submitAccept s1 in
      if \<not> ok1 then None
      else let (ok2, s3) = submitNotifyRead s2 in if \<not> ok2 then None else Some s3)"

end
