(* ===== verification/ReactorSteps.thy ===== *)
theory ReactorSteps
  imports UringProvider "HOL-Library.Multiset"
begin

text \<open>
  The running server as a step relation: the reactor handles one completion or submits its
  queue, the kernel completes a submitted operation, a worker thread takes a task or finishes
  one. Steps of different threads interleave freely; within the reactor thread a handler is one
  step, because only the reactor touches what it changes, and the queues shared with the workers
  (\<open>m_taskQueue\<close>, \<open>m_readyCoros\<close>) are used under their mutexes.

  What is asked of the kernel: a completion belongs to a submitted operation; \<open>accept\<close>
  returns a descriptor that is not open; \<open>send\<close> does not report more bytes than it was given;
  \<open>recv\<close> with a provided buffer takes one the ring holds and fills at most its size. What is
  asked of the business code: \<open>done\<close> runs once per call, in any worker, at any later time.
\<close>

section \<open>Outstanding operations\<close>

definition sqe_key :: "sqe \<Rightarrow> ctx_ptr option \<times> op_type" where
  "sqe_key e = (s_ctx e, s_op e)"

definition cqe_keys :: "cqe \<Rightarrow> (ctx_ptr option \<times> op_type) list" where
  "cqe_keys e = (case c_ud e of UdOp c op \<Rightarrow> [(c, op)] | UdCoro _ \<Rightarrow> [])"

text \<open>Every operation between its preparation and the handling of its completion.\<close>

definition ops :: "provider \<Rightarrow> (ctx_ptr option \<times> op_type) multiset" where
  "ops s = mset (map sqe_key (sq s @ inkernel s) @ concat (map cqe_keys (cq s)))"

definition complete :: "sqe \<Rightarrow> int \<Rightarrow> u32 \<Rightarrow> provider \<Rightarrow> provider" where
  "complete e res fl s =
     s\<lparr>inkernel := remove1 e (inkernel s),
       cq := cq s @ [\<lparr>c_ud = UdOp (s_ctx e) (s_op e), c_res = res, c_flags = fl\<rparr>]\<rparr>"

inductive provider_step :: "protobuf \<Rightarrow> provider \<Rightarrow> provider \<Rightarrow> bool" for pb where
  sqe_space: "provider_step pb s (s\<lparr>sqe_answers := as\<rparr>)"
| submit: "provider_step pb s (retry_deferred (flush_sq s))"
| reap: "cq s = e # es \<Longrightarrow> provider_step pb s (process_cqe pb e (s\<lparr>cq := es\<rparr>))"
| k_accept: "e \<in> set (inkernel s) \<Longrightarrow> s_op e = ACCEPT \<Longrightarrow>
    res < 0 \<or> m_active (mgr s) res = None \<Longrightarrow> provider_step pb s (complete e res fl s)"
| k_recv_buffer: "e \<in> set (inkernel s) \<Longrightarrow> s_op e = RECV \<Longrightarrow> bid \<in> set (buf_ring s) \<Longrightarrow>
    cqe_buffer fl = Some bid \<Longrightarrow> res \<le> int (length data) \<Longrightarrow> length data \<le> kBufSize \<Longrightarrow>
    provider_step pb s
      ((complete e res fl s)\<lparr>buf_ring := remove1 bid (buf_ring s),
                             m_bufBase := (m_bufBase s)(bid := data)\<rparr>)"
| k_recv_none: "e \<in> set (inkernel s) \<Longrightarrow> s_op e = RECV \<Longrightarrow> res \<le> 0 \<Longrightarrow> cqe_buffer fl = None \<Longrightarrow>
    provider_step pb s (complete e res fl s)"
| k_send: "e \<in> set (inkernel s) \<Longrightarrow> s_op e = SEND \<Longrightarrow> s_kind e = PrepSend fd data \<Longrightarrow>
    res \<le> int (length data) \<Longrightarrow> provider_step pb s (complete e res fl s)"
| k_notify: "e \<in> set (inkernel s) \<Longrightarrow> s_op e = NOTIFY \<Longrightarrow> provider_step pb s (complete e res fl s)"
| worker_take: "provider_step pb s (workerThread_take s)"
| worker_done: "t \<in> set (running s) \<Longrightarrow> provider_step pb s (onPoolDone t body s)"

definition provider_start :: "provider \<Rightarrow> bool" where
  "provider_start s \<longleftrightarrow> (\<exists>sm answers. start_loop (provider_init sm answers) = Some s)"

abbreviation provider_reach :: "protobuf \<Rightarrow> provider \<Rightarrow> bool" where
  "provider_reach pb \<equiv> reach provider_start (provider_step pb)"

section \<open>How the operations change the multiset of outstanding operations\<close>

lemma ops_set_ctx [simp]: "ops (set_ctx p f s) = ops s"
  and ops_push [simp]: "ops (push_sqe e s) = add_mset (sqe_key e) (ops s)"
  and ops_close [simp]: "ops (close_fd fd s) = ops s"
  and ops_mgr [simp]: "ops (s\<lparr>mgr := m\<rparr>) = ops s"
  and ops_answers [simp]: "ops (s\<lparr>sqe_answers := as\<rparr>) = ops s"
  by (simp_all add: ops_def set_ctx_def push_sqe_def close_fd_def)

lemma ops_fields [simp]:
  "ops (s\<lparr>m_acceptPending := b\<rparr>) = ops s" "ops (s\<lparr>m_notifyPending := b\<rparr>) = ops s"
  "ops (s\<lparr>buf_ring := r\<rparr>) = ops s" "ops (s\<lparr>m_bufBase := mem\<rparr>) = ops s"
  "ops (s\<lparr>m_taskQueue := ts\<rparr>) = ops s" "ops (s\<lparr>running := ts\<rparr>) = ops s"
  "ops (s\<lparr>m_readyCoros := hs\<rparr>) = ops s" "ops (s\<lparr>coro_resumed := l\<rparr>) = ops s"
  "ops (s\<lparr>ub := b\<rparr>) = ops s"
  by (simp_all add: ops_def)

lemma ops_get_sqe [simp]: "ops (snd (get_sqe s)) = ops s"
  by (simp add: get_sqe_def split: list.split)

lemma mgr_get_sqe [simp]: "mgr (snd (get_sqe s)) = mgr s"
  by (simp add: get_sqe_def split: list.split)

lemma mgr_push [simp]: "mgr (push_sqe e s) = mgr s"
  by (simp add: push_sqe_def)

lemma mgr_set_ctx [simp]: "mgr (set_ctx p f s) = upd_ctx p f (mgr s)"
  by (simp add: set_ctx_def)

lemma mgr_close_fd [simp]: "mgr (close_fd fd s) = close_conn fd (mgr s)"
  by (simp add: close_fd_def)

lemma ops_flush [simp]: "ops (flush_sq s) = ops s"
  by (simp add: ops_def flush_sq_def)

lemma ops_complete [simp]: "e \<in> set (inkernel s) \<Longrightarrow> ops (complete e res fl s) = ops s"
  by (simp add: ops_def complete_def cqe_keys_def sqe_key_def mset_map image_mset_Diff)

lemma ops_reap: "cq s = e # es \<Longrightarrow> ops s = mset (cqe_keys e) + ops (s\<lparr>cq := es\<rparr>)"
  by (simp add: ops_def)

end
