(* ===== verification/ReactorInv.thy ===== *)
theory ReactorInv
  imports ReactorSteps
begin

text \<open>
  The invariant that ties the connection contexts to the operations the kernel still owes:
  \<open>inflight\<close> counts them, an active connection has one receive unless its reading is paused
  and one send exactly when \<open>sending\<close> is set, and a closed context that waits for its
  operations waits for exactly one. While a handler runs, the operation it handles is
  \<open>held\<close>: already completed but still accounted for by the flags. The queue of a connection
  that sends is not empty, except while its send is held.
\<close>

section \<open>The invariant\<close>

definition out :: "provider \<Rightarrow> ctx_ptr \<Rightarrow> op_type \<Rightarrow> nat" where
  "out s p op = count (ops s) (Some p, op)"

definition held :: "(ctx_ptr \<times> op_type) set \<Rightarrow> ctx_ptr \<Rightarrow> op_type \<Rightarrow> nat" where
  "held X p op = (if (p, op) \<in> X then 1 else 0)"

definition conn_ok :: "(ctx_ptr \<times> op_type) set \<Rightarrow> provider \<Rightarrow> ctx_ptr \<Rightarrow> bool" where
  "conn_ok X s p \<longleftrightarrow>
     out s p RECV + held X p RECV = (if readPaused (ctx_of s p) then 0 else 1) \<and>
     out s p SEND + held X p SEND = (if sending (ctx_of s p) then 1 else 0) \<and>
     (\<forall>f\<in>set (outQueue (ctx_of s p)). f \<noteq> []) \<and>
     (if outQueue (ctx_of s p) = [] then written (ctx_of s p) = 0
      else sending (ctx_of s p) \<and> written (ctx_of s p) < length (hd (outQueue (ctx_of s p)))) \<and>
     (sending (ctx_of s p) \<and> held X p SEND = 0 \<longrightarrow> outQueue (ctx_of s p) \<noteq> [])"

definition counts_ok :: "provider \<Rightarrow> ctx_ptr \<Rightarrow> bool" where
  "counts_ok s p \<longleftrightarrow>
     inflight (ctx_of s p) = int (out s p RECV + out s p SEND) \<and>
     out s p ACCEPT = 0 \<and> out s p NOTIFY = 0"

definition J :: "(ctx_ptr \<times> op_type) set \<Rightarrow> provider \<Rightarrow> bool" where
  "J X s \<longleftrightarrow>
     mgr_ok (mgr s) \<and>
     (\<forall>p. \<not> p < m_nConns (mgr s) \<longrightarrow> (\<forall>op. out s p op = 0)) \<and>
     (\<forall>p<m_nConns (mgr s). counts_ok s p) \<and>
     (\<forall>fd p. m_active (mgr s) fd = Some p \<longrightarrow> conn_ok X s p) \<and>
     (\<forall>p<m_nConns (mgr s). p \<notin> set (m_idlePool (mgr s)) \<longrightarrow>
        m_active (mgr s) (cfd (ctx_of s p)) \<noteq> Some p \<longrightarrow> inflight (ctx_of s p) = 1)"

lemma JI:
  assumes "mgr_ok (mgr s)"
    and "\<And>p op. \<not> p < m_nConns (mgr s) \<Longrightarrow> out s p op = 0"
    and "\<And>p. p < m_nConns (mgr s) \<Longrightarrow> counts_ok s p"
    and "\<And>fd p. m_active (mgr s) fd = Some p \<Longrightarrow> conn_ok X s p"
    and "\<And>p. p < m_nConns (mgr s) \<Longrightarrow> p \<notin> set (m_idlePool (mgr s)) \<Longrightarrow>
           m_active (mgr s) (cfd (ctx_of s p)) \<noteq> Some p \<Longrightarrow> inflight (ctx_of s p) = 1"
  shows "J X s"
  using assms unfolding J_def by blast

lemma J_mgr: "J X s \<Longrightarrow> mgr_ok (mgr s)"
  and J_none: "J X s \<Longrightarrow> \<not> p < m_nConns (mgr s) \<Longrightarrow> out s p op = 0"
  and J_counts: "J X s \<Longrightarrow> p < m_nConns (mgr s) \<Longrightarrow> counts_ok s p"
  and J_conn: "J X s \<Longrightarrow> m_active (mgr s) fd = Some p \<Longrightarrow> conn_ok X s p"
  and J_drain: "J X s \<Longrightarrow> p < m_nConns (mgr s) \<Longrightarrow> p \<notin> set (m_idlePool (mgr s)) \<Longrightarrow>
           m_active (mgr s) (cfd (ctx_of s p)) \<noteq> Some p \<Longrightarrow> inflight (ctx_of s p) = 1"
  unfolding J_def by blast+

lemma J_active:
  assumes "J X s" and "m_active (mgr s) fd = Some p"
  shows "p < m_nConns (mgr s)" "cfd (ctx_of s p) = fd" "\<not> closing (ctx_of s p)"
    "p \<notin> set (m_idlePool (mgr s))"
  using mgr_okD [OF J_mgr [OF assms(1)] assms(2)] by auto

text \<open>An outstanding operation of a connection keeps its context out of the pool.\<close>

lemma J_out_not_idle:
  assumes "J X s" and "out s p op \<noteq> 0"
  shows "p < m_nConns (mgr s)" "p \<notin> set (m_idlePool (mgr s))" "op = RECV \<or> op = SEND"
proof -
  show p: "p < m_nConns (mgr s)" by (rule ccontr) (use J_none [OF assms(1), of p op] assms(2) in simp)
  have c: "counts_ok s p" using J_counts [OF assms(1) p] .
  then show op: "op = RECV \<or> op = SEND"
    using assms(2) by (cases op) (auto simp: counts_ok_def)
  have "inflight (ctx_of s p) \<noteq> 0"
    using c op assms(2) by (elim disjE) (simp_all add: counts_ok_def)
  then show "p \<notin> set (m_idlePool (mgr s))"
    using mgr_ok_idle [OF J_mgr [OF assms(1)], of p] by blast
qed

section \<open>Changes that do not matter, changes of one connection\<close>

text \<open>The invariant reads these fields of a context only.\<close>

definition view :: "conn_ctx \<Rightarrow> int \<times> bool \<times> int \<times> bool \<times> bool \<times> bytes list \<times> nat" where
  "view c = (cfd c, closing c, inflight c, readPaused c, sending c, outQueue c, written c)"

lemma J_local:
  assumes J: "J X s" and act: "m_active (mgr s) fd = Some p"
    and mgr': "mgr s' = upd_ctx p f (mgr s)"
    and keep: "cfd (f (ctx_of s p)) = cfd (ctx_of s p)" "closing (f (ctx_of s p)) = closing (ctx_of s p)"
    and others: "\<And>q op. q \<noteq> p \<Longrightarrow> out s' q op = out s q op"
      "\<And>q op. q \<noteq> p \<Longrightarrow> held X' q op = held X q op"
    and here: "counts_ok s' p" "conn_ok X' s' p"
  shows "J X' s'"
proof (rule JI, unfold mgr', goal_cases)
  note a = J_active [OF J act]
  have infl: "0 \<le> inflight (f (ctx_of s p))"
    using here(1) by (simp add: counts_ok_def mgr')
  case 1
  show ?case
    using J_mgr [OF J] a(1,4) keep infl a(3) by (intro mgr_ok_upd) auto
next
  case (2 q op)
  then show ?case using J_none [OF J, of q op] J_active(1) [OF J act] others(1) [of q op] by auto
next
  case (3 q)
  then show ?case using J_counts [OF J, of q] here(1) others(1) [of q]
    by (cases "q = p") (auto simp: counts_ok_def mgr')
next
  case (4 fd' q)
  show ?case
  proof (cases "q = p")
    case False
    have "ctx_of s' q = ctx_of s q" using False by (simp add: mgr')
    then have "conn_ok X' s' q = conn_ok X s q"
      by (simp only: conn_ok_def others [OF False])
    with 4 J_conn [OF J, of fd' q] show ?thesis by simp
  qed (use here(2) in simp)
next
  case (5 q)
  then show ?case using J_drain [OF J, of q] act keep J_active(2) [OF J act]
    by (cases "q = p") auto
qed

lemma J_cong:
  assumes J: "J X s"
    and m: "m_active (mgr s') = m_active (mgr s)" "m_nConns (mgr s') = m_nConns (mgr s)"
      "m_idlePool (mgr s') = m_idlePool (mgr s)"
    and core: "\<And>p. cfd (ctx_of s' p) = cfd (ctx_of s p)"
      "\<And>p. closing (ctx_of s' p) = closing (ctx_of s p)"
      "\<And>p. inflight (ctx_of s' p) = inflight (ctx_of s p)"
    and live: "\<And>fd p. m_active (mgr s) fd = Some p \<Longrightarrow> view (ctx_of s' p) = view (ctx_of s p)"
    and o: "\<And>p op. out s' p op = out s p op"
  shows "J X s'"
proof -
  have counts: "counts_ok s' p = counts_ok s p" for p
    by (simp add: counts_ok_def core o)
  have conn: "m_active (mgr s) fd = Some p \<Longrightarrow> conn_ok X s' p = conn_ok X s p" for fd p
    using live [of fd p] by (simp add: conn_ok_def o view_def)
  have "mgr_ok (mgr s')" using J_mgr [OF J] by (simp add: mgr_ok_def m core)
  then show ?thesis
    using J conn unfolding J_def m o counts core by blast
qed

text \<open>Instances: other components of the state, and fields of one context the invariant ignores.\<close>

lemma J_same_mgr: "J X s \<Longrightarrow> mgr s' = mgr s \<Longrightarrow> (\<And>p op. out s' p op = out s p op) \<Longrightarrow> J X s'"
  by (rule J_cong) simp_all

lemma J_set_ctx_view: "J X s \<Longrightarrow> (\<And>c. view (f c) = view c) \<Longrightarrow> J X (set_ctx p f s)"
  by (rule J_cong) (auto simp: view_def out_def)

lemma J_close:
  assumes J: "J X s" and act: "m_active (mgr s) fd = Some p"
    and few: "inflight (ctx_of s p) \<le> 1"
    and X: "\<And>q op. q \<noteq> p \<Longrightarrow> held X q op = 0"
  shows "J {} (close_fd fd s)"
proof -
  note a = J_active [OF J act] and ok = J_mgr [OF J]
  have out: "out (close_fd fd s) q op = out s q op" for q op by (simp add: out_def)
  have ctx: "m_allConns (close_conn fd (mgr s)) q =
      (if q = p then (ctx_of s p)\<lparr>closing := True\<rparr> else ctx_of s q)" for q
    using act by (simp add: close_conn_def recycle_def Let_def)
  have pool: "set (m_idlePool (close_conn fd (mgr s))) =
      (if inflight (ctx_of s p) = 0 then insert p (set (m_idlePool (mgr s))) else set (m_idlePool (mgr s)))"
    using conns.pool_cls [OF ok act] by simp
  show ?thesis
  proof (rule JI, goal_cases)
    case 1
    then show ?case using mgr_ok_close [OF ok] by simp
  next
    case (2 q op)
    then show ?case using J_none [OF J] by (simp add: out close_simps)
  next
    case (3 q)
    then show ?case using J_counts [OF J, of q] by (auto simp: counts_ok_def out ctx close_simps)
  next
    case (4 fd' q)
    then have "m_active (mgr s) fd' = Some q" "fd' \<noteq> fd" by (simp_all add: close_simps split: if_splits)
    moreover from this have "q \<noteq> p" using mgr_ok_inj [OF ok act] by blast
    ultimately show ?case
      using J_conn [OF J, of fd' q] X [of q] by (simp add: conn_ok_def out ctx held_def)
  next
    case (5 q)
    show ?case
    proof (cases "q = p")
      case True
      with 5 few mgr_ok_nonneg [OF ok a(1)] show ?thesis by (auto simp: ctx pool split: if_splits)
    next
      case False
      with 5 act have "q \<notin> set (m_idlePool (mgr s))" "m_active (mgr s) (cfd (ctx_of s q)) \<noteq> Some q"
        by (auto simp: ctx pool close_simps split: if_splits)
      with 5 J_drain [OF J, of q] False show ?thesis by (simp add: ctx close_simps)
    qed
  qed
qed

text \<open>A handler that holds an operation of a connection may close it.\<close>

lemma J_close_held:
  assumes "J X s" and "m_active (mgr s) fd = Some p" and "(p, op) \<in> X" and "X \<subseteq> {p} \<times> {RECV, SEND}"
  shows "J {} (close_fd fd s)"
proof (rule J_close [OF assms(1,2)])
  have "op = RECV \<or> op = SEND" using assms(3,4) by auto
  then show "inflight (ctx_of s p) \<le> 1"
    using J_counts [OF assms(1) J_active(1) [OF assms(1,2)]] J_conn [OF assms(1,2)] assms(3)
    by (auto simp: counts_ok_def conn_ok_def held_def split: if_splits)
qed (use assms(4) in \<open>auto simp: held_def\<close>)

lemma J_close_not_sending:
  assumes "J {} s" and "m_active (mgr s) fd = Some p" and "\<not> sending (ctx_of s p)"
  shows "J {} (close_fd fd s)"
proof (rule J_close [OF assms(1,2)])
  show "inflight (ctx_of s p) \<le> 1"
    using J_counts [OF assms(1) J_active(1) [OF assms(1,2)]] J_conn [OF assms(1,2)] assms(3)
    by (auto simp: counts_ok_def conn_ok_def held_def split: if_splits)
qed (simp add: held_def)

section \<open>The submissions\<close>

lemma get_sqe_cases:
  obtains as where "get_sqe s = (False, s\<lparr>sqe_answers := as\<rparr>)"
  | as where "get_sqe s = (True, s\<lparr>sqe_answers := as\<rparr>)"
proof (cases "sqe_answers s")
  case Nil
  then have "get_sqe s = (False, s\<lparr>sqe_answers := []\<rparr>)" by (simp add: get_sqe_def)
  then show thesis by (rule that(1))
next
  case (Cons a as)
  then have "get_sqe s = (a, s\<lparr>sqe_answers := as\<rparr>)" by (simp add: get_sqe_def)
  then show thesis using that by (cases a) auto
qed

lemma J_answers: "J X s \<Longrightarrow> J X (s\<lparr>sqe_answers := as\<rparr>)"
  by (erule J_same_mgr) (simp_all add: out_def)

lemma submitRecv_fail:
  "submitRecv fd s = (False, s') \<Longrightarrow> J X s \<Longrightarrow> J X s' \<and> mgr s' = mgr s \<and> ub s' = ub s"
  by (cases s rule: get_sqe_cases)
    (auto simp: submitRecv_def J_answers Let_def split: option.splits prod.splits)

lemma submitRecv_ok:
  assumes "submitRecv fd s = (True, s')"
  obtains p where "m_active (mgr s) fd = Some p" "mgr s' = onSubmit p (mgr s)"
    "ops s' = add_mset (Some p, RECV) (ops s)" "ub s' = ub s"
    "input (ctx_of s' p) = input (ctx_of s p)"
proof -
  from assms obtain p where p: "m_active (mgr s) fd = Some p"
    by (auto simp: submitRecv_def find_conn_def split: option.splits)
  from assms p obtain as where "get_sqe s = (True, s\<lparr>sqe_answers := as\<rparr>)"
    by (cases s rule: get_sqe_cases) (auto simp: submitRecv_def find_conn_def)
  with assms p have s': "s' = (push_sqe \<lparr>s_kind = PrepRecv fd, s_ctx = Some p, s_op = RECV\<rparr>
      (s\<lparr>sqe_answers := as\<rparr>))\<lparr>mgr := onSubmit p (mgr s)\<rparr>"
    by (auto simp: submitRecv_def find_conn_def Let_def push_sqe_def)
  show thesis
  proof (rule that [OF p])
    show "ops s' = add_mset (Some p, RECV) (ops s)" by (simp add: s' sqe_key_def)
  qed (simp_all add: s' onSubmit_def push_sqe_def)
qed

lemma J_submitRecv:
  assumes "submitRecv fd s = (True, s')" and J: "J X s" and act: "m_active (mgr s) fd = Some p"
    and rcv: "(p, RECV) \<in> X"
  shows "J (X - {(p, RECV)}) s'"
proof -
  from assms(1) obtain q where q: "m_active (mgr s) fd = Some q" "mgr s' = onSubmit q (mgr s)"
    "ops s' = add_mset (Some q, RECV) (ops s)" by (rule submitRecv_ok)
  with act have [simp]: "q = p" by simp
  have o: "out s' r op = out s r op + (if r = p \<and> op = RECV then 1 else 0)" for r op
    by (simp add: out_def q(3))
  have c: "counts_ok s p" "conn_ok X s p" using J_counts [OF J] J_conn [OF J act] J_active(1) [OF J act] by auto
  show ?thesis
  proof (rule J_local [OF J act, where f = "\<lambda>c. c\<lparr>inflight := inflight c + 1\<rparr>"], goal_cases)
    case 1 show ?case using q(2) by (simp add: onSubmit_def)
  next
    case 6 show ?case using c(1) q(2) by (simp add: counts_ok_def o onSubmit_def)
  next
    case 7 show ?case using c(2) q(2) rcv
      by (auto simp: conn_ok_def o onSubmit_def held_def split: if_splits)
  qed (auto simp: o held_def)
qed


lemma submitSend_fail:
  "submitSend fd s = (False, s') \<Longrightarrow> mgr s' = mgr s \<and> ub s' = ub s \<and> ops s' = ops s"
  by (cases s rule: get_sqe_cases)
    (auto simp: submitSend_def Let_def split: option.splits prod.splits list.splits)

lemma submitSend_ok:
  assumes "submitSend fd s = (True, s')" and p: "m_active (mgr s) fd = Some p"
    and queue: "outQueue (ctx_of s p) \<noteq> []"
  shows "mgr s' = upd_ctx p (\<lambda>c. c\<lparr>inflight := inflight c + 1, sending := True\<rparr>) (mgr s)"
    and "ops s' = add_mset (Some p, SEND) (ops s)" and "ub s' = ub s"
proof -
  obtain front q where f: "outQueue (ctx_of s p) = front # q" using queue by (cases "outQueue (ctx_of s p)") auto
  from assms(1) p f obtain as where "get_sqe s = (True, s\<lparr>sqe_answers := as\<rparr>)"
    by (cases s rule: get_sqe_cases) (auto simp: submitSend_def find_conn_def)
  with assms(1) p f have s': "s' = set_ctx p (\<lambda>c. c\<lparr>sending := True\<rparr>)
      ((push_sqe \<lparr>s_kind = PrepSend fd (drop (written (ctx_of s p)) front), s_ctx = Some p, s_op = SEND\<rparr>
         (s\<lparr>sqe_answers := as\<rparr>))\<lparr>mgr := onSubmit p (mgr s)\<rparr>)"
    by (auto simp: submitSend_def find_conn_def Let_def push_sqe_def)
  show "mgr s' = upd_ctx p (\<lambda>c. c\<lparr>inflight := inflight c + 1, sending := True\<rparr>) (mgr s)"
    by (simp add: s' onSubmit_def)
  show "ops s' = add_mset (Some p, SEND) (ops s)" by (simp add: s' sqe_key_def)
  show "ub s' = ub s" by (simp add: s' set_ctx_def push_sqe_def)
qed

text \<open>
  A send is submitted from a state that, were \<open>sending\<close> already set by \<open>f\<close> and the send
  held, would satisfy the invariant.
\<close>

lemma J_submitSend:
  assumes "submitSend fd s' = (True, s'')" and J: "J X s" and act: "m_active (mgr s) fd = Some p"
    and s': "mgr s' = upd_ctx p f (mgr s)" "\<And>q op. out s' q op = out s q op"
    and f: "cfd (f (ctx_of s p)) = cfd (ctx_of s p)" "closing (f (ctx_of s p)) = closing (ctx_of s p)"
      "inflight (f (ctx_of s p)) = inflight (ctx_of s p)"
      "readPaused (f (ctx_of s p)) = readPaused (ctx_of s p)"
    and idle: "out s p SEND = 0"
    and queue: "outQueue (f (ctx_of s p)) \<noteq> []" "\<forall>x\<in>set (outQueue (f (ctx_of s p))). x \<noteq> []"
      "written (f (ctx_of s p)) < length (hd (outQueue (f (ctx_of s p))))"
  shows "J (X - {(p, SEND)}) s''"
proof -
  have act': "m_active (mgr s') fd = Some p" and q': "outQueue (ctx_of s' p) \<noteq> []"
    using act queue(1) by (simp_all add: s'(1))
  note ok = submitSend_ok [OF assms(1) act' q']
  have o: "out s'' r op = out s r op + (if r = p \<and> op = SEND then 1 else 0)" for r op
    using s'(2) [of r op] by (auto simp: out_def ok(2))
  have c: "counts_ok s p" "conn_ok X s p" using J_counts [OF J] J_conn [OF J act] J_active(1) [OF J act] by auto
  show ?thesis
  proof (rule J_local [OF J act, where f = "\<lambda>c. (f c)\<lparr>inflight := inflight (f c) + 1, sending := True\<rparr>"],
      goal_cases)
    case 1 show ?case by (simp add: ok(1) s'(1))
  next
    case 6 show ?case using c(1) by (simp add: counts_ok_def o ok(1) s'(1) f)
  next
    case 7 show ?case using c(2) queue idle
      by (auto simp: conn_ok_def o ok(1) s'(1) f held_def split: if_splits)
  qed (auto simp: o held_def f)
qed

end
