(* ===== verification/ReactorSafety.thy ===== *)
theory ReactorSafety
  imports ReactorInv
begin

text \<open>
  Every handler and every step keeps the invariant of theory ReactorInv, and none of them
  runs into undefined behaviour.
\<close>

section \<open>Delivering responses\<close>

lemma J_deliverResponse:
  assumes J: "J {} s" and data: "data \<noteq> []"
  shows "J {} (deliverResponse fd cid data s) \<and> ub (deliverResponse fd cid data s) = ub s"
proof (cases "find_conn fd (mgr s)")
  case None
  then show ?thesis using J by (simp add: deliverResponse_def)
next
  case (Some p)
  then have act: "m_active (mgr s) fd = Some p" by (simp add: find_conn_def)
  note c = J_conn [OF J act] and n = J_counts [OF J J_active(1) [OF J act]]
  let ?push = "\<lambda>c. c\<lparr>outQueue := outQueue c @ [data]\<rparr>"
  let ?s1 = "set_ctx p ?push s"
  show ?thesis
  proof (cases "connId (ctx_of s p) = cid")
    case False
    then show ?thesis using Some J by (simp add: deliverResponse_def)
  next
    case True
    show ?thesis
    proof (cases "sending (ctx_of s p)")
      case sending: True
      then have "deliverResponse fd cid data s = ?s1"
        using Some True by (simp add: deliverResponse_def Let_def)
      moreover have "J {} ?s1"
      proof (rule J_local [OF J act, where f = ?push], goal_cases)
        case 6 show ?case using n by (simp add: counts_ok_def out_def)
      next
        case 7 show ?case using c sending data
          by (cases "outQueue (ctx_of s p)") (auto simp: conn_ok_def out_def)
      qed (simp_all add: out_def)
      ultimately show ?thesis by (simp add: set_ctx_def)
    next
      case False
      then have empty: "outQueue (ctx_of s p) = []" "written (ctx_of s p) = 0" "out s p SEND = 0"
        using c by (auto simp: conn_ok_def held_def split: if_splits)
      obtain ok s2 where s2: "submitSend fd ?s1 = (ok, s2)" by fastforce
      then have d: "deliverResponse fd cid data s = (if ok then s2 else close_fd fd s2)"
        using Some True False by (simp add: deliverResponse_def Let_def)
      show ?thesis
      proof (cases ok)
        case True
        have "J ({} - {(p, SEND)}) s2"
          by (rule J_submitSend [OF _ J act, where f = ?push and s' = ?s1])
            (use s2 True data empty in \<open>auto simp: out_def\<close>)
        moreover have "ub s2 = ub s"
          using submitSend_ok(3) [of fd ?s1 s2 p] s2 True act by (simp add: set_ctx_def)
        ultimately show ?thesis using d True by simp
      next
        case no: False
        have f: "mgr s2 = upd_ctx p ?push (mgr s)" "ub s2 = ub s" "ops s2 = ops s"
          using submitSend_fail [of fd ?s1 s2] s2 no by (simp_all add: set_ctx_def)
        have "J {} (close_fd fd s2)"
        proof (rule J_cong [OF J_close_not_sending [OF J act False]], goal_cases)
          case (7 fd' q)
          then show ?case using mgr_ok_inj [OF J_mgr [OF J] act, of fd'] act
            by (auto simp: close_simps f(1) close_conn_def recycle_def Let_def split: if_splits)
        qed (use act in \<open>auto simp: f close_conn_def recycle_def Let_def out_def\<close>)
        then show ?thesis using d no f(2) by (simp add: close_fd_def)
      qed
    qed
  qed
qed

lemma J_resume:
  "J {} s \<Longrightarrow> J {} (resume_handleRpc h s) \<and> ub (resume_handleRpc h s) = ub s"
  by (auto simp: resume_handleRpc_def J_deliverResponse split: prod.splits)

lemma J_resume_all:
  "J {} s \<Longrightarrow> J {} (foldl (\<lambda>s h. resume_handleRpc h s) s hs) \<and>
     ub (foldl (\<lambda>s h. resume_handleRpc h s) s hs) = ub s"
proof (induction hs arbitrary: s)
  case (Cons h hs)
  from J_resume [OF Cons.prems, of h] Cons.IH [of "resume_handleRpc h s"] show ?case by simp
qed simp

lemma J_handleNotify: "J {} s \<Longrightarrow> J {} (handleNotify s) \<and> ub (handleNotify s) = ub s"
  using J_resume_all [of "s\<lparr>m_readyCoros := []\<rparr>" "m_readyCoros s"]
  by (simp add: handleNotify_def Let_def J_same_mgr out_def)

section \<open>Receiving\<close>

text \<open>Closing a connection in a handler that holds its receive.\<close>

lemma J_close_recv:
  "J {(p, RECV)} s \<Longrightarrow> m_active (mgr s) fd = Some p \<Longrightarrow> J {} (close_fd fd s)"
  by (rule J_close_held [where op = RECV]) auto

lemma rearm_recv:
  assumes J: "J {(p, RECV)} s" and act: "m_active (mgr s) fd = Some p"
    and r: "submitRecv fd s = (ok, s')"
  shows "J {} (if ok then s' else close_fd fd s')"
proof (cases ok)
  case True
  then show ?thesis using J_submitRecv [OF _ J act, of s'] r by simp
next
  case False
  then show ?thesis
    using submitRecv_fail [of fd s s' "{(p, RECV)}"] r J act J_close_recv [of p s' fd] by simp
qed

lemma submitRecv_ub: "submitRecv fd s = (ok, s') \<Longrightarrow> ub s' = ub s"
  by (cases s rule: get_sqe_cases)
    (auto simp: submitRecv_def Let_def push_sqe_def split: option.splits prod.splits if_splits)

lemma submitRecv_active: "submitRecv fd s = (ok, s') \<Longrightarrow> m_active (mgr s') = m_active (mgr s)"
  by (cases s rule: get_sqe_cases)
    (auto simp: submitRecv_def Let_def push_sqe_def onSubmit_def split: option.splits prod.splits if_splits)

lemma close_fd_ub [simp]: "ub (close_fd fd s) = ub s"
  by (simp add: close_fd_def)

lemma tryHandleRequest_J:
  assumes "tryHandleRequest pb fd p s = (again, s')"
    and J: "J {(p, RECV)} s" and act: "m_active (mgr s) fd = Some p"
  shows "ub s' = ub s \<and>
    (m_active (mgr s') fd = Some p \<and> J {(p, RECV)} s' \<or>
     again \<and> m_active (mgr s') fd = None \<and> J {} s')"
proof (cases "uring_take pb (m_serviceMap s) (input (ctx_of s p))")
  case None
  then show ?thesis using assms by (simp add: tryHandleRequest_def)
next
  case (Some ir)
  obtain item rest where ir: "ir = (item, rest)" by fastforce
  let ?s1 = "set_ctx p (\<lambda>c. c\<lparr>input := rest\<rparr>) s"
  have J1: "J {(p, RECV)} ?s1" using J by (rule J_set_ctx_view) (simp add: view_def)
  show ?thesis
  proof (cases item)
    case (Reject r)
    then have "again" "s' = close_fd fd ?s1"
      using assms(1) Some ir by (simp_all add: tryHandleRequest_def Let_def)
    then show ?thesis using J_close_recv [OF J1] act by (simp add: close_simps set_ctx_def)
  next
    case (Request rq)
    let ?s2 = "set_ctx p (\<lambda>c. c\<lparr>pendingReqs := pendingReqs c + 1\<rparr>) ?s1"
    have J2: "J {(p, RECV)} ?s2" using J1 by (rule J_set_ctx_view) (simp add: view_def)
    have "s' = handleRpc fd (connId (ctx_of ?s2 p)) rq ?s2"
      using assms(1) Some ir Request by (simp add: tryHandleRequest_def Let_def)
    then have "m_active (mgr s') fd = Some p" "J {(p, RECV)} s'" "ub s' = ub s"
      using J_same_mgr [OF J2] act by (simp_all add: handleRpc_def submitTask_def out_def set_ctx_def)
    then show ?thesis by blast
  qed
qed

lemma handle_requests_J:
  "handle_requests pb fd p s = (normal, s') \<Longrightarrow> J {(p, RECV)} s \<Longrightarrow> m_active (mgr s) fd = Some p \<Longrightarrow>
     ub s' = ub s \<and>
     (if normal then m_active (mgr s') fd = Some p \<and> J {(p, RECV)} s' else J {} s')"
proof (induction pb fd p s arbitrary: normal s' rule: handle_requests.induct)
  case (1 pb fd p s)
  obtain again s1 where t: "tryHandleRequest pb fd p s = (again, s1)" by fastforce
  note T = tryHandleRequest_J [OF t 1(3,4)]
  show ?case
  proof (cases "again \<and> find_conn fd (mgr s1) \<noteq> None")
    case True
    then have "handle_requests pb fd p s1 = (normal, s')"
      using 1(2) t by (auto simp: handle_requests.simps [of pb fd p s])
    moreover have s1: "m_active (mgr s1) fd = Some p" "J {(p, RECV)} s1" "ub s1 = ub s"
      using T True by (auto simp: find_conn_def)
    ultimately have "ub s' = ub s1 \<and>
        (if normal then m_active (mgr s') fd = Some p \<and> J {(p, RECV)} s' else J {} s')"
      using True by (intro 1(1) [OF refl t [symmetric]]) simp_all
    then show ?thesis using s1(3) by simp
  next
    case False
    then have "handle_requests pb fd p s = (\<not> again, s1)"
      by (subst handle_requests.simps) (simp add: t)
    then have "normal = (\<not> again)" "s' = s1" using 1(2) by simp_all
    then show ?thesis using T False by (auto simp: find_conn_def)
  qed
qed

lemma J_pause:
  assumes "J {(p, RECV)} s" and act: "m_active (mgr s) fd = Some p"
  shows "J {} (set_ctx p (\<lambda>c. c\<lparr>readPaused := True\<rparr>) s)"
proof (rule J_local [OF assms, where f = "\<lambda>c. c\<lparr>readPaused := True\<rparr>"], goal_cases)
  case 6
  show ?case using J_counts [OF assms(1) J_active(1) [OF assms]] by (simp add: counts_ok_def out_def)
next
  case 7
  show ?case using J_conn [OF assms]
    by (auto simp: conn_ok_def out_def held_def split: if_splits)
qed (simp_all add: out_def held_def)

lemma J_handleRecv:
  assumes J: "J {(p, RECV)} s" and act: "m_active (mgr s) fd = Some p"
  shows "J {} (handleRecv pb p result s) \<and> ub (handleRecv pb p result s) = ub s"
proof -
  have fd: "cfd (ctx_of s p) = fd" and open_: "\<not> closing (ctx_of s p)"
    using J_active [OF J act] by auto
  consider "result = - ENOBUFS" "result \<le> 0" | "result \<noteq> - ENOBUFS" "result \<le> 0" | "0 < result" by force
  then show ?thesis
  proof cases
    case 1
    obtain ok s1 where r: "submitRecv fd s = (ok, s1)" by fastforce
    with 1 have "handleRecv pb p result s = (if ok then s1 else close_fd fd s1)"
      by (simp add: handleRecv_def fd open_ Let_def)
    then show ?thesis using rearm_recv [OF J act r] submitRecv_ub [OF r] by simp
  next
    case 2
    then show ?thesis using J_close_recv [OF J act] by (simp add: handleRecv_def fd open_ Let_def)
  next
    case 3
    obtain normal s1 where h: "handle_requests pb fd p s = (normal, s1)" by fastforce
    note H = handle_requests_J [OF h J act]
    obtain ok s2 where r: "submitRecv fd s1 = (ok, s2)" by fastforce
    from 3 h r have "handleRecv pb p result s =
        (if \<not> normal then s1
         else if kMaxInflightPerConn \<le> pendingReqs (ctx_of s1 p)
         then set_ctx p (\<lambda>c. c\<lparr>readPaused := True\<rparr>) s1
         else if ok then s2 else close_fd fd s2)"
      by (simp add: handleRecv_def fd open_ Let_def)
    moreover have "normal \<Longrightarrow> J {} (if ok then s2 else close_fd fd s2)"
      using H rearm_recv [OF _ _ r, of p] by presburger
    moreover have "normal \<Longrightarrow> J {} (set_ctx p (\<lambda>c. c\<lparr>readPaused := True\<rparr>) s1)"
      using H J_pause [of p s1 fd] by simp
    ultimately show ?thesis using H submitRecv_ub [OF r] by (simp add: set_ctx_def)
  qed
qed


section \<open>Sending\<close>

lemma J_close_send:
  "J {(p, SEND)} s \<Longrightarrow> m_active (mgr s) fd = Some p \<Longrightarrow> J {} (close_fd fd s)"
  by (rule J_close_held [where op = SEND]) auto

lemma J_wrote:
  assumes J: "J {(p, SEND)} s" and act: "m_active (mgr s) fd = Some p"
    and queue: "outQueue (ctx_of s p) = front # q" and w: "written (ctx_of s p) + n < length front"
  shows "J {(p, SEND)} (set_ctx p (\<lambda>c. c\<lparr>written := written c + n\<rparr>) s)"
proof (rule J_local [OF J act, where f = "\<lambda>c. c\<lparr>written := written c + n\<rparr>"], goal_cases)
  case 6
  show ?case using J_counts [OF J J_active(1) [OF J act]] by (simp add: counts_ok_def out_def)
next
  case 7
  show ?case using J_conn [OF J act] queue w by (auto simp: conn_ok_def out_def)
qed (simp_all add: out_def)

lemma J_popped:
  assumes J: "J {(p, SEND)} s" and act: "m_active (mgr s) fd = Some p"
    and s': "mgr s' = upd_ctx p f (mgr s)" "ops s' = ops s"
    and f: "\<And>c. view (f c) = (cfd c, closing c, inflight c, readPaused c, sending c, tl (outQueue c), 0)"
  shows "J {(p, SEND)} s'"
proof (rule J_local [OF J act, where f = f], goal_cases)
  case 6
  show ?case using J_counts [OF J J_active(1) [OF J act]] f [of "ctx_of s p"]
    by (simp add: counts_ok_def out_def s' view_def)
next
  case 7
  have "sending (ctx_of s p)" "\<forall>x\<in>set (outQueue (ctx_of s p)). x \<noteq> []"
    using J_conn [OF J act] by (auto simp: conn_ok_def held_def split: if_splits)
  then show ?case using J_conn [OF J act] f [of "ctx_of s p"]
    by (cases "outQueue (ctx_of s p)"; cases "tl (outQueue (ctx_of s p))")
      (auto simp: conn_ok_def out_def s' view_def held_def)
qed (use f [of "ctx_of s p"] in \<open>simp_all add: out_def s' view_def\<close>)

lemma J_resume_reading:
  assumes J: "J {(p, SEND)} s" and act: "m_active (mgr s) fd = Some p"
    and paused: "readPaused (ctx_of s p)"
  shows "J {(p, SEND), (p, RECV)} (set_ctx p (\<lambda>c. c\<lparr>readPaused := False\<rparr>) s)"
proof (rule J_local [OF J act, where f = "\<lambda>c. c\<lparr>readPaused := False\<rparr>"], goal_cases)
  case 6
  show ?case using J_counts [OF J J_active(1) [OF J act]] by (simp add: counts_ok_def out_def)
next
  case 7
  show ?case using J_conn [OF J act] paused by (auto simp: conn_ok_def out_def held_def)
qed (auto simp: out_def held_def)

lemma J_stop_sending:
  assumes J: "J {(p, SEND)} s" and act: "m_active (mgr s) fd = Some p"
    and empty: "outQueue (ctx_of s p) = []"
  shows "J {} (set_ctx p (\<lambda>c. c\<lparr>sending := False\<rparr>) s)"
proof (rule J_local [OF J act, where f = "\<lambda>c. c\<lparr>sending := False\<rparr>"], goal_cases)
  case 6
  show ?case using J_counts [OF J J_active(1) [OF J act]] by (simp add: counts_ok_def out_def)
next
  case 7
  show ?case using J_conn [OF J act] empty
    by (auto simp: conn_ok_def out_def held_def split: if_splits)
qed (auto simp: out_def held_def)

lemma J_send_next:
  assumes J: "J {(p, SEND)} s" and act: "m_active (mgr s) fd = Some p"
    and more: "outQueue (ctx_of s p) \<noteq> []" and r: "submitSend fd s = (ok, s')"
  shows "J {} (if ok then s' else close_fd fd s') \<and> ub s' = ub s"
proof (cases ok)
  case True
  have c: "out s p SEND = 0" "\<forall>x\<in>set (outQueue (ctx_of s p)). x \<noteq> []"
    "written (ctx_of s p) < length (hd (outQueue (ctx_of s p)))"
    using J_conn [OF J act] more by (auto simp: conn_ok_def held_def split: if_splits)
  have "J ({(p, SEND)} - {(p, SEND)}) s'"
    by (rule J_submitSend [OF _ J act, where f = "\<lambda>c. c" and s' = s]) (use r True c more in simp_all)
  then show ?thesis using True submitSend_ok(3) [OF _ act more] r by simp
next
  case False
  then have "mgr s' = mgr s" "ub s' = ub s" "ops s' = ops s"
    using submitSend_fail [of fd s s'] r by simp_all
  moreover from this have "J {(p, SEND)} s'" using J by (intro J_same_mgr [OF J]) (simp_all add: out_def)
  ultimately show ?thesis using False J_close_send act by simp
qed

lemma finish_response_J:
  assumes r: "finish_response fd p s1 = (go_on, s2)"
    and s1: "s1 = set_ctx p (\<lambda>c. c\<lparr>written := w c\<rparr>) s"
    and J: "J {(p, SEND)} s" and act: "m_active (mgr s) fd = Some p"
  shows "ub s2 = ub s \<and>
    (if go_on then m_active (mgr s2) fd = Some p \<and> J {(p, SEND)} s2 else J {} s2)"
proof -
  let ?pop = "set_ctx p (\<lambda>c. c\<lparr>outQueue := tl (outQueue c), written := 0,
                             pendingReqs := pendingReqs c - 1\<rparr>) s1"
  let ?resume = "set_ctx p (\<lambda>c. c\<lparr>readPaused := False\<rparr>) ?pop"
  have Jpop: "J {(p, SEND)} ?pop"
    by (rule J_popped [OF J act, where f = "\<lambda>c. c\<lparr>outQueue := tl (outQueue c), written := 0,
          pendingReqs := pendingReqs c - 1\<rparr>"]) (simp_all add: s1 view_def)
  have apop: "m_active (mgr ?pop) fd = Some p" "ub ?pop = ub s" using act by (simp_all add: s1 set_ctx_def)
  show ?thesis
  proof (cases "readPaused (ctx_of ?pop p) \<and> pendingReqs (ctx_of ?pop p) < kMaxInflightPerConn")
    case False
    then have "go_on" "s2 = ?pop" using r unfolding finish_response_def Let_def by (auto split: if_splits)
    then show ?thesis using Jpop apop by simp
  next
    case True
    note Jres = J_resume_reading [OF Jpop apop(1) conjunct1 [OF True]]
    have ares: "m_active (mgr ?resume) fd = Some p" "ub ?resume = ub s"
      using apop by (simp_all add: set_ctx_def)
    obtain ok s3 where sub: "submitRecv fd ?resume = (ok, s3)" by fastforce
    have res: "(go_on, s2) = (if ok then (True, s3) else (False, close_fd fd s3))"
      using r True sub unfolding finish_response_def Let_def by (auto split: if_splits)
    show ?thesis
    proof (cases ok)
      case ok: True
      have "J ({(p, SEND), (p, RECV)} - {(p, RECV)}) s3"
        using J_submitRecv [OF _ Jres ares(1)] sub ok by simp
      moreover have "{(p, SEND), (p, RECV)} - {(p, RECV)} = {(p, SEND)}" by auto
      moreover have "m_active (mgr s3) = m_active (mgr ?resume)"
        using submitRecv_active [of fd ?resume ok s3] sub by simp
      then have "m_active (mgr s3) fd = Some p" using ares(1) by simp
      ultimately show ?thesis using res ok submitRecv_ub [OF sub] ares(2) by simp
    next
      case no: False
      then have "J {(p, SEND), (p, RECV)} s3" "mgr s3 = mgr ?resume" "ub s3 = ub ?resume"
        using submitRecv_fail [OF _ Jres, of fd s3] sub by simp_all
      then show ?thesis
        using res no ares J_close_held [of "{(p, SEND), (p, RECV)}" s3 fd p SEND] by simp
    qed
  qed
qed

lemma J_handleSend:
  assumes J: "J {(p, SEND)} s" and act: "m_active (mgr s) fd = Some p"
    and queue: "outQueue (ctx_of s p) \<noteq> []"
  shows "J {} (handleSend p result s) \<and> ub (handleSend p result s) = ub s"
proof -
  have fd: "cfd (ctx_of s p) = fd" using J_active [OF J act] by auto
  show ?thesis
  proof (cases "result \<le> 0")
    case True
    then show ?thesis using J_close_send [OF J act] by (simp add: handleSend_def fd)
  next
    case False
    obtain front q where f: "outQueue (ctx_of s p) = front # q" using queue by (cases "outQueue (ctx_of s p)") auto
    let ?s1 = "set_ctx p (\<lambda>c. c\<lparr>written := written c + nat result\<rparr>) s"
    obtain go_on s2 where g: "(if length front \<le> written (ctx_of ?s1 p)
        then finish_response fd p ?s1 else (True, ?s1)) = (go_on, s2)" by fastforce
    obtain ok s3 where sub: "submitSend fd s2 = (ok, s3)" by fastforce
    have h: "handleSend p result s =
        (if \<not> go_on then s2
         else if outQueue (ctx_of s2 p) = [] then set_ctx p (\<lambda>c. c\<lparr>sending := False\<rparr>) s2
         else if ok then s3 else close_fd fd s3)"
      using False f g sub by (simp add: handleSend_def fd Let_def)
    have H: "ub s2 = ub s \<and>
        (if go_on then m_active (mgr s2) fd = Some p \<and> J {(p, SEND)} s2 else J {} s2)"
    proof (cases "length front \<le> written (ctx_of ?s1 p)")
      case True
      then show ?thesis using finish_response_J [OF _ refl J act] g by simp
    next
      case short: False
      then have "go_on" "s2 = ?s1" using g by simp_all
      then show ?thesis using J_wrote [OF J act f, of "nat result"] short act by (simp add: set_ctx_def)
    qed
    show ?thesis
      unfolding h using H J_stop_sending [of p s2 fd] J_send_next [of p s2 fd ok s3] sub
      by (auto simp: set_ctx_def split: if_splits)
  qed
qed

end
