(* ===== verification/ReactorFrame.thy ===== *)
theory ReactorFrame
  imports ReactorSafety
begin

text \<open>
  What the handlers leave alone: the operations that belong to no connection, the deferred
  submissions, the completions and buffers, and the identity of every context. A handler other
  than \<open>handleAccept\<close> opens no connection.
\<close>

definition env_ops :: "provider \<Rightarrow> (ctx_ptr option \<times> op_type) multiset" where
  "env_ops s = filter_mset (\<lambda>k. fst k = None) (ops s)"

definition keeps :: "provider \<Rightarrow> provider \<Rightarrow> bool" where
  "keeps s s' \<longleftrightarrow>
     env_ops s' = env_ops s \<and> m_acceptPending s' = m_acceptPending s \<and>
     m_notifyPending s' = m_notifyPending s \<and> cq s' = cq s \<and> buf_ring s' = buf_ring s \<and>
     m_bufBase s' = m_bufBase s \<and> m_serviceMap s' = m_serviceMap s \<and> running s' = running s \<and>
     coro_resumed s' = coro_resumed s \<and> inkernel s' = inkernel s \<and>
     nextId (mgr s') = nextId (mgr s) \<and> m_nConns (mgr s') = m_nConns (mgr s) \<and>
     (\<forall>p. connId (ctx_of s' p) = connId (ctx_of s p) \<and> cfd (ctx_of s' p) = cfd (ctx_of s p)) \<and>
     (\<forall>fd p. m_active (mgr s') fd = Some p \<longrightarrow> m_active (mgr s) fd = Some p)"

lemma keeps_refl [simp, intro]: "keeps s s"
  by (simp add: keeps_def)

lemma keeps_trans [trans]: "keeps s t \<Longrightarrow> keeps t u \<Longrightarrow> keeps s u"
  unfolding keeps_def by (elim conjE, intro conjI) (simp_all (no_asm_simp))

lemma keepsD:
  assumes "keeps s s'"
  shows "env_ops s' = env_ops s" "m_acceptPending s' = m_acceptPending s"
    "m_notifyPending s' = m_notifyPending s" "cq s' = cq s" "buf_ring s' = buf_ring s"
    "m_bufBase s' = m_bufBase s" "m_serviceMap s' = m_serviceMap s" "running s' = running s"
    "coro_resumed s' = coro_resumed s" "nextId (mgr s') = nextId (mgr s)"
    "m_nConns (mgr s') = m_nConns (mgr s)"
    "connId (ctx_of s' p) = connId (ctx_of s p)" "cfd (ctx_of s' p) = cfd (ctx_of s p)"
    "m_active (mgr s') fd = Some p \<Longrightarrow> m_active (mgr s) fd = Some p"
    "m_active (mgr s) fd = None \<Longrightarrow> m_active (mgr s') fd = None"
  using assms unfolding keeps_def by (auto intro: ccontr)

lemma env_ops_of: "ops s' = ops s \<Longrightarrow> env_ops s' = env_ops s"
  and env_ops_add: "ops s' = add_mset (Some p, op) (ops s) \<Longrightarrow> env_ops s' = env_ops s"
  by (simp_all add: env_ops_def)

lemma keeps_set_ctx:
  "(\<And>c. connId (f c) = connId c) \<Longrightarrow> (\<And>c. cfd (f c) = cfd c) \<Longrightarrow> keeps s (set_ctx p f s)"
  by (simp add: keeps_def env_ops_def set_ctx_def)

lemma keeps_close_fd: "keeps s (close_fd fd s)"
  by (auto simp: keeps_def env_ops_def close_fd_def close_conn_def recycle_def Let_def split: option.splits if_splits)

lemma keeps_submitRecv: "submitRecv fd s = (ok, s') \<Longrightarrow> keeps s s'"
  by (cases s rule: get_sqe_cases)
    (auto simp: submitRecv_def keeps_def env_ops_def Let_def push_sqe_def onSubmit_def sqe_key_def ops_def
      split: option.splits prod.splits if_splits)

lemma keeps_submitSend: "submitSend fd s = (ok, s') \<Longrightarrow> keeps s s'"
  by (cases s rule: get_sqe_cases)
    (auto simp: submitSend_def keeps_def env_ops_def Let_def push_sqe_def onSubmit_def sqe_key_def ops_def
      set_ctx_def split: option.splits prod.splits if_splits list.splits)

lemma keeps_submitTask: "keeps s (submitTask t s)"
  by (simp add: keeps_def submitTask_def env_ops_def)

text \<open>Submitting and closing on failure.\<close>

lemma keeps_recv_or_close:
  "submitRecv fd s = (ok, s') \<Longrightarrow> keeps s (if \<not> ok then close_fd fd s' else s')"
  using keeps_submitRecv [of fd s ok s'] keeps_trans [OF _ keeps_close_fd, of s s' fd] by simp

lemma keeps_send_or_close:
  "submitSend fd s = (ok, s') \<Longrightarrow> keeps s (if \<not> ok then close_fd fd s' else s')"
  using keeps_submitSend [of fd s ok s'] keeps_trans [OF _ keeps_close_fd, of s s' fd] by simp

section \<open>The handlers\<close>

lemma keeps_deliverResponse: "keeps s (deliverResponse fd cid data s)"
proof (cases "find_conn fd (mgr s)")
  case (Some p)
  let ?s1 = "set_ctx p (\<lambda>c. c\<lparr>outQueue := outQueue c @ [data]\<rparr>) s"
  have 1: "keeps s ?s1" by (rule keeps_set_ctx) simp_all
  obtain ok s2 where sub: "submitSend fd ?s1 = (ok, s2)" by fastforce
  show ?thesis
    using 1 keeps_trans [OF 1 keeps_send_or_close [OF sub]] Some sub
    by (simp add: deliverResponse_def Let_def)
qed (simp add: deliverResponse_def)

lemma keeps_resume: "keeps s (resume_handleRpc h s)"
  by (simp add: resume_handleRpc_def keeps_deliverResponse split: prod.splits)

lemma keeps_resume_all: "keeps s (foldl (\<lambda>s h. resume_handleRpc h s) s hs)"
proof (induction hs arbitrary: s)
  case (Cons h hs)
  show ?case using keeps_trans [OF keeps_resume Cons.IH] by simp
qed simp

lemma keeps_handleNotify: "keeps s (handleNotify s)"
proof -
  have "keeps s (s\<lparr>m_readyCoros := []\<rparr>)" by (simp add: keeps_def env_ops_def)
  from keeps_trans [OF this keeps_resume_all] show ?thesis by (simp add: handleNotify_def Let_def)
qed

lemma keeps_tryHandleRequest: "tryHandleRequest pb fd p s = (again, s') \<Longrightarrow> keeps s s'"
proof (cases "uring_take pb (m_serviceMap s) (input (ctx_of s p))")
  case (Some ir)
  assume t: "tryHandleRequest pb fd p s = (again, s')"
  obtain item rest where ir: "ir = (item, rest)" by fastforce
  let ?s1 = "set_ctx p (\<lambda>c. c\<lparr>input := rest\<rparr>) s"
  let ?s2 = "set_ctx p (\<lambda>c. c\<lparr>pendingReqs := pendingReqs c + 1\<rparr>) ?s1"
  have 1: "keeps s ?s1" by (rule keeps_set_ctx) simp_all
  have 2: "keeps s ?s2" by (rule keeps_trans [OF 1 keeps_set_ctx]) simp_all
  show ?thesis
    using t Some ir keeps_trans [OF 1 keeps_close_fd] keeps_trans [OF 2 keeps_submitTask]
    by (cases item) (auto simp: tryHandleRequest_def handleRpc_def Let_def)
qed (simp add: tryHandleRequest_def)

lemma keeps_handle_requests: "handle_requests pb fd p s = (normal, s') \<Longrightarrow> keeps s s'"
proof (induction pb fd p s arbitrary: normal s' rule: handle_requests.induct)
  case (1 pb fd p s)
  obtain again s1 where t: "tryHandleRequest pb fd p s = (again, s1)" by fastforce
  note k = keeps_tryHandleRequest [OF t]
  show ?case
  proof (cases "again \<and> find_conn fd (mgr s1) \<noteq> None")
    case True
    then have "handle_requests pb fd p s1 = (normal, s')"
      using 1(2) t by (auto simp: handle_requests.simps [of pb fd p s])
    then have "keeps s1 s'" using True by (intro 1(1) [OF refl t [symmetric]]) simp_all
    then show ?thesis by (rule keeps_trans [OF k])
  next
    case False
    then have "handle_requests pb fd p s = (\<not> again, s1)"
      by (subst handle_requests.simps) (simp add: t)
    then show ?thesis using 1(2) k by simp
  qed
qed

lemma keeps_handleRecv: "keeps s (handleRecv pb p result s)"
proof -
  let ?fd = "cfd (ctx_of s p)"
  obtain normal s1 where h: "handle_requests pb ?fd p s = (normal, s1)" by fastforce
  note k = keeps_handle_requests [OF h]
  obtain ok s2 where r: "submitRecv ?fd s1 = (ok, s2)" by fastforce
  obtain ok' s3 where r': "submitRecv ?fd s = (ok', s3)" by fastforce
  have p: "keeps s (set_ctx p (\<lambda>c. c\<lparr>readPaused := True\<rparr>) s1)"
    by (rule keeps_trans [OF k keeps_set_ctx]) simp_all
  show ?thesis
    using h r r' k p keeps_trans [OF k keeps_recv_or_close [OF r]] keeps_recv_or_close [OF r']
      keeps_close_fd [of s ?fd]
    by (simp add: handleRecv_def Let_def)
qed

lemma keeps_finish_response: "finish_response fd p s = (go_on, s') \<Longrightarrow> keeps s s'"
proof -
  assume f: "finish_response fd p s = (go_on, s')"
  let ?pop = "set_ctx p (\<lambda>c. c\<lparr>outQueue := tl (outQueue c), written := 0,
                             pendingReqs := pendingReqs c - 1\<rparr>) s"
  let ?res = "set_ctx p (\<lambda>c. c\<lparr>readPaused := False\<rparr>) ?pop"
  have 1: "keeps s ?pop" by (rule keeps_set_ctx) simp_all
  have 2: "keeps s ?res" by (rule keeps_trans [OF 1 keeps_set_ctx]) simp_all
  obtain ok s3 where r: "submitRecv fd ?res = (ok, s3)" by fastforce
  show ?thesis
    using f 1 keeps_trans [OF 2 keeps_recv_or_close [OF r]] r
    unfolding finish_response_def Let_def by (auto split: if_splits)
qed

lemma keeps_handleSend: "keeps s (handleSend p result s)"
proof (cases "result \<le> 0")
  case True
  then show ?thesis using keeps_close_fd by (simp add: handleSend_def Let_def)
next
  case False
  let ?fd = "cfd (ctx_of s p)"
  let ?s1 = "set_ctx p (\<lambda>c. c\<lparr>written := written c + nat result\<rparr>) s"
  have 1: "keeps s ?s1" by (rule keeps_set_ctx) simp_all
  show ?thesis
  proof (cases "outQueue (ctx_of ?s1 p)")
    case Nil
    have "keeps ?s1 (?s1\<lparr>ub := True\<rparr>)" by (simp add: keeps_def env_ops_def)
    then show ?thesis using False Nil keeps_trans [OF 1] by (simp add: handleSend_def Let_def)
  next
    case (Cons front q)
    obtain go_on s2 where g: "(if length front \<le> written (ctx_of ?s1 p)
        then finish_response ?fd p ?s1 else (True, ?s1)) = (go_on, s2)" by fastforce
    have 2: "keeps s s2"
      using g keeps_trans [OF 1 keeps_finish_response] 1 by (auto split: if_splits)
    obtain ok s3 where sub: "submitSend ?fd s2 = (ok, s3)" by fastforce
    have 3: "keeps s (set_ctx p (\<lambda>c. c\<lparr>sending := False\<rparr>) s2)"
      by (rule keeps_trans [OF 2 keeps_set_ctx]) simp_all
    have "handleSend p result s =
        (if \<not> go_on then s2
         else if outQueue (ctx_of s2 p) = [] then set_ctx p (\<lambda>c. c\<lparr>sending := False\<rparr>) s2
         else if \<not> ok then close_fd ?fd s3 else s3)"
      using False Cons g sub by (simp add: handleSend_def Let_def)
    then show ?thesis using 2 3 keeps_trans [OF 2 keeps_send_or_close [OF sub]] by (simp split: if_splits)
  qed
qed

end
