(* ===== verification/ReactorReach.thy ===== *)
theory ReactorReach
  imports ReactorFrame
begin

text \<open>
  The invariant of the running server: the invariant of the connections, the accept and the
  wake-up read owed by the kernel or deferred, and no undefined behaviour. It holds in every
  reachable state.
\<close>

lemma out_mgr [simp]: "out (s\<lparr>mgr := m\<rparr>) p op = out s p op"
  by (simp add: out_def)

section \<open>Accepting\<close>

lemma J_acquire:
  assumes J: "J {} s" and free: "m_active (mgr s) fd = None"
    and s': "mgr s' = snd (acquire fd (mgr s))" "ops s' = ops s"
  shows "J {(acquire_ptr (mgr s), RECV)} s'" (is "J {(?p, RECV)} s'")
proof -
  note ok = J_mgr [OF J] note fresh = acquire_ptr_fresh [OF ok]
  have o: "out s' q op = out s q op" for q op by (simp add: out_def s')
  have zero: "out s ?p op = 0" for op
  proof (rule ccontr)
    assume nz: "out s ?p op \<noteq> 0"
    note b = J_out_not_idle [OF J nz]
    show False
      using b by (cases "m_idlePool (mgr s) = []") (simp_all add: acquire_ptr_def)
  qed
  have ctx: "ctx_of s' q = (if q = ?p then fresh_ctx fd (nextId (mgr s)) else ctx_of s q)" for q
    by (simp add: s' acquire_ctx)
  have old: "q < m_nConns (mgr s') \<Longrightarrow> q \<noteq> ?p \<Longrightarrow> q < m_nConns (mgr s)" for q
    using mgr_ok_idle_last(1) [OF ok] by (auto simp: s' acquire_simps acquire_ptr_def split: if_splits)
  have pool: "q \<in> set (m_idlePool (mgr s)) \<Longrightarrow> q \<noteq> ?p \<Longrightarrow> q \<in> set (m_idlePool (mgr s'))" for q
    by (cases "m_idlePool (mgr s)" rule: rev_cases) (auto simp: acquire_ptr_def s' acquire_simps)
  show ?thesis
  proof (rule JI, goal_cases)
    case 1 show ?case unfolding s' by (rule mgr_ok_acquire [OF ok free])
  next
    case (2 q op)
    then have "\<not> q < m_nConns (mgr s)" by (auto simp: s' acquire_simps split: if_splits)
    then show ?case using J_none [OF J] by (simp add: o)
  next
    case (3 q)
    show ?case
    proof (cases "q = ?p")
      case True then show ?thesis by (simp add: counts_ok_def o ctx zero)
    next
      case False
      then show ?thesis using J_counts [OF J old [OF 3 False]] by (simp add: counts_ok_def o ctx)
    qed
  next
    case (4 fd' q)
    show ?case
    proof (cases "q = ?p")
      case True then show ?thesis by (simp add: conn_ok_def o ctx zero held_def)
    next
      case False
      with 4 have "m_active (mgr s) fd' = Some q" by (auto simp: s' acquire_simps split: if_splits)
      from J_conn [OF J this] False show ?thesis by (simp add: conn_ok_def o ctx held_def)
    qed
  next
    case (5 q)
    then have ne: "q \<noteq> ?p" by (auto simp: s' acquire_simps acquire_ctx)
    have "m_active (mgr s) (cfd (ctx_of s q)) \<noteq> Some q"
      using 5(3) ne free by (auto simp: acquire_ctx s' acquire_simps split: if_splits)
    then show ?case using J_drain [OF J old [OF 5(1) ne]] pool [OF _ ne] 5(2) ne by (auto simp: ctx)
  qed
qed

lemma submitAccept_cases:
  obtains as where "submitAccept s = (False, s\<lparr>sqe_answers := as\<rparr>)"
  | as where "submitAccept s =
      (True, push_sqe \<lparr>s_kind = PrepAccept, s_ctx = None, s_op = ACCEPT\<rparr> (s\<lparr>sqe_answers := as\<rparr>))"
  by (cases s rule: get_sqe_cases) (auto simp: submitAccept_def)

lemma submitNotifyRead_cases:
  obtains as where "submitNotifyRead s = (False, s\<lparr>sqe_answers := as\<rparr>)"
  | as where "submitNotifyRead s =
      (True, push_sqe \<lparr>s_kind = PrepRead, s_ctx = None, s_op = NOTIFY\<rparr> (s\<lparr>sqe_answers := as\<rparr>))"
  by (cases s rule: get_sqe_cases) (auto simp: submitNotifyRead_def)

text \<open>An accept that is submitted or deferred is owed; likewise the read of the wake-up pipe.\<close>

definition owed :: "provider \<Rightarrow> (ctx_ptr option \<times> op_type) multiset" where
  "owed s = env_ops s + (if m_acceptPending s then {#(None, ACCEPT)#} else {#}) +
                        (if m_notifyPending s then {#(None, NOTIFY)#} else {#})"

definition accept_or_defer :: "provider \<Rightarrow> provider" where
  "accept_or_defer s = (let (ok, s') = submitAccept s in if \<not> ok then s'\<lparr>m_acceptPending := True\<rparr> else s')"

definition notify_or_defer :: "provider \<Rightarrow> provider" where
  "notify_or_defer s = (let (ok, s') = submitNotifyRead s in if \<not> ok then s'\<lparr>m_notifyPending := True\<rparr> else s')"

lemma accept_or_defer_simps:
  "mgr (accept_or_defer s) = mgr s" "ub (accept_or_defer s) = ub s" "cq (accept_or_defer s) = cq s"
  "buf_ring (accept_or_defer s) = buf_ring s" "m_bufBase (accept_or_defer s) = m_bufBase s"
  "out (accept_or_defer s) p op = out s p op"
  "\<not> m_acceptPending s \<Longrightarrow> owed (accept_or_defer s) = add_mset (None, ACCEPT) (owed s)"
  "m_taskQueue (accept_or_defer s) = m_taskQueue s" "running (accept_or_defer s) = running s"
  "m_readyCoros (accept_or_defer s) = m_readyCoros s" "inkernel (accept_or_defer s) = inkernel s"
  "m_serviceMap (accept_or_defer s) = m_serviceMap s"
  by (cases s rule: submitAccept_cases,
      simp_all add: accept_or_defer_def owed_def env_ops_def out_def sqe_key_def push_sqe_def ops_def)+

lemma notify_or_defer_simps:
  "mgr (notify_or_defer s) = mgr s" "ub (notify_or_defer s) = ub s" "cq (notify_or_defer s) = cq s"
  "buf_ring (notify_or_defer s) = buf_ring s" "m_bufBase (notify_or_defer s) = m_bufBase s"
  "out (notify_or_defer s) p op = out s p op"
  "\<not> m_notifyPending s \<Longrightarrow> owed (notify_or_defer s) = add_mset (None, NOTIFY) (owed s)"
  "m_taskQueue (notify_or_defer s) = m_taskQueue s" "running (notify_or_defer s) = running s"
  "m_readyCoros (notify_or_defer s) = m_readyCoros s" "inkernel (notify_or_defer s) = inkernel s"
  "m_serviceMap (notify_or_defer s) = m_serviceMap s"
  by (cases s rule: submitNotifyRead_cases,
      simp_all add: notify_or_defer_def owed_def env_ops_def out_def sqe_key_def push_sqe_def ops_def)+

lemma J_accept_or_defer: "J X s \<Longrightarrow> J X (accept_or_defer s)"
  by (erule J_same_mgr) (simp_all add: accept_or_defer_simps)

lemma J_notify_or_defer: "J X s \<Longrightarrow> J X (notify_or_defer s)"
  by (erule J_same_mgr) (simp_all add: notify_or_defer_simps)

text \<open>What \<open>handleAccept\<close> does before it submits the next accept.\<close>

definition accepted :: "int \<Rightarrow> provider \<Rightarrow> provider" where
  "accepted fd s =
     (let (ok, s2) = submitRecv fd (s\<lparr>mgr := snd (acquire fd (mgr s))\<rparr>)
      in if \<not> ok then close_fd fd s2 else s2)"

lemma handleAccept_alt:
  "handleAccept result s = accept_or_defer (if result < 0 then s else accepted result s)"
  by (simp add: handleAccept_def accept_or_defer_def accepted_def Let_def split: prod.splits)

lemma J_accepted:
  assumes J: "J {} s" and free: "m_active (mgr s) fd = None"
  shows "J {} (accepted fd s)" "ub (accepted fd s) = ub s"
proof -
  let ?s1 = "s\<lparr>mgr := snd (acquire fd (mgr s))\<rparr>"
  have J1: "J {(acquire_ptr (mgr s), RECV)} ?s1" by (rule J_acquire [OF J free]) simp_all
  have act: "m_active (mgr ?s1) fd = Some (acquire_ptr (mgr s))" by (simp add: acquire_simps)
  obtain ok s2 where r: "submitRecv fd ?s1 = (ok, s2)" by fastforce
  show "J {} (accepted fd s)" using rearm_recv [OF J1 act r] r by (cases ok) (simp_all add: accepted_def)
  show "ub (accepted fd s) = ub s" using submitRecv_ub [OF r] r by (simp add: accepted_def)
qed

text \<open>What accepting changes of what the other handlers keep.\<close>

lemma accepted_keeps:
  "keeps (s\<lparr>mgr := snd (acquire fd (mgr s))\<rparr>) (accepted fd s)"
  using keeps_recv_or_close by (simp add: accepted_def split: prod.splits)

lemma keeps_owed: "keeps s s' \<Longrightarrow> owed s' = owed s"
  by (simp add: owed_def keepsD)

lemma owed_acquire: "owed (s\<lparr>mgr := m\<rparr>) = owed s"
  by (simp add: owed_def env_ops_def)

section \<open>Completing an operation of a connection\<close>

lemma J_recycle:
  assumes J: "J {} s" and p: "p < m_nConns (mgr s)" "p \<notin> set (m_idlePool (mgr s))"
    and drained: "m_active (mgr s) (cfd (ctx_of s p)) \<noteq> Some p"
    and s': "mgr s' = recycle p (upd_ctx p (\<lambda>c. (g c)\<lparr>inflight := 0\<rparr>) (mgr s))"
    and g: "\<And>c. view (g c) = view c"
    and o: "\<And>q op. q \<noteq> p \<Longrightarrow> out s' q op = out s q op" "\<And>op. out s' p op = 0"
  shows "J {} s'"
proof -
  note ok = J_mgr [OF J]
  have gs: "cfd (g c) = cfd c" "closing (g c) = closing c" for c using g [of c] by (simp_all add: view_def)
  have not_live: "m_active (mgr s) fd \<noteq> Some p" for fd
    using mgr_okD(2) [OF ok, of fd p] drained by blast
  show ?thesis
  proof (rule JI, unfold s' recycle_def, goal_cases)
    case 1
    show ?case
    proof (rule mgr_okI, goal_cases)
      case (1 fd q)
      then have "q \<noteq> p" using not_live by auto
      with 1 show ?case using mgr_okD [OF ok, of fd q] by simp
    next
      case 2 then show ?case using mgr_ok_distinct [OF ok] p by simp
    next
      case (3 q) then show ?case using mgr_ok_idle [OF ok, of q] p by auto
    next
      case (4 q) then show ?case using mgr_ok_nonneg [OF ok, of q] by simp
    next
      case (5 q) then show ?case using mgr_ok_draining [OF ok, of q] by auto
    qed
  next
    case (2 q op)
    then show ?case using o J_none [OF J, of q op] p by (cases "q = p") auto
  next
    case (3 q)
    then show ?case using J_counts [OF J, of q] o
      by (cases "q = p") (auto simp: counts_ok_def s' recycle_def)
  next
    case (4 fd q)
    then have "q \<noteq> p" using not_live by auto
    with 4 show ?case using J_conn [OF J, of fd q] o(1) by (simp add: conn_ok_def s' recycle_def)
  next
    case (5 q)
    then have "q \<noteq> p" by auto
    with 5 show ?case using J_drain [OF J, of q] by simp
  qed
qed

lemma J_complete:
  assumes J: "J {} s" and o: "\<And>q op'. out s q op' = out s1 q op' + (if q = p \<and> op' = op then 1 else 0)"
    and m: "mgr s1 = upd_ctx p g (mgr s)" and g: "\<And>c. view (g c) = view c"
    and c: "onComplete (Some p) (mgr s1) = (recycled, m')"
  shows "if recycled then J {} (s1\<lparr>mgr := m'\<rparr>)
    else \<exists>fd. m_active m' fd = Some p \<and> J {(p, op)} (s1\<lparr>mgr := m'\<rparr>) \<and>
      (op = SEND \<longrightarrow> outQueue (m_allConns m' p) \<noteq> []) \<and> (op = RECV \<or> op = SEND)"
proof -
  have "out s p op \<noteq> 0" by (simp add: o)
  note a = J_out_not_idle [OF J this]
  note n = J_counts [OF J a(1)]
  have gs: "cfd (g c) = cfd c" "closing (g c) = closing c" "inflight (g c) = inflight c"
     "readPaused (g c) = readPaused c" "sending (g c) = sending c" "outQueue (g c) = outQueue c"
     "written (g c) = written c" for c using g [of c] by (simp_all add: view_def)
  let ?f = "\<lambda>c. (g c)\<lparr>inflight := inflight (g c) - 1\<rparr>"
  let ?s2 = "s1\<lparr>mgr := m'\<rparr>"
  show ?thesis
  proof (cases "m_active (mgr s) (cfd (ctx_of s p)) = Some p")
    case True
    note act = J_active [OF J True]
    have rec: "\<not> recycled" and m': "m' = upd_ctx p ?f (mgr s)"
      using c act(3) by (auto simp: onComplete_def m Let_def gs)
    have cok: "conn_ok {} s p" using J_conn [OF J True] .
    have "J {(p, op)} ?s2"
    proof (rule J_local [OF J True, where f = ?f], goal_cases)
      case 1 show ?case by (simp add: m')
    next
      case 6 show ?case using n o a(3) by (auto simp: counts_ok_def m' gs)
    next
      case 7 show ?case using cok o a(3)
        by (auto simp: conn_ok_def m' gs held_def)
    qed (auto simp: o gs held_def)
    moreover have "op = SEND \<longrightarrow> outQueue (m_allConns m' p) \<noteq> []"
      using cok \<open>out s p op \<noteq> 0\<close> by (auto simp: conn_ok_def m' gs held_def split: if_splits)
    ultimately show ?thesis using rec True a(3) by (auto simp: m')
  next
    case False
    have one: "inflight (ctx_of s p) = 1" using J_drain [OF J a(1,2) False] .
    have "closing (ctx_of s p)" using mgr_ok_draining [OF J_mgr [OF J] a(1,2) False] by simp
    then have rec: recycled and m': "m' = recycle p (upd_ctx p ?f (mgr s))"
      using c one by (auto simp: onComplete_def m Let_def gs)
    have "out s p RECV + out s p SEND = 1" using n one by (simp add: counts_ok_def)
    then have zero: "out s1 p op' = 0" for op'
      using n o [of p RECV] o [of p SEND] o [of p ACCEPT] o [of p NOTIFY] a(3)
      by (cases op'; elim disjE) (simp_all add: counts_ok_def)
    have "upd_ctx p ?f (mgr s) = upd_ctx p (\<lambda>c. (g c)\<lparr>inflight := 0\<rparr>) (mgr s)"
      using one by (simp add: gs)
    with m' have "mgr ?s2 = recycle p (upd_ctx p (\<lambda>c. (g c)\<lparr>inflight := 0\<rparr>) (mgr s))" by simp
    then have "J {} ?s2"
      by (rule J_recycle [OF J a(1,2) False _ g]) (simp_all add: o zero)
    then show ?thesis using rec by simp
  qed
qed


section \<open>The invariant of the running server\<close>

definition accept_ok :: "provider \<Rightarrow> bool" where
  "accept_ok s \<longleftrightarrow>
     (\<forall>e\<in>set (cq s). c_ud e = UdOp None ACCEPT \<longrightarrow> c_res e < 0 \<or> m_active (mgr s) (c_res e) = None)"

definition reactor_ok :: "provider \<Rightarrow> bool" where
  "reactor_ok s \<longleftrightarrow>
     J {} s \<and> \<not> ub s \<and> owed s = {#(None, ACCEPT), (None, NOTIFY)#} \<and> accept_ok s"

lemma accept_ok_shrink:
  "accept_ok s \<Longrightarrow> set (cq s') \<subseteq> set (cq s) \<Longrightarrow>
     (\<And>fd. m_active (mgr s) fd = None \<Longrightarrow> m_active (mgr s') fd = None) \<Longrightarrow> accept_ok s'"
  unfolding accept_ok_def by (meson subsetD)

lemma cqe_in_ops: "e \<in> set (cq s) \<Longrightarrow> c_ud e = UdOp c op \<Longrightarrow> (c, op) \<in># ops s"
  by (force simp: ops_def cqe_keys_def)

lemma no_accept_cqe:
  assumes "(None, ACCEPT) \<notin># owed s"
  shows "accept_ok s"
  using assms cqe_in_ops [of _ s None ACCEPT] by (auto simp: accept_ok_def owed_def env_ops_def)

text \<open>The copy-out of a provided buffer, before the completion is handled.\<close>

definition copy_out :: "ctx_ptr option \<Rightarrow> op_type \<Rightarrow> cqe \<Rightarrow> provider \<Rightarrow> provider" where
  "copy_out ctx op e s =
     (case (op, cqe_buffer (c_flags e)) of
        (RECV, Some bid) \<Rightarrow> return_buffer ctx (c_res e) bid s
      | _ \<Rightarrow> s)"

lemma process_cqe_op:
  assumes "c_ud e = UdOp ctx op"
  shows "process_cqe pb e s =
    (let s1 = copy_out ctx op e s; (recycled, m) = onComplete ctx (mgr s1); s2 = s1\<lparr>mgr := m\<rparr>
     in if recycled then s2 else dispatch_cqe pb op ctx (c_res e) s2)"
  using assms unfolding process_cqe_def copy_out_def by simp

lemma copy_out_other: "op \<noteq> RECV \<Longrightarrow> copy_out ctx op e s = s"
  by (cases op) (simp_all add: copy_out_def)

lemma copy_out_same:
  "ops (copy_out ctx op e s) = ops s" "ub (copy_out ctx op e s) = ub s" "cq (copy_out ctx op e s) = cq s"
  "m_acceptPending (copy_out ctx op e s) = m_acceptPending s"
  "m_notifyPending (copy_out ctx op e s) = m_notifyPending s"
  "m_active (mgr (copy_out ctx op e s)) = m_active (mgr s)"
  "m_taskQueue (copy_out ctx op e s) = m_taskQueue s" "running (copy_out ctx op e s) = running s"
  "m_readyCoros (copy_out ctx op e s) = m_readyCoros s"
  "m_serviceMap (copy_out ctx op e s) = m_serviceMap s" "m_bufBase (copy_out ctx op e s) = m_bufBase s"
  "nextId (mgr (copy_out ctx op e s)) = nextId (mgr s)"
  "sq (copy_out ctx op e s) = sq s" "inkernel (copy_out ctx op e s) = inkernel s"
  by (simp_all add: copy_out_def return_buffer_def set_ctx_def ops_def split: op_type.split option.split)

definition appended :: "bytes \<Rightarrow> conn_ctx \<Rightarrow> conn_ctx" where
  "appended data c = c\<lparr>input := input c @ data\<rparr>"

lemma upd_appended_Nil: "upd_ctx p (appended []) m = m"
  by (simp add: appended_def)

text \<open>The bytes a completion of a receive brings.\<close>

definition recv_data :: "(nat \<Rightarrow> bytes) \<Rightarrow> cqe \<Rightarrow> bytes" where
  "recv_data mem e =
     (if 0 < c_res e then (case cqe_buffer (c_flags e) of Some bid \<Rightarrow> take (nat (c_res e)) (mem bid) | None \<Rightarrow> []) else [])"

lemma copy_out_mgr:
  "mgr (copy_out (Some p) op e s) =
     upd_ctx p (appended (if op = RECV \<and> \<not> closing (ctx_of s p) then recv_data (m_bufBase s) e else [])) (mgr s)"
proof (cases "op = RECV \<and> 0 < c_res e \<and> \<not> closing (ctx_of s p) \<and> cqe_buffer (c_flags e) \<noteq> None")
  case True
  then obtain bid where "cqe_buffer (c_flags e) = Some bid" by blast
  with True show ?thesis by (simp add: copy_out_def return_buffer_def appended_def recv_data_def Let_def)
next
  case False
  then have "mgr (copy_out (Some p) op e s) = mgr s"
    by (cases op) (auto simp: copy_out_def return_buffer_def split: option.split)
  moreover have "(if op = RECV \<and> \<not> closing (ctx_of s p) then recv_data (m_bufBase s) e else []) = []"
    using False by (auto simp: recv_data_def split: option.split)
  ultimately show ?thesis by (simp only: upd_appended_Nil)
qed

lemma view_appended [simp]: "view (appended data c) = view c"
  by (simp add: appended_def view_def)

lemma onComplete_active: "m_active (snd (onComplete c m)) = m_active m" "nextId (snd (onComplete c m)) = nextId m"
  by (simp_all add: onComplete_def recycle_def Let_def split: option.split)

lemma dispatch_ok:
  assumes J: "J {(p, op)} s" and act: "m_active (mgr s) fd = Some p"
    and op: "op = RECV \<or> op = SEND" "op = SEND \<longrightarrow> outQueue (ctx_of s p) \<noteq> []"
  shows "J {} (dispatch_cqe pb op (Some p) r s) \<and> ub (dispatch_cqe pb op (Some p) r s) = ub s \<and>
    keeps s (dispatch_cqe pb op (Some p) r s)"
  using op(1)
proof
  assume "op = RECV"
  then show ?thesis using J_handleRecv [of p s fd pb r] J act keeps_handleRecv by (simp add: dispatch_cqe_def)
next
  assume "op = SEND"
  then show ?thesis using J_handleSend [of p s fd r] J act op(2) keeps_handleSend by (simp add: dispatch_cqe_def)
qed

section \<open>Every step keeps the invariant\<close>

text \<open>Taking a completion of a connection: its state before the handler runs.\<close>

lemma reap_connection_state:
  assumes J: "J {} s" and cq: "cq s = e # es" and e: "c_ud e = UdOp (Some p) op"
  obtains s2 where
    "process_cqe pb e (s\<lparr>cq := es\<rparr>) = s2 \<and> J {} s2 \<or>
     process_cqe pb e (s\<lparr>cq := es\<rparr>) = dispatch_cqe pb op (Some p) (c_res e) s2 \<and>
       (\<exists>fd. m_active (mgr s2) fd = Some p \<and> J {(p, op)} s2 \<and>
         (op = SEND \<longrightarrow> outQueue (ctx_of s2 p) \<noteq> []) \<and> (op = RECV \<or> op = SEND))"
    "ub s2 = ub s" "owed s2 = owed s" "cq s2 = es" "m_active (mgr s2) = m_active (mgr s)"
    "nextId (mgr s2) = nextId (mgr s)" "\<And>q. connId (ctx_of s2 q) = connId (ctx_of s q)"
    "m_taskQueue s2 = m_taskQueue s" "running s2 = running s" "m_readyCoros s2 = m_readyCoros s"
    "\<And>q. readPaused (ctx_of s2 q) = readPaused (ctx_of s q)"
    "\<And>q. pendingReqs (ctx_of s2 q) = pendingReqs (ctx_of s q)"
    "sq s2 = sq s" "inkernel s2 = inkernel s"
    "\<And>q. outQueue (ctx_of s2 q) = outQueue (ctx_of s q)" "\<And>q. written (ctx_of s2 q) = written (ctx_of s q)"
    "m_bufBase s2 = m_bufBase s" "m_serviceMap s2 = m_serviceMap s" "m_nConns (mgr s2) = m_nConns (mgr s)"
    "\<And>q. input (ctx_of s2 q) = input (ctx_of s q) @
       (if q = p \<and> op = RECV \<and> \<not> closing (ctx_of s p) then recv_data (m_bufBase s) e else [])"
proof -
  let ?s0 = "s\<lparr>cq := es\<rparr>" let ?s1 = "copy_out (Some p) op e ?s0"
  have opsr: "ops s = add_mset (Some p, op) (ops ?s0)" using ops_reap [OF cq] e by (simp add: cqe_keys_def)
  define data where "data = (if op = RECV \<and> \<not> closing (ctx_of s p) then recv_data (m_bufBase s) e else [])"
  have m: "mgr ?s1 = upd_ctx p (appended data) (mgr s)"
    using copy_out_mgr [of p op e ?s0] by (simp add: data_def)
  obtain recycled m' where c: "onComplete (Some p) (mgr ?s1) = (recycled, m')" by fastforce
  let ?s2 = "?s1\<lparr>mgr := m'\<rparr>"
  have o: "out s q op' = out ?s1 q op' + (if q = p \<and> op' = op then 1 else 0)" for q op'
    by (auto simp: out_def opsr copy_out_same)
  note C = J_complete [OF J o m view_appended c]
  have pr: "process_cqe pb e ?s0 = (if recycled then ?s2 else dispatch_cqe pb op (Some p) (c_res e) ?s2)"
    using process_cqe_op [OF e, of pb ?s0] c by simp
  have m'f: "m_active m' = m_active (mgr s)" "nextId m' = nextId (mgr s)"
    "connId (m_allConns m' q) = connId (ctx_of s q)"
    "readPaused (m_allConns m' q) = readPaused (ctx_of s q)"
    "pendingReqs (m_allConns m' q) = pendingReqs (ctx_of s q)"
    "outQueue (m_allConns m' q) = outQueue (ctx_of s q)" "written (m_allConns m' q) = written (ctx_of s q)"
    "m_nConns m' = m_nConns (mgr s)"
    "input (m_allConns m' q) = input (ctx_of s q) @ (if q = p then data else [])" for q
    using c by (auto simp: m onComplete_def recycle_def Let_def appended_def split: if_splits)
  show thesis
  proof (rule that [of ?s2])
    show "process_cqe pb e ?s0 = ?s2 \<and> J {} ?s2 \<or>
       process_cqe pb e ?s0 = dispatch_cqe pb op (Some p) (c_res e) ?s2 \<and>
       (\<exists>fd. m_active (mgr ?s2) fd = Some p \<and> J {(p, op)} ?s2 \<and>
         (op = SEND \<longrightarrow> outQueue (ctx_of ?s2 p) \<noteq> []) \<and> (op = RECV \<or> op = SEND))"
      using C pr by (cases recycled) simp_all
    show "owed ?s2 = owed s" by (simp add: owed_def env_ops_def copy_out_same opsr)
  qed (simp_all add: copy_out_same m'f data_def)
qed

lemma reap_connection:
  assumes ok: "reactor_ok s" and cq: "cq s = e # es" and e: "c_ud e = UdOp (Some p) op"
  shows "reactor_ok (process_cqe pb e (s\<lparr>cq := es\<rparr>))"
proof -
  have J: "J {} s" and "\<not> ub s" and owed: "owed s = {#(None, ACCEPT), (None, NOTIFY)#}" and acc: "accept_ok s"
    using ok by (simp_all add: reactor_ok_def)
  let ?t = "process_cqe pb e (s\<lparr>cq := es\<rparr>)"
  from J cq e obtain s2 where s2: "?t = s2 \<and> J {} s2 \<or>
     ?t = dispatch_cqe pb op (Some p) (c_res e) s2 \<and>
       (\<exists>fd. m_active (mgr s2) fd = Some p \<and> J {(p, op)} s2 \<and>
         (op = SEND \<longrightarrow> outQueue (ctx_of s2 p) \<noteq> []) \<and> (op = RECV \<or> op = SEND))"
    "ub s2 = ub s" "owed s2 = owed s" "cq s2 = es" "m_active (mgr s2) = m_active (mgr s)"
    by (rule reap_connection_state)
  have acc2: "accept_ok s2"
    by (rule accept_ok_shrink [OF acc]) (auto simp: s2 cq)
  from s2(1) show ?thesis
  proof
    assume "?t = s2 \<and> J {} s2"
    then show ?thesis using s2 owed acc2 \<open>\<not> ub s\<close> by (simp add: reactor_ok_def)
  next
    assume d: "?t = dispatch_cqe pb op (Some p) (c_res e) s2 \<and>
       (\<exists>fd. m_active (mgr s2) fd = Some p \<and> J {(p, op)} s2 \<and>
         (op = SEND \<longrightarrow> outQueue (ctx_of s2 p) \<noteq> []) \<and> (op = RECV \<or> op = SEND))"
    then obtain fd where "m_active (mgr s2) fd = Some p" "J {(p, op)} s2" "op = RECV \<or> op = SEND"
      "op = SEND \<longrightarrow> outQueue (ctx_of s2 p) \<noteq> []" by blast
    from dispatch_ok [OF this(2,1,3,4), of pb "c_res e"] d
    have D: "J {} ?t" "ub ?t = ub s2" "keeps s2 ?t" by simp_all
    have "accept_ok ?t" by (rule accept_ok_shrink [OF acc2]) (simp_all add: keepsD [OF D(3)])
    then show ?thesis using D keeps_owed [OF D(3)] owed s2(2,3) \<open>\<not> ub s\<close> by (simp add: reactor_ok_def)
  qed
qed

lemma reap_env:
  assumes ok: "reactor_ok s" and cq: "cq s = e # es" and e: "c_ud e = UdOp None op"
  shows "reactor_ok (process_cqe pb e (s\<lparr>cq := es\<rparr>))"
proof -
  let ?s0 = "s\<lparr>cq := es\<rparr>"
  have J: "J {} s" and "\<not> ub s" and owed: "owed s = {#(None, ACCEPT), (None, NOTIFY)#}" and acc: "accept_ok s"
    using ok by (simp_all add: reactor_ok_def)
  have opsr: "ops s = add_mset (None, op) (ops ?s0)" using ops_reap [OF cq] e by (simp add: cqe_keys_def)
  have J0: "J {} ?s0" by (rule J_same_mgr [OF J]) (simp_all add: out_def opsr)
  have ow: "add_mset (None, op) (owed ?s0) = {#(None, ACCEPT), (None, NOTIFY)#}"
    using owed by (simp add: owed_def env_ops_def opsr)
  have "(None, op) \<in># add_mset (None, op) (owed ?s0)" by simp
  from this [unfolded ow] consider "op = ACCEPT" | "op = NOTIFY" by auto
  then show ?thesis
  proof cases
    case 1
    with ow have ow0: "owed ?s0 = {#(None, NOTIFY)#}" by simp
    then have np: "\<not> m_acceptPending ?s0" by (auto simp: owed_def split: if_splits)
    let ?s3 = "if c_res e < 0 then ?s0 else accepted (c_res e) ?s0"
    have pr: "process_cqe pb e ?s0 = accept_or_defer ?s3"
      using 1 by (simp add: process_cqe_op [OF e] copy_out_other onComplete_def dispatch_cqe_def
          handleAccept_alt)
    have free: "c_res e < 0 \<or> m_active (mgr ?s0) (c_res e) = None"
      using acc cq e 1 by (simp add: accept_ok_def)
    have k: "owed ?s3 = owed ?s0" "m_acceptPending ?s3 = m_acceptPending ?s0" "cq ?s3 = es"
      using keeps_owed [OF accepted_keeps, of "c_res e" ?s0] keepsD(2,4) [OF accepted_keeps, of "c_res e" ?s0]
      by (simp_all add: owed_acquire)
    have J3: "J {} ?s3" "ub ?s3 = ub s" using J_accepted [OF J0, of "c_res e"] J0 free by auto
    have "accept_ok (accept_or_defer ?s3)"
    proof -
      have "accept_ok ?s3" using ow0 k(1) by (intro no_accept_cqe) simp
      then show ?thesis by (rule accept_ok_shrink) (simp_all only: accept_or_defer_simps subset_refl)
    qed
    moreover have "owed (accept_or_defer ?s3) = {#(None, ACCEPT), (None, NOTIFY)#}"
      using accept_or_defer_simps(7) [of ?s3] np k ow0 by simp
    ultimately show ?thesis
      using pr J_accept_or_defer [OF J3(1)] J3(2) \<open>\<not> ub s\<close>
      by (simp only: reactor_ok_def accept_or_defer_simps) simp
  next
    case 2
    with ow have ow0: "owed ?s0 = {#(None, ACCEPT)#}" by simp
    then have np: "\<not> m_notifyPending ?s0" by (auto simp: owed_def split: if_splits)
    have pr: "process_cqe pb e ?s0 = notify_or_defer (handleNotify ?s0)"
      using 2 by (simp add: process_cqe_op [OF e] copy_out_other onComplete_def dispatch_cqe_def
          notify_or_defer_def Let_def)
    note H = J_handleNotify [OF J0] note k = keeps_handleNotify [of ?s0]
    have "owed (notify_or_defer (handleNotify ?s0)) = {#(None, ACCEPT), (None, NOTIFY)#}"
      using notify_or_defer_simps(7) [of "handleNotify ?s0"] np keepsD(3) [OF k] keeps_owed [OF k] ow0
      by simp
    moreover have "accept_ok (notify_or_defer (handleNotify ?s0))"
      by (rule accept_ok_shrink [OF acc])
        (use keepsD(4) [OF k] keepsD(15) [OF k] cq in \<open>auto simp: notify_or_defer_simps\<close>)
    ultimately show ?thesis
      using pr J_notify_or_defer H \<open>\<not> ub s\<close> by (simp add: reactor_ok_def notify_or_defer_simps)
  qed
qed

lemma reap_ok:
  assumes ok: "reactor_ok s" and cq: "cq s = e # es"
  shows "reactor_ok (process_cqe pb e (s\<lparr>cq := es\<rparr>))"
proof (cases "c_ud e")
  case (UdOp c op)
  then show ?thesis using reap_connection [OF ok cq] reap_env [OF ok cq] by (cases c) auto
next
  case (UdCoro req)
  then have o: "ops s = ops (s\<lparr>cq := es\<rparr>)" using ops_reap [OF cq] by (simp add: cqe_keys_def)
  show ?thesis
    using ok UdCoro unfolding reactor_ok_def process_cqe_def
    by (auto intro: J_same_mgr simp: out_def o owed_def env_ops_def accept_ok_def cq)
qed


text \<open>The two retries, one at a time.\<close>

definition retry_accept :: "provider \<Rightarrow> provider" where
  "retry_accept s =
     (if m_acceptPending s
      then (let (ok, s') = submitAccept s in if ok then s'\<lparr>m_acceptPending := False\<rparr> else s') else s)"

definition retry_notify :: "provider \<Rightarrow> provider" where
  "retry_notify s =
     (if m_notifyPending s
      then (let (ok, s') = submitNotifyRead s in if ok then s'\<lparr>m_notifyPending := False\<rparr> else s') else s)"

lemma retry_deferred_alt: "retry_deferred s = retry_notify (retry_accept s)"
  by (simp add: retry_deferred_def retry_notify_def retry_accept_def Let_def)

lemma retry_accept_simps:
  "mgr (retry_accept s) = mgr s" "ub (retry_accept s) = ub s" "cq (retry_accept s) = cq s"
  "buf_ring (retry_accept s) = buf_ring s" "out (retry_accept s) p op = out s p op"
  "owed (retry_accept s) = owed s" "m_taskQueue (retry_accept s) = m_taskQueue s"
  "running (retry_accept s) = running s" "m_readyCoros (retry_accept s) = m_readyCoros s"
  "m_serviceMap (retry_accept s) = m_serviceMap s" "m_bufBase (retry_accept s) = m_bufBase s"
  by (cases s rule: submitAccept_cases,
      simp_all add: retry_accept_def owed_def env_ops_def out_def sqe_key_def push_sqe_def ops_def)+

lemma retry_notify_simps:
  "mgr (retry_notify s) = mgr s" "ub (retry_notify s) = ub s" "cq (retry_notify s) = cq s"
  "buf_ring (retry_notify s) = buf_ring s" "out (retry_notify s) p op = out s p op"
  "owed (retry_notify s) = owed s" "m_taskQueue (retry_notify s) = m_taskQueue s"
  "running (retry_notify s) = running s" "m_readyCoros (retry_notify s) = m_readyCoros s"
  "m_serviceMap (retry_notify s) = m_serviceMap s" "m_bufBase (retry_notify s) = m_bufBase s"
  by (cases s rule: submitNotifyRead_cases,
      simp_all add: retry_notify_def owed_def env_ops_def out_def sqe_key_def push_sqe_def ops_def)+

lemmas retry_simps = retry_accept_simps retry_notify_simps retry_deferred_alt

text \<open>A state that differs in nothing the invariant reads.\<close>

lemma reactor_ok_same:
  assumes ok: "reactor_ok s" and s': "mgr s' = mgr s" "ub s' = ub s" "owed s' = owed s"
    "\<And>p op. out s' p op = out s p op" and acc: "accept_ok s'"
  shows "reactor_ok s'"
proof -
  have "J {} s'" using ok by (intro J_same_mgr [OF _ s'(1,4)]) (simp add: reactor_ok_def)
  then show ?thesis using ok acc by (simp add: reactor_ok_def s')
qed

lemma complete_ok:
  assumes ok: "reactor_ok s" and e: "e \<in> set (inkernel s)"
    and acc: "s_op e = ACCEPT \<Longrightarrow> res < 0 \<or> m_active (mgr s) res = None"
  shows "reactor_ok (complete e res fl s)"
proof (rule reactor_ok_same [OF ok])
  show "mgr (complete e res fl s) = mgr s" "ub (complete e res fl s) = ub s" by (simp_all add: complete_def)
  show "owed (complete e res fl s) = owed s" "out (complete e res fl s) p op = out s p op" for p op
    using e by (simp_all add: owed_def env_ops_def out_def) (simp_all add: complete_def)
  show "accept_ok (complete e res fl s)"
    using ok acc unfolding reactor_ok_def accept_ok_def complete_def by auto
qed

lemma step_ok:
  assumes step: "provider_step pb s s'" and ok: "reactor_ok s"
  shows "reactor_ok s'"
  using step
proof cases
  case (sqe_space as)
  show ?thesis unfolding sqe_space
    by (rule reactor_ok_same [OF ok]) (use ok in \<open>simp_all add: owed_def env_ops_def out_def reactor_ok_def accept_ok_def\<close>)
next
  case submit
  have f: "mgr (flush_sq s) = mgr s" "ub (flush_sq s) = ub s" "cq (flush_sq s) = cq s"
    "owed (flush_sq s) = owed s" "\<And>p op. out (flush_sq s) p op = out s p op"
    by (simp_all add: owed_def env_ops_def out_def) (simp_all add: flush_sq_def)
  show ?thesis unfolding submit
    by (rule reactor_ok_same [OF ok]) (use ok in \<open>simp_all add: retry_simps f reactor_ok_def accept_ok_def\<close>)
next
  case (reap e es)
  show ?thesis unfolding reap(1) by (rule reap_ok [OF ok reap(2)])
next
  case (k_accept e res fl)
  then show ?thesis using complete_ok [OF ok] by simp
next
  case (k_recv_buffer e bid fl res data)
  have "reactor_ok (complete e res fl s)" using complete_ok [OF ok k_recv_buffer(2)] k_recv_buffer(3) by simp
  then show ?thesis unfolding k_recv_buffer(1)
    by (rule reactor_ok_same)
      (use \<open>reactor_ok (complete e res fl s)\<close> in \<open>simp_all add: owed_def env_ops_def out_def reactor_ok_def accept_ok_def\<close>)
next
  case (k_recv_none e res fl)
  then show ?thesis using complete_ok [OF ok k_recv_none(2), of res fl] by simp
next
  case (k_send e fd data res fl)
  then show ?thesis using complete_ok [OF ok k_send(2), of res fl] by simp
next
  case (k_notify e res fl)
  then show ?thesis using complete_ok [OF ok k_notify(2), of res fl] by simp
next
  case worker_take
  have f: "mgr (workerThread_take s) = mgr s" "ub (workerThread_take s) = ub s"
    "cq (workerThread_take s) = cq s" "owed (workerThread_take s) = owed s"
    "\<And>p op. out (workerThread_take s) p op = out s p op"
    by (cases "m_taskQueue s"; simp add: workerThread_take_def owed_def env_ops_def out_def)+
  show ?thesis unfolding worker_take
    by (rule reactor_ok_same [OF ok]) (use ok in \<open>simp_all add: f reactor_ok_def accept_ok_def\<close>)
next
  case (worker_done t body)
  show ?thesis unfolding worker_done
    by (rule reactor_ok_same [OF ok])
      (use ok in \<open>simp_all add: onPoolDone_def resumeOnReactor_def owed_def env_ops_def out_def reactor_ok_def accept_ok_def Let_def\<close>)
qed

lemma start_ok: "provider_start s \<Longrightarrow> reactor_ok s"
proof -
  assume "provider_start s"
  then obtain sm answers where st: "start_loop (provider_init sm answers) = Some s"
    by (auto simp: provider_start_def)
  have s: "mgr s = mgr_init" "ub s = False" "owed s = {#(None, ACCEPT), (None, NOTIFY)#}" "cq s = []"
    "ops s = {#(None, ACCEPT), (None, NOTIFY)#}"
    using st by (cases answers; cases "tl answers",
        auto simp: start_loop_def provider_init_def setupBufRing_def submitAccept_def submitNotifyRead_def
        get_sqe_def push_sqe_def owed_def env_ops_def ops_def sqe_key_def split: if_splits)+
  have o: "out s p op = 0" for p op by (simp add: out_def s)
  have "J {} s" by (rule JI) (simp_all add: s o mgr_ok_init, simp_all add: mgr_init_def)
  then show ?thesis by (simp add: reactor_ok_def accept_ok_def s)
qed

interpretation reactor: inductive_invariant provider_start "provider_step pb" reactor_ok for pb
  by unfold_locales (fact start_ok, rule step_ok)

end
