(* ===== verification/ReactorData.thy ===== *)
theory ReactorData
  imports ReactorReach
begin

text \<open>
  Two more invariants of the running server: the 1024 receive buffers are conserved, and the
  connection ids keep the calls in the thread pool apart from connections that were accepted
  after their own was closed.
\<close>

section \<open>Receive buffers\<close>

definition cqe_bids :: "cqe \<Rightarrow> nat list" where
  "cqe_bids e =
     (case c_ud e of
        UdOp _ RECV \<Rightarrow> (case cqe_buffer (c_flags e) of Some b \<Rightarrow> [b] | None \<Rightarrow> [])
      | _ \<Rightarrow> [])"

text \<open>The buffers in the ring and those the kernel filled whose completions are waiting.\<close>

definition buffers :: "provider \<Rightarrow> nat multiset" where
  "buffers s = mset (buf_ring s) + mset (concat (map cqe_bids (cq s)))"

lemma keeps_buffers: "keeps s s' \<Longrightarrow> buffers s' = buffers s"
  by (simp add: buffers_def keepsD)

lemma dispatch_notify: "dispatch_cqe pb NOTIFY c r s = notify_or_defer (handleNotify s)"
  by (simp add: dispatch_cqe_def notify_or_defer_def Let_def)

lemma dispatch_buffers: "buffers (dispatch_cqe pb op c r s) = buffers s"
proof (cases op)
  case ACCEPT
  let ?s = "if r < 0 then s else accepted r s"
  have "buffers ?s = buffers s"
    using keeps_buffers [OF accepted_keeps, of r s] by (simp add: buffers_def)
  moreover have "buffers (accept_or_defer ?s) = buffers ?s"
    by (simp only: buffers_def accept_or_defer_simps)
  ultimately show ?thesis using ACCEPT by (simp add: dispatch_cqe_def handleAccept_alt)
next
  case RECV
  then show ?thesis using keeps_buffers [OF keeps_handleRecv]
    by (cases c) (simp_all add: dispatch_cqe_def buffers_def)
next
  case SEND
  then show ?thesis using keeps_buffers [OF keeps_handleSend]
    by (cases c) (simp_all add: dispatch_cqe_def buffers_def)
next
  case NOTIFY
  then show ?thesis using keeps_buffers [OF keeps_handleNotify, of s]
    by (simp only: dispatch_notify) (simp only: buffers_def notify_or_defer_simps)
qed

lemma copy_out_buffers:
  assumes "c_ud e = UdOp c op"
  shows "buffers (copy_out c op e s) = mset (cqe_bids e) + buffers s"
  using assms by (cases c)
    (simp_all add: buffers_def copy_out_def return_buffer_def cqe_bids_def set_ctx_def
      split: op_type.split option.split)

lemma reap_buffers:
  assumes "cq s = e # es"
  shows "buffers (process_cqe pb e (s\<lparr>cq := es\<rparr>)) = buffers s"
proof (cases "c_ud e")
  case (UdOp c op)
  have m: "buffers (s\<lparr>mgr := m\<rparr>) = buffers s" for m s by (simp add: buffers_def)
  have "buffers s = mset (cqe_bids e) + buffers (s\<lparr>cq := es\<rparr>)"
    using assms by (simp add: buffers_def)
  then show ?thesis
    by (simp add: process_cqe_op [OF UdOp] copy_out_buffers [OF UdOp] dispatch_buffers m Let_def
        split: prod.split)
next
  case (UdCoro r)
  then show ?thesis using assms by (simp add: process_cqe_def buffers_def cqe_bids_def)
qed

definition buffers_ok :: "provider \<Rightarrow> bool" where
  "buffers_ok s \<longleftrightarrow> buffers s = mset [0..<kBufRingEntries]"

lemma complete_buffers:
  "s_op e = RECV \<Longrightarrow> cqe_buffer fl = Some b \<Longrightarrow> buffers (complete e res fl s) = add_mset b (buffers s)"
  "s_op e \<noteq> RECV \<or> cqe_buffer fl = None \<Longrightarrow> buffers (complete e res fl s) = buffers s"
  by (auto simp: buffers_def complete_def cqe_bids_def split: op_type.split)

lemma step_buffers:
  assumes "provider_step pb s s'"
  shows "buffers s' = buffers s"
  using assms
proof cases
  case submit
  then show ?thesis by (simp add: buffers_def retry_simps flush_sq_def)
next
  case (reap e es)
  then show ?thesis using reap_buffers by simp
next
  case (k_recv_buffer e bid fl res data)
  let ?c = "complete e res fl s"
  have "buffers ?c = add_mset bid (buffers s)"
    using k_recv_buffer complete_buffers(1) by blast
  moreover have "buf_ring ?c = buf_ring s" by (simp add: complete_def)
  ultimately show ?thesis using k_recv_buffer(1,4)
    by (simp add: buffers_def)
next
  case (k_accept e res fl)
  then show ?thesis using complete_buffers(2) [of e] by simp
next
  case (k_recv_none e res fl)
  then show ?thesis using complete_buffers(2) [of e] by simp
next
  case (k_send e fd data res fl)
  then show ?thesis using complete_buffers(2) [of e] by simp
next
  case (k_notify e res fl)
  then show ?thesis using complete_buffers(2) [of e] by simp
qed (simp_all add: workerThread_take_def onPoolDone_def resumeOnReactor_def
      buffers_def Let_def split: list.split)

lemma start_loop_state:
  assumes "start_loop (provider_init sm answers) = Some s"
  shows "mgr s = mgr_init" "buf_ring s = [0..<kBufRingEntries]" "cq s = []" "m_taskQueue s = []"
    "running s = []" "m_readyCoros s = []" "m_serviceMap s = sm"
  using assms by (cases answers; cases "tl answers",
      auto simp: start_loop_def provider_init_def setupBufRing_def submitAccept_def
      submitNotifyRead_def get_sqe_def push_sqe_def split: if_splits)+

interpretation buffer_inv: inductive_invariant provider_start "provider_step pb" buffers_ok for pb
proof (unfold_locales, goal_cases)
  case (1 s)
  then show ?case by (auto simp: provider_start_def buffers_ok_def buffers_def start_loop_state)
next
  case (2 s t)
  then show ?case by (simp add: buffers_ok_def step_buffers)
qed

section \<open>Connection ids\<close>

text \<open>The calls that will ask for a response to be delivered.\<close>

definition calls :: "provider \<Rightarrow> rpc_task list" where
  "calls s = m_taskQueue s @ running s @ map fst (m_readyCoros s)"

definition ids_ok :: "provider \<Rightarrow> bool" where
  "ids_ok s \<longleftrightarrow>
     (\<forall>t\<in>set (calls s). t_connId t < nextId (mgr s)) \<and>
     (\<forall>fd p. m_active (mgr s) fd = Some p \<longrightarrow> connId (ctx_of s p) < nextId (mgr s)) \<and>
     (\<forall>fd p fd' p'. m_active (mgr s) fd = Some p \<longrightarrow> m_active (mgr s) fd' = Some p' \<longrightarrow>
        connId (ctx_of s p) = connId (ctx_of s p') \<longrightarrow> fd = fd') \<and>
     (\<forall>t\<in>set (calls s). \<forall>fd p. m_active (mgr s) fd = Some p \<longrightarrow> connId (ctx_of s p) = t_connId t \<longrightarrow>
        t_fd t = fd)"

lemma ids_okD:
  assumes "ids_ok s"
  shows "t \<in> set (calls s) \<Longrightarrow> t_connId t < nextId (mgr s)"
    "m_active (mgr s) fd = Some p \<Longrightarrow> connId (ctx_of s p) < nextId (mgr s)"
    "m_active (mgr s) fd = Some p \<Longrightarrow> m_active (mgr s) fd' = Some p' \<Longrightarrow>
        connId (ctx_of s p) = connId (ctx_of s p') \<Longrightarrow> fd = fd'"
    "t \<in> set (calls s) \<Longrightarrow> m_active (mgr s) fd = Some p \<Longrightarrow> connId (ctx_of s p) = t_connId t \<Longrightarrow> t_fd t = fd"
  using assms unfolding ids_ok_def by blast+

lemma ids_okI:
  assumes "\<And>t. t \<in> set (calls s) \<Longrightarrow> t_connId t < nextId (mgr s)"
    and "\<And>fd p. m_active (mgr s) fd = Some p \<Longrightarrow> connId (ctx_of s p) < nextId (mgr s)"
    and "\<And>fd p fd' p'. m_active (mgr s) fd = Some p \<Longrightarrow> m_active (mgr s) fd' = Some p' \<Longrightarrow>
        connId (ctx_of s p) = connId (ctx_of s p') \<Longrightarrow> fd = fd'"
    and "\<And>t fd p. t \<in> set (calls s) \<Longrightarrow> m_active (mgr s) fd = Some p \<Longrightarrow>
        connId (ctx_of s p) = t_connId t \<Longrightarrow> t_fd t = fd"
  shows "ids_ok s"
  unfolding ids_ok_def using assms by blast

text \<open>A handler may close connections and add calls of a live one.\<close>

definition posts :: "int \<Rightarrow> u64 \<Rightarrow> provider \<Rightarrow> provider \<Rightarrow> bool" where
  "posts fd cid s s' \<longleftrightarrow>
     m_readyCoros s' = m_readyCoros s \<and>
     (\<exists>ts. m_taskQueue s' = m_taskQueue s @ ts \<and> (\<forall>t\<in>set ts. t_fd t = fd \<and> t_connId t = cid))"

lemma ids_ok_step:
  assumes ok: "ids_ok s"
    and act: "\<And>fd p. m_active (mgr s') fd = Some p \<Longrightarrow> m_active (mgr s) fd = Some p"
    and ids: "\<And>p. connId (ctx_of s' p) = connId (ctx_of s p)" "nextId (mgr s') = nextId (mgr s)"
    and calls: "\<And>t. t \<in> set (calls s') \<Longrightarrow> t \<in> set (calls s) \<or>
       (\<exists>p. m_active (mgr s) (t_fd t) = Some p \<and> t_connId t = connId (ctx_of s p))"
  shows "ids_ok s'"
proof (rule ids_okI, goal_cases)
  case (1 t)
  from calls [OF 1] show ?case using ids_okD(1,2) [OF ok] by (auto simp: ids)
next
  case (2 fd p)
  then show ?case using ids_okD(2) [OF ok act] by (simp add: ids)
next
  case (3 fd p fd' p')
  then show ?case using ids_okD(3) [OF ok act act] by (simp add: ids)
next
  case (4 t fd p)
  note a = act [OF 4(2)]
  from calls [OF 4(1)] show ?case
  proof
    assume "t \<in> set (calls s)"
    then show ?thesis using ids_okD(4) [OF ok _ a] 4(3) by (simp add: ids)
  next
    assume "\<exists>p. m_active (mgr s) (t_fd t) = Some p \<and> t_connId t = connId (ctx_of s p)"
    then obtain q where "m_active (mgr s) (t_fd t) = Some q" "t_connId t = connId (ctx_of s q)" by blast
    then show ?thesis using ids_okD(3) [OF ok _ a] 4(3) by (simp add: ids)
  qed
qed

lemma posts_refl [simp]: "posts fd cid s s"
  by (simp add: posts_def)

lemma posts_trans: "posts fd cid s t \<Longrightarrow> posts fd cid t u \<Longrightarrow> posts fd cid s u"
  by (auto simp: posts_def)

lemma posts_same: "m_readyCoros s' = m_readyCoros s \<Longrightarrow> m_taskQueue s' = m_taskQueue s \<Longrightarrow> posts fd cid s s'"
  by (simp add: posts_def)

lemma submit_calls:
  "submitRecv fd s = (ok, s') \<Longrightarrow> m_readyCoros s' = m_readyCoros s \<and> m_taskQueue s' = m_taskQueue s"
  "submitSend fd s = (ok, s') \<Longrightarrow> m_readyCoros s' = m_readyCoros s \<and> m_taskQueue s' = m_taskQueue s"
  by (cases s rule: get_sqe_cases;
      auto simp: submitRecv_def submitSend_def Let_def push_sqe_def set_ctx_def
        split: option.splits prod.splits if_splits list.splits)+

lemma quiet_simps [simp]:
  "m_readyCoros (set_ctx p f s) = m_readyCoros s" "m_taskQueue (set_ctx p f s) = m_taskQueue s"
  "m_readyCoros (close_fd fd s) = m_readyCoros s" "m_taskQueue (close_fd fd s) = m_taskQueue s"
  by (simp_all add: set_ctx_def close_fd_def)

lemma deliverResponse_calls:
  "m_readyCoros (deliverResponse fd cid data s) = m_readyCoros s"
  "m_taskQueue (deliverResponse fd cid data s) = m_taskQueue s"
  using submit_calls(2) [of fd "set_ctx p (\<lambda>c. c\<lparr>outQueue := outQueue c @ [data]\<rparr>) s" for p]
  by (auto simp: deliverResponse_def Let_def split: option.split prod.split)

lemma resume_all_calls:
  "m_readyCoros (foldl (\<lambda>s h. resume_handleRpc h s) s hs) = m_readyCoros s \<and>
   m_taskQueue (foldl (\<lambda>s h. resume_handleRpc h s) s hs) = m_taskQueue s"
proof (induction hs arbitrary: s)
  case (Cons h hs)
  have "m_readyCoros (resume_handleRpc h s) = m_readyCoros s"
    "m_taskQueue (resume_handleRpc h s) = m_taskQueue s"
    by (simp_all add: resume_handleRpc_def deliverResponse_calls split: prod.split)
  then show ?case using Cons [of "resume_handleRpc h s"] by simp
qed simp

lemma tryHandleRequest_posts:
  "tryHandleRequest pb fd p s = (again, s') \<Longrightarrow> posts fd (connId (ctx_of s p)) s s'"
  by (auto simp: tryHandleRequest_def handleRpc_def submitTask_def posts_def set_ctx_def close_fd_def Let_def
      split: option.splits req_item.splits)

lemma handle_requests_posts:
  "handle_requests pb fd p s = (normal, s') \<Longrightarrow> posts fd (connId (ctx_of s p)) s s'"
proof (induction pb fd p s arbitrary: normal s' rule: handle_requests.induct)
  case (1 pb fd p s)
  obtain again s1 where t: "tryHandleRequest pb fd p s = (again, s1)" by fastforce
  note P = tryHandleRequest_posts [OF t] and C = keepsD(12) [OF keeps_tryHandleRequest [OF t], of p]
  show ?case
  proof (cases "again \<and> find_conn fd (mgr s1) \<noteq> None")
    case True
    then have "handle_requests pb fd p s1 = (normal, s')"
      using 1(2) t by (auto simp: handle_requests.simps [of pb fd p s])
    then have "posts fd (connId (ctx_of s1 p)) s1 s'" using True by (intro 1(1) [OF refl t [symmetric]]) simp_all
    then show ?thesis using posts_trans [OF P] C by simp
  next
    case False
    then have "handle_requests pb fd p s = (\<not> again, s1)"
      by (subst handle_requests.simps) (simp add: t)
    then show ?thesis using 1(2) P by simp
  qed
qed

lemma handleRecv_posts: "posts (cfd (ctx_of s p)) (connId (ctx_of s p)) s (handleRecv pb p r s)"
proof -
  let ?fd = "cfd (ctx_of s p)" let ?c = "connId (ctx_of s p)"
  obtain normal s1 where h: "handle_requests pb ?fd p s = (normal, s1)" by fastforce
  note P = handle_requests_posts [OF h]
  obtain ok s2 where r: "submitRecv ?fd s1 = (ok, s2)" by fastforce
  obtain ok' s3 where r': "submitRecv ?fd s = (ok', s3)" by fastforce
  have "posts ?fd ?c s (set_ctx p (\<lambda>c. c\<lparr>readPaused := True\<rparr>) s1)"
    by (rule posts_trans [OF P posts_same]) simp_all
  moreover have "posts ?fd ?c s (if \<not> ok then close_fd ?fd s2 else s2)"
    by (rule posts_trans [OF P posts_same]) (use submit_calls(1) [OF r] in simp_all)
  moreover have "posts ?fd ?c s (if \<not> ok' then close_fd ?fd s3 else s3)"
    by (rule posts_same) (use submit_calls(1) [OF r'] in simp_all)
  moreover have "posts ?fd ?c s (close_fd ?fd s)" by (rule posts_same) simp_all
  ultimately show ?thesis using h r r' P by (simp add: handleRecv_def Let_def)
qed

lemma handleSend_calls:
  "m_readyCoros (handleSend p r s) = m_readyCoros s \<and> m_taskQueue (handleSend p r s) = m_taskQueue s"
proof -
  let ?fd = "cfd (ctx_of s p)"
  let ?s1 = "set_ctx p (\<lambda>c. c\<lparr>written := written c + nat r\<rparr>) s"
  have F: "m_readyCoros s2 = m_readyCoros s1 \<and> m_taskQueue s2 = m_taskQueue s1"
    if "finish_response ?fd p s1 = (go_on, s2)" for s1 go_on s2
    using that submit_calls(1) [of ?fd]
    by (auto simp: finish_response_def Let_def split: if_splits prod.splits)
  obtain go_on s2 where g: "finish_response ?fd p ?s1 = (go_on, s2)" by fastforce
  note F2 = F [OF g]
  obtain ok s3 where sub: "submitSend ?fd s2 = (ok, s3)" by fastforce
  obtain ok' s4 where sub': "submitSend ?fd ?s1 = (ok', s4)" by fastforce
  show ?thesis
    using F2 submit_calls(2) [OF sub] submit_calls(2) [OF sub'] g sub sub'
    unfolding handleSend_def Let_def by (auto split: list.split)
qed


lemma same_calls:
  "calls s' = calls s \<Longrightarrow> m_active (mgr s') = m_active (mgr s) \<Longrightarrow> nextId (mgr s') = nextId (mgr s) \<Longrightarrow>
     (\<And>p. connId (ctx_of s' p) = connId (ctx_of s p)) \<Longrightarrow> ids_ok s \<Longrightarrow> ids_ok s'"
  by (erule ids_ok_step) simp_all

lemma keeps_ids:
  assumes ok: "ids_ok s" and k: "keeps s s'"
    and calls: "\<And>t. t \<in> set (calls s') \<Longrightarrow> t \<in> set (calls s) \<or>
       (\<exists>p. m_active (mgr s) (t_fd t) = Some p \<and> t_connId t = connId (ctx_of s p))"
  shows "ids_ok s'"
  by (rule ids_ok_step [OF ok _ _ _ calls]) (simp_all add: keepsD(10,12) [OF k] keepsD(14) [OF k])

lemma reap_ids_connection:
  assumes ok: "reactor_ok s" and ids: "ids_ok s" and cq: "cq s = e # es" and e: "c_ud e = UdOp (Some p) op"
  shows "ids_ok (process_cqe pb e (s\<lparr>cq := es\<rparr>))"
proof -
  let ?t = "process_cqe pb e (s\<lparr>cq := es\<rparr>)"
  have "J {} s" using ok by (simp add: reactor_ok_def)
  from this cq e obtain s2 where s2: "?t = s2 \<and> J {} s2 \<or>
     ?t = dispatch_cqe pb op (Some p) (c_res e) s2 \<and>
       (\<exists>fd. m_active (mgr s2) fd = Some p \<and> J {(p, op)} s2 \<and>
         (op = SEND \<longrightarrow> outQueue (ctx_of s2 p) \<noteq> []) \<and> (op = RECV \<or> op = SEND))"
    and f: "m_active (mgr s2) = m_active (mgr s)"
    "nextId (mgr s2) = nextId (mgr s)" "\<And>q. connId (ctx_of s2 q) = connId (ctx_of s q)"
    "m_taskQueue s2 = m_taskQueue s" "running s2 = running s" "m_readyCoros s2 = m_readyCoros s"
    by (rule reap_connection_state [where pb = pb]) (rule that)
  have i2: "ids_ok s2" by (rule same_calls [OF _ f(1-3) ids]) (simp add: calls_def f)
  from s2 show ?thesis
  proof
    assume d: "?t = dispatch_cqe pb op (Some p) (c_res e) s2 \<and>
       (\<exists>fd. m_active (mgr s2) fd = Some p \<and> J {(p, op)} s2 \<and>
         (op = SEND \<longrightarrow> outQueue (ctx_of s2 p) \<noteq> []) \<and> (op = RECV \<or> op = SEND))"
    then obtain fd where act: "m_active (mgr s2) fd = Some p" and J2: "J {(p, op)} s2"
      and op: "op = RECV \<or> op = SEND" by blast
    have fd: "cfd (ctx_of s2 p) = fd" using J_active(2) [OF J2 act] .
    show ?thesis using op
    proof
      assume "op = RECV"
      then have t: "?t = handleRecv pb p (c_res e) s2" using d by (simp add: dispatch_cqe_def)
      have P: "posts fd (connId (ctx_of s2 p)) s2 ?t" using handleRecv_posts [of s2 p] unfolding fd t .
      have r: "running ?t = running s2" using keepsD(8) [OF keeps_handleRecv] t by simp
      have k: "keeps s2 ?t" using keeps_handleRecv t by simp
      show ?thesis by (rule keeps_ids [OF i2 k]) (use P r act in \<open>auto simp: posts_def calls_def\<close>)
    next
      assume "op = SEND"
      then have t: "?t = handleSend p (c_res e) s2" using d by (simp add: dispatch_cqe_def)
      have k: "keeps s2 ?t" using keeps_handleSend t by simp
      have "calls ?t = calls s2"
        using handleSend_calls [of p "c_res e" s2] keepsD(8) [OF k] unfolding t by (simp add: calls_def)
      then show ?thesis by (intro keeps_ids [OF i2 k]) simp
    qed
  qed (use i2 in simp)
qed

lemma ids_accept:
  assumes ids: "ids_ok s" and J: "J {} s" and room: "nextId (mgr s) + 1 \<noteq> 0"
    and s': "mgr s' = snd (acquire fd (mgr s))" "calls s' = calls s"
  shows "ids_ok s'"
proof -
  let ?p = "acquire_ptr (mgr s)"
  have fresh: "m_active (mgr s) fd' \<noteq> Some ?p" for fd'
    using acquire_ptr_fresh(1) [OF J_mgr [OF J]] by (auto simp: ran_def)
  have "unat (nextId (mgr s) + 1) = Suc (unat (nextId (mgr s)))"
    using room unatSuc [of "nextId (mgr s)"] by (simp add: add.commute)
  then have less: "nextId (mgr s) < nextId (mgr s) + 1" by (simp add: word_less_nat_alt)
  have old: "x < nextId (mgr s) \<Longrightarrow> x < nextId (mgr s) + 1" for x by (rule less_trans [OF _ less])
  have act: "m_active (mgr s') = (m_active (mgr s))(fd \<mapsto> ?p)"
    and ctx: "ctx_of s' q = (if q = ?p then fresh_ctx fd (nextId (mgr s)) else ctx_of s q)"
    and next': "nextId (mgr s') = nextId (mgr s) + 1" for q
    by (simp_all add: s' acquire_simps acquire_ctx)
  have cid: "connId (ctx_of s' q) = (if f = fd then nextId (mgr s) else connId (ctx_of s q)) \<and>
      (f \<noteq> fd \<longrightarrow> m_active (mgr s) f = Some q)"
    if "m_active (mgr s') f = Some q" for f q
    using that fresh [of f] by (auto simp: act ctx split: if_splits)
  show ?thesis
  proof (rule ids_okI, unfold s'(2) next', goal_cases)
    case (1 t) then show ?case using old ids_okD(1) [OF ids] by blast
  next
    case (2 f q)
    from cid [OF 2] show ?case using less old ids_okD(2) [OF ids] by (cases "f = fd") auto
  next
    case (3 f q f' q')
    have ne: "connId (ctx_of s r) \<noteq> nextId (mgr s)" if "m_active (mgr s) g = Some r" for g r
      using ids_okD(2) [OF ids that] by (rule less_imp_neq)
    show ?case
    proof (cases "f = fd"; cases "f' = fd")
      assume "f \<noteq> fd" "f' \<noteq> fd"
      with cid [OF 3(1)] cid [OF 3(2)] 3(3) show ?thesis using ids_okD(3) [OF ids] by simp
    qed (use cid [OF 3(1)] cid [OF 3(2)] 3(3) ne [of f q] ne [of f' q'] in auto)
  next
    case (4 t f q)
    show ?case
    proof (cases "f = fd")
      case True
      with cid [OF 4(2)] 4(3) ids_okD(1) [OF ids 4(1)] show ?thesis by simp
    next
      case False
      with cid [OF 4(2)] 4 show ?thesis using ids_okD(4) [OF ids 4(1)] by simp
    qed
  qed
qed

lemma reap_ids_env:
  assumes ok: "reactor_ok s" and ids: "ids_ok s" and cq: "cq s = e # es" and e: "c_ud e = UdOp None op"
    and room: "nextId (mgr (process_cqe pb e (s\<lparr>cq := es\<rparr>))) \<noteq> 0"
  shows "ids_ok (process_cqe pb e (s\<lparr>cq := es\<rparr>))"
proof -
  let ?s0 = "s\<lparr>cq := es\<rparr>"
  have J: "J {} s" using ok by (simp add: reactor_ok_def)
  have "(None, op) \<in># owed s"
    using cqe_in_ops [of e s None op] e cq by (simp add: owed_def env_ops_def)
  then have op: "op = ACCEPT \<or> op = NOTIFY" using ok by (auto simp: reactor_ok_def)
  have i0: "ids_ok ?s0" by (rule same_calls [OF _ _ _ _ ids]) (simp_all add: calls_def)
  have J0: "J {} ?s0"
    by (rule J_same_mgr [OF J]) (use ops_reap [OF cq] e in \<open>simp_all add: out_def cqe_keys_def\<close>)
  from op show ?thesis
  proof
    assume "op = NOTIFY"
    then have pr: "process_cqe pb e ?s0 = notify_or_defer (handleNotify ?s0)"
      by (simp add: process_cqe_op [OF e] copy_out_other onComplete_def dispatch_cqe_def
          notify_or_defer_def Let_def)
    note k = keeps_handleNotify [of ?s0]
    have q: "m_taskQueue (handleNotify ?s0) = m_taskQueue s" "m_readyCoros (handleNotify ?s0) = []"
      using resume_all_calls by (simp_all add: handleNotify_def Let_def)
    have "ids_ok (handleNotify ?s0)"
      by (rule keeps_ids [OF i0 k]) (use q keepsD(8) [OF k] in \<open>auto simp: calls_def\<close>)
    then show ?thesis unfolding pr
      by (rule same_calls [rotated -1]) (simp_all add: notify_or_defer_simps calls_def)
  next
    assume "op = ACCEPT"
    then have pr: "process_cqe pb e ?s0 =
        accept_or_defer (if c_res e < 0 then ?s0 else accepted (c_res e) ?s0)" (is "_ = accept_or_defer ?s3")
      by (simp add: process_cqe_op [OF e] copy_out_other onComplete_def dispatch_cqe_def handleAccept_alt)
    have "ids_ok ?s3"
    proof (cases "c_res e < 0")
      case False
      let ?s1 = "?s0\<lparr>mgr := snd (acquire (c_res e) (mgr ?s0))\<rparr>"
      note k = accepted_keeps [of "c_res e" ?s0]
      have r: "nextId (mgr ?s0) + 1 \<noteq> 0"
        using room keepsD(10) [OF k] False unfolding pr accept_or_defer_simps by (simp add: acquire_simps)
      have i1: "ids_ok ?s1" by (rule ids_accept [OF i0 J0 r]) (simp_all add: calls_def)
      have "calls (accepted (c_res e) ?s0) = calls ?s1"
        using keepsD(8) [OF k] submit_calls(1) [of "c_res e" ?s1]
        by (auto simp: accepted_def calls_def split: prod.split)
      then show ?thesis using False keeps_ids [OF i1 k] by simp
    qed (use i0 in simp)
    then show ?thesis unfolding pr
      by (rule same_calls [rotated -1]) (simp_all add: accept_or_defer_simps calls_def)
  qed
qed

text \<open>Steps during which the 64-bit id counter has not wrapped around.\<close>

definition fresh_step :: "protobuf \<Rightarrow> provider \<Rightarrow> provider \<Rightarrow> bool" where
  "fresh_step pb s t \<longleftrightarrow> provider_step pb s t \<and> nextId (mgr t) \<noteq> 0"

lemma step_ids:
  assumes step: "provider_step pb s s'" and ok: "reactor_ok s" and ids: "ids_ok s"
    and room: "nextId (mgr s') \<noteq> 0"
  shows "ids_ok s'"
  using step
proof cases
  case (reap e es)
  show ?thesis
  proof (cases "c_ud e")
    case (UdOp c op)
    then show ?thesis
      using reap_ids_connection [OF ok ids reap(2)] reap_ids_env [OF ok ids reap(2)] room
      unfolding reap(1) by (cases c) auto
  next
    case (UdCoro r)
    show ?thesis unfolding reap(1)
      by (rule same_calls [OF _ _ _ _ ids]) (simp_all add: UdCoro process_cqe_def calls_def)
  qed
next
  case submit
  show ?thesis unfolding submit
    by (rule same_calls [OF _ _ _ _ ids]) (simp_all add: retry_simps calls_def flush_sq_def)
next
  case worker_take
  show ?thesis unfolding worker_take
    by (rule ids_ok_step [OF ids]) (auto simp: workerThread_take_def calls_def split: list.splits)
next
  case (worker_done t body)
  show ?thesis unfolding worker_done(1)
    by (rule ids_ok_step [OF ids])
      (use worker_done(2) in \<open>auto simp: onPoolDone_def resumeOnReactor_def calls_def Let_def dest: subsetD [OF set_remove1_subset]\<close>)
qed (rule same_calls [OF _ _ _ _ ids]; simp add: complete_def calls_def)+

interpretation ids: inductive_invariant provider_start "fresh_step pb" "\<lambda>s. reactor_ok s \<and> ids_ok s" for pb
proof (unfold_locales, goal_cases)
  case (1 s)
  then show ?case
    by (auto simp: start_ok, auto simp: provider_start_def ids_ok_def calls_def start_loop_state mgr_init_def)
next
  case (2 s t)
  then show ?case using step_ok [of pb s t] step_ids [of pb s t] by (simp add: fresh_step_def)
qed

end
