(* ===== verification/ReactorFlow.thy ===== *)
theory ReactorFlow
  imports ReactorData
begin

text \<open>
  What the handlers compute: the receive loop dispatches what the stream reader of theory
  WireFormat finds in the input, a send consumes the response queue from its front, and the
  back pressure flag follows the number of unanswered requests.
\<close>

section \<open>The receive loop is the stream reader\<close>

definition requests_of :: "req_item list \<Rightarrow> request list" where
  "requests_of items = concat (map (case_req_item (\<lambda>_. []) (\<lambda>rq. [rq])) items)"

lemma requests_of_simps [simp]:
  "requests_of [] = []" "requests_of (Reject r # items) = requests_of items"
  "requests_of (Request rq # items) = rq # requests_of items"
  by (simp_all add: requests_of_def)

definition call_of :: "int \<Rightarrow> u64 \<Rightarrow> request \<Rightarrow> rpc_task" where
  "call_of fd cid rq = \<lparr>t_fd = fd, t_connId = cid, t_request = rq\<rparr>"

lemma handle_requests_drain:
  assumes "handle_requests pb fd p s = (normal, s')" and "find_conn fd (mgr s) = Some p"
    and "drain (uring_take pb (m_serviceMap s)) uring_closes (input (ctx_of s p)) = (items, rest)"
  shows "m_taskQueue s' = m_taskQueue s @ map (call_of fd (connId (ctx_of s p))) (requests_of items) \<and>
    normal = (\<forall>i\<in>set items. \<not> uring_closes i) \<and>
    find_conn fd (mgr s') = (if normal then Some p else None) \<and>
    (normal \<longrightarrow> ctx_of s' p = (ctx_of s p)\<lparr>input := rest,
        pendingReqs := pendingReqs (ctx_of s p) + int (length items)\<rparr>)"
  using assms
proof (induction pb fd p s arbitrary: normal s' items rule: handle_requests.induct)
  case (1 pb fd p s)
  let ?take = "uring_take pb (m_serviceMap s)"
  show ?case
  proof (cases "?take (input (ctx_of s p))")
    case None
    then have "handle_requests pb fd p s = (True, s)"
      by (subst handle_requests.simps) (simp add: tryHandleRequest_def)
    with 1(2-4) uring.drain_None [OF None] show ?thesis by simp
  next
    case (Some ir)
    obtain item r where ir: "ir = (item, r)" by fastforce
    let ?s1 = "set_ctx p (\<lambda>c. c\<lparr>input := r\<rparr>) s"
    show ?thesis
    proof (cases item)
      case (Reject why)
      have t: "tryHandleRequest pb fd p s = (True, close_fd fd ?s1)"
        using Some ir Reject by (simp add: tryHandleRequest_def Let_def)
      then have "handle_requests pb fd p s = (False, close_fd fd ?s1)"
        by (subst handle_requests.simps) (simp add: find_conn_def close_simps)
      moreover have "items = [item]"
        using uring.drain_final [of pb "m_serviceMap s" "input (ctx_of s p)" item r] Some ir Reject 1(4) by simp
      ultimately show ?thesis using 1(2) Reject by (auto simp: find_conn_def close_simps)
    next
      case (Request rq)
      let ?s2 = "handleRpc fd (connId (ctx_of s p)) rq
          (set_ctx p (\<lambda>c. c\<lparr>pendingReqs := pendingReqs c + 1\<rparr>) ?s1)"
      have t: "tryHandleRequest pb fd p s = (True, ?s2)"
        using Some ir Request by (simp add: tryHandleRequest_def Let_def)
      have act: "find_conn fd (mgr ?s2) = Some p"
        using 1(3) by (simp add: handleRpc_def submitTask_def find_conn_def)
      have st: "m_serviceMap ?s2 = m_serviceMap s"
        "ctx_of ?s2 p = (ctx_of s p)\<lparr>input := r, pendingReqs := pendingReqs (ctx_of s p) + 1\<rparr>"
        "m_taskQueue ?s2 = m_taskQueue s @ [call_of fd (connId (ctx_of s p)) rq]"
        by (simp_all add: handleRpc_def submitTask_def set_ctx_def call_of_def)
      have h: "handle_requests pb fd p ?s2 = (normal, s')"
        using 1(2) t act by (simp add: handle_requests.simps [of pb fd p s])
      obtain items' where d': "drain ?take uring_closes r = (items', rest)" and items: "items = item # items'"
        using uring.drain_step [of pb "m_serviceMap s" "input (ctx_of s p)" item r] Some ir Request 1(4)
        by (cases "drain ?take uring_closes r") auto
      have "drain (uring_take pb (m_serviceMap ?s2)) uring_closes (input (ctx_of ?s2 p)) = (items', rest)"
        using d' by (simp add: st)
      from 1(1) [OF refl t [symmetric] _ _ h act this] act
      show ?thesis by (simp add: st items Request)
    qed
  qed
qed

text \<open>Deliveries of one connection, one after the other.\<close>

definition receive_chunk :: "protobuf \<Rightarrow> int \<Rightarrow> ctx_ptr \<Rightarrow> provider \<Rightarrow> bytes \<Rightarrow> provider" where
  "receive_chunk pb fd p s chunk =
     (if find_conn fd (mgr s) = Some p
      then snd (handle_requests pb fd p (set_ctx p (\<lambda>c. c\<lparr>input := input c @ chunk\<rparr>) s)) else s)"

lemma receive_chunk_feed:
  assumes act: "find_conn fd (mgr s) = Some p"
    and st: "drain (uring_take pb (m_serviceMap s)) uring_closes (input (ctx_of s p) @ chunk) = (items, rest)"
  defines "s' \<equiv> receive_chunk pb fd p s chunk"
  shows "m_taskQueue s' = m_taskQueue s @ map (call_of fd (connId (ctx_of s p))) (requests_of items)"
    and "find_conn fd (mgr s') = (if \<forall>i\<in>set items. \<not> uring_closes i then Some p else None)"
    and "\<forall>i\<in>set items. \<not> uring_closes i \<Longrightarrow> input (ctx_of s' p) = rest"
    and "m_serviceMap s' = m_serviceMap s" and "connId (ctx_of s' p) = connId (ctx_of s p)"
proof -
  let ?s1 = "set_ctx p (\<lambda>c. c\<lparr>input := input c @ chunk\<rparr>) s"
  obtain normal s2 where h: "handle_requests pb fd p ?s1 = (normal, s2)" by fastforce
  have s': "s' = s2" using act h by (simp add: s'_def receive_chunk_def)
  have pre: "find_conn fd (mgr ?s1) = Some p" "m_serviceMap ?s1 = m_serviceMap s"
    "input (ctx_of ?s1 p) = input (ctx_of s p) @ chunk" "m_taskQueue ?s1 = m_taskQueue s"
    "connId (ctx_of ?s1 p) = connId (ctx_of s p)"
    using act by (simp_all add: find_conn_def) (simp add: set_ctx_def)
  note D = handle_requests_drain [OF h pre(1), unfolded pre, OF st]
  note k = keeps_handle_requests [OF h]
  show "m_taskQueue s' = m_taskQueue s @ map (call_of fd (connId (ctx_of s p))) (requests_of items)"
    using D s' by simp
  show "find_conn fd (mgr s') = (if \<forall>i\<in>set items. \<not> uring_closes i then Some p else None)"
    using D s' by simp
  show "\<forall>i\<in>set items. \<not> uring_closes i \<Longrightarrow> input (ctx_of s' p) = rest" using D s' by simp
  show "m_serviceMap s' = m_serviceMap s" "connId (ctx_of s' p) = connId (ctx_of s p)"
    using keepsD(7,12) [OF k] by (simp_all add: s' pre)
qed

lemma requests_of_append: "requests_of (xs @ ys) = requests_of xs @ requests_of ys"
  by (simp add: requests_of_def)

lemma receive_chunks_stuck:
  "find_conn fd (mgr s) \<noteq> Some p \<Longrightarrow> foldl (receive_chunk pb fd p) s cs = s"
  by (induction cs) (simp_all add: receive_chunk_def)

lemma receive_chunks:
  assumes "find_conn fd (mgr s) = Some p"
    and "uring_take pb (m_serviceMap s) (input (ctx_of s p)) = None"
  shows "m_taskQueue (foldl (receive_chunk pb fd p) s cs) = m_taskQueue s @
      map (call_of fd (connId (ctx_of s p))) (requests_of
        (fst (drain (uring_take pb (m_serviceMap s)) uring_closes (input (ctx_of s p) @ concat cs))))"
  using assms
proof (induction cs arbitrary: s)
  case Nil
  then show ?case by (simp add: uring.drain_None)
next
  case (Cons c cs)
  let ?d = "drain (uring_take pb (m_serviceMap s)) uring_closes"
  let ?s1 = "receive_chunk pb fd p s c"
  obtain items rest where d: "?d (input (ctx_of s p) @ c) = (items, rest)" by fastforce
  note R = receive_chunk_feed [OF Cons.prems(1) d]
  show ?case
  proof (cases "\<forall>i\<in>set items. \<not> uring_closes i")
    case False
    then have "find_conn fd (mgr ?s1) \<noteq> Some p" using R(2) by simp
    then have "foldl (receive_chunk pb fd p) s (c # cs) = ?s1" by (simp add: receive_chunks_stuck)
    moreover have "fst (?d ((input (ctx_of s p) @ c) @ concat cs)) = items"
      using uring.drain_append_final [of pb "m_serviceMap s" "input (ctx_of s p) @ c" "concat cs"] False d by simp
    ultimately show ?thesis using R(1) by simp
  next
    case True
    have "find_conn fd (mgr ?s1) = Some p" using R(2) True by simp
    moreover have "uring_take pb (m_serviceMap ?s1) (input (ctx_of ?s1 p)) = None"
      using uring.drain_rest_None [of pb "m_serviceMap s" "input (ctx_of s p) @ c"] True d R(3,4) by simp
    ultimately have IH: "m_taskQueue (foldl (receive_chunk pb fd p) ?s1 cs) = m_taskQueue ?s1 @
      map (call_of fd (connId (ctx_of ?s1 p))) (requests_of
        (fst (drain (uring_take pb (m_serviceMap ?s1)) uring_closes (input (ctx_of ?s1 p) @ concat cs))))"
      by (rule Cons.IH)
    have "fst (?d ((input (ctx_of s p) @ c) @ concat cs)) = items @ fst (?d (rest @ concat cs))"
      using uring.drain_append [of pb "m_serviceMap s" "input (ctx_of s p) @ c" "concat cs"] True d by simp
    then show ?thesis using IH R True by (simp add: requests_of_append)
  qed
qed

section \<open>Responses leave in order\<close>

text \<open>The bytes a connection still has to send.\<close>

definition unsent :: "conn_ctx \<Rightarrow> bytes" where
  "unsent c = drop (written c) (concat (outQueue c))"

lemma submit_queue:
  "submitRecv fd s = (ok, s') \<Longrightarrow> outQueue (ctx_of s' p) = outQueue (ctx_of s p) \<and> written (ctx_of s' p) = written (ctx_of s p)"
  "submitSend fd s = (ok, s') \<Longrightarrow> outQueue (ctx_of s' p) = outQueue (ctx_of s p) \<and> written (ctx_of s' p) = written (ctx_of s p)"
  by (cases s rule: get_sqe_cases;
      auto simp: submitRecv_def submitSend_def Let_def push_sqe_def set_ctx_def onSubmit_def
        split: option.splits prod.splits if_splits list.splits)+

lemma close_queue [simp]:
  "outQueue (m_allConns (close_conn fd m) p) = outQueue (m_allConns m p)"
  "written (m_allConns (close_conn fd m) p) = written (m_allConns m p)"
  by (simp_all add: close_conn_def recycle_def Let_def split: option.split)

lemma finish_response_queue:
  assumes "finish_response fd p s = (go_on, s')"
  shows "outQueue (ctx_of s' p) = tl (outQueue (ctx_of s p)) \<and> written (ctx_of s' p) = 0"
proof -
  let ?pop = "set_ctx p (\<lambda>c. c\<lparr>outQueue := tl (outQueue c), written := 0,
                             pendingReqs := pendingReqs c - 1\<rparr>) s"
  let ?res = "set_ctx p (\<lambda>c. c\<lparr>readPaused := False\<rparr>) ?pop"
  obtain ok s3 where r: "submitRecv fd ?res = (ok, s3)" by fastforce
  show ?thesis using assms r submit_queue(1) [OF r, of p]
    unfolding finish_response_def Let_def by (auto split: if_splits)
qed

lemma handleSend_unsent:
  assumes q: "outQueue (ctx_of s p) = front # q" and r: "0 < result"
    and fits: "written (ctx_of s p) + nat result \<le> length front"
  shows "unsent (ctx_of (handleSend p result s) p) = drop (nat result) (unsent (ctx_of s p))"
proof -
  let ?fd = "cfd (ctx_of s p)"
  let ?s1 = "set_ctx p (\<lambda>c. c\<lparr>written := written c + nat result\<rparr>) s"
  have q1: "outQueue (ctx_of ?s1 p) = front # q" "written (ctx_of ?s1 p) = written (ctx_of s p) + nat result"
    using q by simp_all
  have u1: "unsent (ctx_of ?s1 p) = drop (nat result) (unsent (ctx_of s p))"
    by (simp add: unsent_def add.commute)
  obtain go_on s2 where g: "(if length front \<le> written (ctx_of ?s1 p)
      then finish_response ?fd p ?s1 else (True, ?s1)) = (go_on, s2)" by fastforce
  have u2: "unsent (ctx_of s2 p) = unsent (ctx_of ?s1 p)"
  proof (cases "length front \<le> written (ctx_of ?s1 p)")
    case True
    then have "outQueue (ctx_of s2 p) = q" "written (ctx_of s2 p) = 0"
      using g finish_response_queue [of ?fd p ?s1 go_on s2] q1 by auto
    then show ?thesis using True fits q q1 by (simp add: unsent_def)
  next
    case False
    then have "s2 = ?s1" using g by auto
    then show ?thesis by simp
  qed
  obtain ok s3 where sub: "submitSend ?fd s2 = (ok, s3)" by fastforce
  have "handleSend p result s =
      (if \<not> go_on then s2
       else if outQueue (ctx_of s2 p) = [] then set_ctx p (\<lambda>c. c\<lparr>sending := False\<rparr>) s2
       else if \<not> ok then close_fd ?fd s3 else s3)"
    using r q g sub by (simp add: handleSend_def Let_def)
  moreover have "unsent (ctx_of s3 p) = unsent (ctx_of s2 p)" "unsent (ctx_of (close_fd ?fd s3) p) = unsent (ctx_of s3 p)"
    "unsent (ctx_of (set_ctx p (\<lambda>c. c\<lparr>sending := False\<rparr>) s2) p) = unsent (ctx_of s2 p)"
    using submit_queue(2) [OF sub, of p] by (simp_all add: unsent_def)
  ultimately show ?thesis using u1 u2 by presburger
qed

lemma deliverResponse_unsent:
  assumes act: "m_active (mgr s) fd = Some p" and id: "connId (ctx_of s p) = cid"
    and w: "written (ctx_of s p) \<le> length (concat (outQueue (ctx_of s p)))"
  shows "unsent (ctx_of (deliverResponse fd cid data s) p) = unsent (ctx_of s p) @ data"
proof -
  let ?s1 = "set_ctx p (\<lambda>c. c\<lparr>outQueue := outQueue c @ [data]\<rparr>) s"
  have "unsent (ctx_of ?s1 p) = unsent (ctx_of s p) @ data" using w by (simp add: unsent_def)
  moreover obtain ok s2 where sub: "submitSend fd ?s1 = (ok, s2)" by fastforce
  ultimately show ?thesis
    using act id sub submit_queue(2) [OF sub, of p]
    by (auto simp: deliverResponse_def find_conn_def Let_def unsent_def)
qed

section \<open>Back pressure\<close>

definition flow :: "conn_ctx \<Rightarrow> bool \<times> int" where
  "flow c = (readPaused c, pendingReqs c)"

lemma flow_submit:
  "submitRecv fd s = (ok, s') \<Longrightarrow> flow (ctx_of s' p) = flow (ctx_of s p)"
  "submitSend fd s = (ok, s') \<Longrightarrow> flow (ctx_of s' p) = flow (ctx_of s p)"
  by (cases s rule: get_sqe_cases;
      auto simp: submitRecv_def submitSend_def Let_def push_sqe_def set_ctx_def onSubmit_def flow_def
        split: option.splits prod.splits if_splits list.splits)+

lemma flow_close [simp]:
  "flow (m_allConns (close_conn fd m) p) = flow (m_allConns m p)"
  "readPaused (m_allConns (close_conn fd m) p) = readPaused (m_allConns m p)"
  "pendingReqs (m_allConns (close_conn fd m) p) = pendingReqs (m_allConns m p)"
  by (simp_all add: close_conn_def recycle_def Let_def flow_def split: option.split)

lemma flow_deliver [simp]: "flow (ctx_of (deliverResponse fd cid data s) p) = flow (ctx_of s p)"
proof (cases "find_conn fd (mgr s)")
  case (Some q)
  let ?s1 = "set_ctx q (\<lambda>c. c\<lparr>outQueue := outQueue c @ [data]\<rparr>) s"
  obtain ok s2 where sub: "submitSend fd ?s1 = (ok, s2)" by fastforce
  have "flow (ctx_of ?s1 p) = flow (ctx_of s p)" by (simp add: flow_def)
  then show ?thesis using Some sub flow_submit(2) [OF sub, of p] by (simp add: deliverResponse_def Let_def)
qed (simp add: deliverResponse_def)

lemma flow_resume_all: "flow (ctx_of (foldl (\<lambda>s h. resume_handleRpc h s) s hs) p) = flow (ctx_of s p)"
proof (induction hs arbitrary: s)
  case (Cons h hs)
  have "flow (ctx_of (resume_handleRpc h s) p) = flow (ctx_of s p)"
    by (simp add: resume_handleRpc_def split: prod.split)
  then show ?case using Cons by simp
qed simp

lemma flow_tryHandleRequest:
  "tryHandleRequest pb fd p s = (again, s') \<Longrightarrow>
     readPaused (ctx_of s' p) = readPaused (ctx_of s p) \<and> (q \<noteq> p \<longrightarrow> flow (ctx_of s' q) = flow (ctx_of s q))"
  by (auto simp: tryHandleRequest_def handleRpc_def submitTask_def flow_def Let_def
      split: option.splits req_item.splits)

lemma flow_handle_requests:
  "handle_requests pb fd p s = (normal, s') \<Longrightarrow>
     readPaused (ctx_of s' p) = readPaused (ctx_of s p) \<and> (q \<noteq> p \<longrightarrow> flow (ctx_of s' q) = flow (ctx_of s q))"
proof (induction pb fd p s arbitrary: normal s' rule: handle_requests.induct)
  case (1 pb fd p s)
  obtain again s1 where t: "tryHandleRequest pb fd p s = (again, s1)" by fastforce
  note T = flow_tryHandleRequest [OF t, of q]
  show ?case
  proof (cases "again \<and> find_conn fd (mgr s1) \<noteq> None")
    case True
    then have "handle_requests pb fd p s1 = (normal, s')"
      using 1(2) t by (auto simp: handle_requests.simps [of pb fd p s])
    with True have "readPaused (ctx_of s' p) = readPaused (ctx_of s1 p) \<and>
        (q \<noteq> p \<longrightarrow> flow (ctx_of s' q) = flow (ctx_of s1 q))"
      by (intro 1(1) [OF refl t [symmetric]]) simp_all
    then show ?thesis using T by auto
  next
    case False
    then have "handle_requests pb fd p s = (\<not> again, s1)"
      by (subst handle_requests.simps) (simp add: t)
    then show ?thesis using 1(2) T by simp
  qed
qed

definition flow_ok :: "conn_ctx \<Rightarrow> bool" where
  "flow_ok c \<longleftrightarrow> readPaused c = (kMaxInflightPerConn \<le> pendingReqs c)"

definition pause_ok :: "provider \<Rightarrow> bool" where
  "pause_ok s \<longleftrightarrow> (\<forall>fd p. m_active (mgr s) fd = Some p \<longrightarrow> flow_ok (ctx_of s p))"

lemma flow_ok_cong: "flow c = flow c' \<Longrightarrow> flow_ok c = flow_ok c'"
  by (simp add: flow_def flow_ok_def)

lemma handleRecv_flow:
  assumes J: "J {(p, RECV)} s" and act: "m_active (mgr s) fd = Some p" and ok: "flow_ok (ctx_of s p)"
  shows "q \<noteq> p \<Longrightarrow> flow (ctx_of (handleRecv pb p r s) q) = flow (ctx_of s q)"
    and "m_active (mgr (handleRecv pb p r s)) fd = Some p \<Longrightarrow> flow_ok (ctx_of (handleRecv pb p r s) p)"
proof -
  have fd: "cfd (ctx_of s p) = fd" and open_: "\<not> closing (ctx_of s p)" using J_active [OF J act] by auto
  have np: "\<not> readPaused (ctx_of s p)"
    using J_conn [OF J act] by (auto simp: conn_ok_def held_def split: if_splits)
  obtain normal s1 where h: "handle_requests pb fd p s = (normal, s1)" by fastforce
  obtain ok s2 where r: "submitRecv fd s1 = (ok, s2)" by fastforce
  obtain ok' s3 where r': "submitRecv fd s = (ok', s3)" by fastforce
  let ?paused = "set_ctx p (\<lambda>c. c\<lparr>readPaused := True\<rparr>) s1"
  have eq: "handleRecv pb p r s =
      (if r \<le> 0 then (if r = - ENOBUFS then (if \<not> ok' then close_fd fd s3 else s3) else close_fd fd s)
       else if \<not> normal then s1
       else if kMaxInflightPerConn \<le> pendingReqs (ctx_of s1 p) then ?paused
       else if \<not> ok then close_fd fd s2 else s2)"
    using h r r' by (simp add: handleRecv_def fd open_ Let_def)
  note H = flow_handle_requests [OF h] note R = flow_submit(1) [OF r] and R' = flow_submit(1) [OF r']
  show "flow (ctx_of (handleRecv pb p r s) q) = flow (ctx_of s q)" if "q \<noteq> p"
    unfolding eq using that H [of q] R [of q] R' [of q] by (simp add: flow_def)
  assume a: "m_active (mgr (handleRecv pb p r s)) fd = Some p"
  show "flow_ok (ctx_of (handleRecv pb p r s) p)"
  proof (cases "r \<le> 0 \<or> \<not> normal")
    case True
    have "\<not> normal \<Longrightarrow> m_active (mgr s1) fd \<noteq> Some p"
    proof -
      assume "\<not> normal"
      obtain items rest where d: "drain (uring_take pb (m_serviceMap s)) uring_closes (input (ctx_of s p)) = (items, rest)"
        by fastforce
      from handle_requests_drain [OF h _ d] act \<open>\<not> normal\<close> show ?thesis by (simp add: find_conn_def)
    qed
    with a True show ?thesis unfolding eq
      using ok R' [of p] flow_ok_cong [of "ctx_of s3 p" "ctx_of s p"]
      by (auto simp: close_simps split: if_splits)
  next
    case False
    moreover have "flow_ok (ctx_of ?paused p)" if "kMaxInflightPerConn \<le> pendingReqs (ctx_of s1 p)"
      using that by (simp add: flow_ok_def)
    moreover have "flow_ok (ctx_of s2 p)" if "\<not> kMaxInflightPerConn \<le> pendingReqs (ctx_of s1 p)"
      using that R [of p] H [of p] np by (simp add: flow_ok_def flow_def)
    ultimately show ?thesis using a unfolding eq by (auto simp: close_simps split: if_splits)
  qed
qed

lemma finish_response_flow:
  assumes f: "finish_response fd p s = (go_on, s')" and ok: "flow_ok (ctx_of s p)"
  shows "q \<noteq> p \<Longrightarrow> flow (ctx_of s' q) = flow (ctx_of s q)" and "flow_ok (ctx_of s' p)"
proof -
  let ?pop = "set_ctx p (\<lambda>c. c\<lparr>outQueue := tl (outQueue c), written := 0,
                             pendingReqs := pendingReqs c - 1\<rparr>) s"
  let ?res = "set_ctx p (\<lambda>c. c\<lparr>readPaused := False\<rparr>) ?pop"
  obtain ok' s3 where r: "submitRecv fd ?res = (ok', s3)" by fastforce
  have s': "s' = (if readPaused (ctx_of ?pop p) \<and> pendingReqs (ctx_of ?pop p) < kMaxInflightPerConn
      then (if \<not> ok' then close_fd fd s3 else s3) else ?pop)"
    using f r unfolding finish_response_def Let_def by (auto split: if_splits)
  show "q \<noteq> p \<Longrightarrow> flow (ctx_of s' q) = flow (ctx_of s q)"
    unfolding s' using flow_submit(1) [OF r, of q] by (simp add: flow_def)
  have "flow (ctx_of s3 p) = (False, pendingReqs (ctx_of s p) - 1)"
    using flow_submit(1) [OF r, of p] by (simp add: flow_def)
  moreover have "flow (ctx_of (close_fd fd s3) p) = flow (ctx_of s3 p)" by simp
  ultimately show "flow_ok (ctx_of s' p)"
    unfolding s' using ok by (auto simp: flow_ok_def flow_def)
qed

lemma handleSend_flow:
  assumes ok: "flow_ok (ctx_of s p)"
  shows "q \<noteq> p \<Longrightarrow> flow (ctx_of (handleSend p r s) q) = flow (ctx_of s q)"
    and "flow_ok (ctx_of (handleSend p r s) p)"
proof -
  let ?fd = "cfd (ctx_of s p)"
  let ?s1 = "set_ctx p (\<lambda>c. c\<lparr>written := written c + nat r\<rparr>) s"
  have f1: "flow (ctx_of ?s1 q) = flow (ctx_of s q)" for q by (simp add: flow_def)
  have ok1: "flow_ok (ctx_of ?s1 p)" using ok flow_ok_cong [OF f1] by blast
  obtain go_on s2 where g: "(if length (hd (outQueue (ctx_of s p))) \<le> written (ctx_of ?s1 p)
      then finish_response ?fd p ?s1 else (True, ?s1)) = (go_on, s2)" by fastforce
  have F: "q \<noteq> p \<Longrightarrow> flow (ctx_of s2 q) = flow (ctx_of s q)" "flow_ok (ctx_of s2 p)" for q
    using finish_response_flow [of ?fd p ?s1 go_on s2] ok1 g f1 by (auto split: if_splits)
  obtain ok s3 where sub: "submitSend ?fd s2 = (ok, s3)" by fastforce
  note S = flow_submit(2) [OF sub]
  have eq: "handleSend p r s =
      (if r \<le> 0 then close_fd ?fd s else if outQueue (ctx_of s p) = [] then ?s1\<lparr>ub := True\<rparr>
       else if \<not> go_on then s2
       else if outQueue (ctx_of s2 p) = [] then set_ctx p (\<lambda>c. c\<lparr>sending := False\<rparr>) s2
       else if \<not> ok then close_fd ?fd s3 else s3)"
    using g sub by (cases "outQueue (ctx_of s p)") (simp_all add: handleSend_def Let_def)
  show "flow (ctx_of (handleSend p r s) q) = flow (ctx_of s q)" if "q \<noteq> p"
    unfolding eq using that F(1) S [of q] f1 [of q] by (simp add: flow_def)
  have c: "flow_ok (ctx_of (close_fd fd t) p) = flow_ok (ctx_of t p)" for fd t
    by (rule flow_ok_cong) simp
  show "flow_ok (ctx_of (handleSend p r s) p)"
    unfolding eq using F(2) ok1 \<open>flow_ok (ctx_of s p)\<close> flow_ok_cong [OF S [of p]]
    by (auto simp: c, auto simp: flow_ok_def)
qed


section \<open>Back pressure in the running server\<close>

lemma pause_same:
  "pause_ok s \<Longrightarrow> (\<And>fd p. m_active (mgr s') fd = Some p \<Longrightarrow>
     m_active (mgr s) fd = Some p \<and> flow (ctx_of s' p) = flow (ctx_of s p)) \<Longrightarrow> pause_ok s'"
  unfolding pause_ok_def using flow_ok_cong by blast

lemma pause_reap_connection:
  assumes ok: "reactor_ok s" and pause: "pause_ok s" and cq: "cq s = e # es" and e: "c_ud e = UdOp (Some p) op"
  shows "pause_ok (process_cqe pb e (s\<lparr>cq := es\<rparr>))"
proof -
  let ?t = "process_cqe pb e (s\<lparr>cq := es\<rparr>)"
  have "J {} s" using ok by (simp add: reactor_ok_def)
  from this cq e obtain s2 where s2: "?t = s2 \<and> J {} s2 \<or>
     ?t = dispatch_cqe pb op (Some p) (c_res e) s2 \<and>
       (\<exists>fd. m_active (mgr s2) fd = Some p \<and> J {(p, op)} s2 \<and>
         (op = SEND \<longrightarrow> outQueue (ctx_of s2 p) \<noteq> []) \<and> (op = RECV \<or> op = SEND))"
    and f: "m_active (mgr s2) = m_active (mgr s)"
    "\<And>q. readPaused (ctx_of s2 q) = readPaused (ctx_of s q)"
    "\<And>q. pendingReqs (ctx_of s2 q) = pendingReqs (ctx_of s q)"
    by (rule reap_connection_state [where pb = pb]) (rule that)
  have p2: "pause_ok s2" by (rule pause_same [OF pause]) (simp add: f flow_def)
  from s2 show ?thesis
  proof
    assume d: "?t = dispatch_cqe pb op (Some p) (c_res e) s2 \<and>
       (\<exists>fd. m_active (mgr s2) fd = Some p \<and> J {(p, op)} s2 \<and>
         (op = SEND \<longrightarrow> outQueue (ctx_of s2 p) \<noteq> []) \<and> (op = RECV \<or> op = SEND))"
    then obtain fd where act: "m_active (mgr s2) fd = Some p" and J2: "J {(p, op)} s2"
      and op: "op = RECV \<or> op = SEND" by blast
    have okp: "flow_ok (ctx_of s2 p)" using p2 act by (simp add: pause_ok_def)
    have k: "keeps s2 ?t"
      using d op keeps_handleRecv keeps_handleSend by (auto simp: dispatch_cqe_def)
    have "flow_ok (ctx_of ?t q)" if a: "m_active (mgr ?t) fd' = Some q" for fd' q
    proof (cases "q = p")
      case False
      then have "flow (ctx_of ?t q) = flow (ctx_of s2 q)"
        using d op handleRecv_flow(1) [OF _ act okp] J2 handleSend_flow(1) [OF okp]
        by (auto simp: dispatch_cqe_def)
      moreover have "flow_ok (ctx_of s2 q)" using p2 keepsD(14) [OF k a] by (simp add: pause_ok_def)
      ultimately show ?thesis using flow_ok_cong by blast
    next
      case True
      have "fd' = fd" using mgr_ok_inj [OF J_mgr [OF J2] act] keepsD(14) [OF k a] True by simp
      then show ?thesis
        using d op handleRecv_flow(2) [OF _ act okp] J2 handleSend_flow(2) [OF okp] a True
        by (auto simp: dispatch_cqe_def)
    qed
    then show ?thesis by (simp add: pause_ok_def)
  qed (use p2 in simp)
qed

lemma pause_reap_env:
  assumes ok: "reactor_ok s" and pause: "pause_ok s" and cq: "cq s = e # es" and e: "c_ud e = UdOp None op"
  shows "pause_ok (process_cqe pb e (s\<lparr>cq := es\<rparr>))"
proof -
  let ?s0 = "s\<lparr>cq := es\<rparr>"
  have J: "J {} s" using ok by (simp add: reactor_ok_def)
  have "(None, op) \<in># owed s"
    using cqe_in_ops [of e s None op] e cq by (simp add: owed_def env_ops_def)
  then have op: "op = ACCEPT \<or> op = NOTIFY" using ok by (auto simp: reactor_ok_def)
  from op show ?thesis
  proof
    assume "op = NOTIFY"
    then have pr: "process_cqe pb e ?s0 = notify_or_defer (handleNotify ?s0)"
      by (simp add: process_cqe_op [OF e] copy_out_other onComplete_def dispatch_notify)
    have "flow (ctx_of (handleNotify ?s0) q) = flow (ctx_of s q)" for q
      using flow_resume_all [of "?s0\<lparr>m_readyCoros := []\<rparr>" "m_readyCoros s" q] by (simp add: handleNotify_def Let_def)
    then show ?thesis unfolding pr
      by (intro pause_same [OF pause]) (use keepsD(14) [OF keeps_handleNotify [of ?s0]] in \<open>auto simp: notify_or_defer_simps\<close>)
  next
    assume "op = ACCEPT"
    then have pr: "process_cqe pb e ?s0 =
        accept_or_defer (if c_res e < 0 then ?s0 else accepted (c_res e) ?s0)"
      by (simp add: process_cqe_op [OF e] copy_out_other onComplete_def dispatch_cqe_def handleAccept_alt)
    have "pause_ok (accepted (c_res e) ?s0)"
    proof -
      let ?s1 = "?s0\<lparr>mgr := snd (acquire (c_res e) (mgr ?s0))\<rparr>"
      obtain b s2 where r: "submitRecv (c_res e) ?s1 = (b, s2)" by fastforce
      have fl: "flow (ctx_of (accepted (c_res e) ?s0) q) = flow (ctx_of ?s1 q)" for q
        using r flow_submit(1) [OF r, of q] by (simp add: accepted_def)
      have "pause_ok ?s1"
        unfolding pause_ok_def
      proof (intro allI impI)
        fix fd q assume a: "m_active (mgr ?s1) fd = Some q"
        show "flow_ok (ctx_of ?s1 q)"
        proof (cases "q = acquire_ptr (mgr s)")
          case True
          then show ?thesis by (simp add: acquire_ctx flow_ok_def kMaxInflightPerConn_def)
        next
          case False
          then show ?thesis using a pause by (auto simp: acquire_ctx acquire_simps pause_ok_def split: if_splits)
        qed
      qed
      then show ?thesis by (rule pause_same) (use fl keepsD(14) [OF accepted_keeps] in blast)
    qed
    moreover have "pause_ok ?s0" using pause by (simp add: pause_ok_def)
    ultimately have "pause_ok (if c_res e < 0 then ?s0 else accepted (c_res e) ?s0)" by simp
    then show ?thesis unfolding pr by (rule pause_same) (simp add: accept_or_defer_simps)
  qed
qed

lemma step_pause:
  assumes step: "provider_step pb s s'" and ok: "reactor_ok s" and pause: "pause_ok s"
  shows "pause_ok s'"
  using step
proof cases
  case (reap e es)
  show ?thesis
  proof (cases "c_ud e")
    case (UdOp c op)
    then show ?thesis unfolding reap(1)
      using pause_reap_connection [OF ok pause reap(2)] pause_reap_env [OF ok pause reap(2)] by (cases c) auto
  next
    case (UdCoro r)
    show ?thesis unfolding reap(1)
      by (rule pause_same [OF pause]) (simp add: UdCoro process_cqe_def)
  qed
next
  case submit
  show ?thesis unfolding submit by (rule pause_same [OF pause]) (simp add: retry_simps flush_sq_def)
next
  case worker_take
  show ?thesis unfolding worker_take
    by (rule pause_same [OF pause]) (auto simp: workerThread_take_def split: list.splits)
next
  case (worker_done t body)
  show ?thesis unfolding worker_done(1)
    by (rule pause_same [OF pause]) (simp add: onPoolDone_def resumeOnReactor_def Let_def)
qed (rule pause_same [OF pause]; simp add: complete_def)+

interpretation back_pressure: inductive_invariant provider_start "provider_step pb"
  "\<lambda>s. reactor_ok s \<and> pause_ok s" for pb
proof (unfold_locales, goal_cases)
  case (1 s)
  then show ?case
    by (auto simp: start_ok, auto simp: provider_start_def pause_ok_def start_loop_state mgr_init_def)
next
  case (2 s t)
  then show ?case using step_ok [of pb s t] step_pause [of pb s t] by simp
qed

end
