(* ===== verification/ReactorSend.thy ===== *)
theory ReactorSend
  imports ReactorFlow
begin

text \<open>
  What the sends of the io_uring server carry: a send of an open connection that is prepared or
  in the kernel holds exactly the unsent rest of the connection's front response, and its
  completion reports at most that many bytes. So partial writes neither skip nor repeat a byte.
\<close>

section \<open>The invariant\<close>

definition front_rest :: "conn_ctx \<Rightarrow> bytes" where
  "front_rest c = drop (written c) (hd (outQueue c))"

definition sends_at :: "provider \<Rightarrow> int \<Rightarrow> ctx_ptr \<Rightarrow> bool" where
  "sends_at s fd p \<longleftrightarrow>
     (\<forall>e\<in>set (sq s @ inkernel s). s_ctx e = Some p \<and> s_op e = SEND \<longrightarrow>
        s_kind e = PrepSend fd (front_rest (ctx_of s p))) \<and>
     (\<forall>e\<in>set (cq s). c_ud e = UdOp (Some p) SEND \<longrightarrow> c_res e \<le> int (length (front_rest (ctx_of s p))))"

definition sends_ok :: "provider \<Rightarrow> bool" where
  "sends_ok s \<longleftrightarrow> (\<forall>fd p. m_active (mgr s) fd = Some p \<longrightarrow> sends_at s fd p)"

text \<open>A handler keeps the invariant of every connection it leaves open, and opens none.\<close>

definition pres :: "provider \<Rightarrow> provider \<Rightarrow> bool" where
  "pres s s' \<longleftrightarrow> (\<forall>fd p. m_active (mgr s') fd = Some p \<longrightarrow>
     m_active (mgr s) fd = Some p \<and> (sends_at s fd p \<longrightarrow> sends_at s' fd p))"

lemma pres_refl [simp]: "pres s s"
  by (simp add: pres_def)

lemma pres_trans [trans]: "pres s t \<Longrightarrow> pres t u \<Longrightarrow> pres s u"
  by (auto simp: pres_def)

lemma pres_ok: "sends_ok s \<Longrightarrow> pres s s' \<Longrightarrow> sends_ok s'"
  by (auto simp: pres_def sends_ok_def)

definition one_fd :: "provider \<Rightarrow> bool" where
  "one_fd s \<longleftrightarrow> (\<forall>fd fd' p. m_active (mgr s) fd = Some p \<longrightarrow> m_active (mgr s) fd' = Some p \<longrightarrow> fd = fd')"

lemma one_fd_J: "J X s \<Longrightarrow> one_fd s"
  unfolding one_fd_def using mgr_ok_inj J_mgr by blast

lemma one_fd_pres: "one_fd s \<Longrightarrow> pres s s' \<Longrightarrow> one_fd s'"
  by (auto simp: one_fd_def pres_def)

lemma no_send_at:
  assumes "out s p SEND = 0"
  shows "sends_at s fd p"
proof -
  have "(Some p, SEND) \<notin># ops s" using assms by (simp add: out_def not_in_iff)
  then show ?thesis unfolding sends_at_def ops_def by (force simp: sqe_key_def cqe_keys_def)
qed

lemma sends_at_cong:
  assumes "set (sq s' @ inkernel s') \<subseteq> set (sq s @ inkernel s)" and "set (cq s') \<subseteq> set (cq s)"
    and "front_rest (ctx_of s' p) = front_rest (ctx_of s p)" and "sends_at s fd p"
  shows "sends_at s' fd p"
  using assms unfolding sends_at_def by (simp only:) blast

section \<open>The operations\<close>

lemma pres_same:
  assumes "set (sq s' @ inkernel s') \<subseteq> set (sq s @ inkernel s)" and "set (cq s') \<subseteq> set (cq s)"
    and "\<And>fd p. m_active (mgr s') fd = Some p \<Longrightarrow>
      m_active (mgr s) fd = Some p \<and> front_rest (ctx_of s' p) = front_rest (ctx_of s p)"
  shows "pres s s'"
  unfolding pres_def using assms(3) sends_at_cong [OF assms(1,2)] by blast

lemma pres_set_ctx: "(\<And>c. front_rest (f c) = front_rest c) \<Longrightarrow> pres s (set_ctx p f s)"
  by (rule pres_same) (auto simp: set_ctx_def)

lemma pres_set_idle:
  assumes "out s p SEND = 0"
  shows "pres s (set_ctx p f s)"
proof -
  have "sends_at (set_ctx p f s) fd p" for fd by (rule no_send_at) (use assms in \<open>simp add: out_def\<close>)
  moreover have "q \<noteq> p \<Longrightarrow> sends_at s fd q \<Longrightarrow> sends_at (set_ctx p f s) fd q" for fd q
    by (rule sends_at_cong [of _ s]) (simp_all add: set_ctx_def)
  moreover have "m_active (mgr (set_ctx p f s)) = m_active (mgr s)" by simp
  ultimately show ?thesis unfolding pres_def by metis
qed

lemma pres_close: "pres s (close_fd fd s)"
proof (rule pres_same)
  fix fd' p
  assume "m_active (mgr (close_fd fd s)) fd' = Some p"
  then show "m_active (mgr s) fd' = Some p \<and> front_rest (ctx_of (close_fd fd s) p) = front_rest (ctx_of s p)"
    by (auto simp: front_rest_def close_simps split: if_splits)
qed (simp_all add: close_fd_def)

lemma pres_submitRecv: "submitRecv fd s = (ok, s') \<Longrightarrow> pres s s'"
  by (cases s rule: get_sqe_cases)
    (auto simp: submitRecv_def Let_def push_sqe_def onSubmit_def pres_def sends_at_def front_rest_def
      split: option.splits prod.splits if_splits)

lemma pres_submitSend:
  assumes "submitSend fd s = (ok, s')" and "one_fd s"
  shows "pres s s'"
  using assms
  by (cases s rule: get_sqe_cases)
    (auto simp: submitSend_def Let_def push_sqe_def onSubmit_def set_ctx_def pres_def sends_at_def front_rest_def
      find_conn_def one_fd_def split: option.splits prod.splits if_splits list.splits)

lemma pres_send_or_close:
  "submitSend fd s = (ok, s') \<Longrightarrow> one_fd s \<Longrightarrow> pres s (if \<not> ok then close_fd fd s' else s')"
  by (cases ok) (auto intro: pres_submitSend pres_trans [OF pres_submitSend pres_close])

lemma pres_recv_or_close: "submitRecv fd s = (ok, s') \<Longrightarrow> pres s (if \<not> ok then close_fd fd s' else s')"
  by (cases ok) (auto intro: pres_submitRecv pres_trans [OF pres_submitRecv pres_close])

section \<open>The handlers\<close>

lemma pres_deliverResponse:
  assumes J: "J {} s"
  shows "pres s (deliverResponse fd cid data s)"
proof (cases "find_conn fd (mgr s)")
  case None
  then show ?thesis by (simp add: deliverResponse_def)
next
  case (Some p)
  then have act: "m_active (mgr s) fd = Some p" by (simp add: find_conn_def)
  let ?s1 = "set_ctx p (\<lambda>c. c\<lparr>outQueue := outQueue c @ [data]\<rparr>) s"
  obtain ok s2 where sub: "submitSend fd ?s1 = (ok, s2)" by fastforce
  have d: "deliverResponse fd cid data s =
      (if connId (ctx_of s p) \<noteq> cid then s
       else if \<not> sending (ctx_of s p) then (if \<not> ok then close_fd fd s2 else s2) else ?s1)"
    using Some sub by (simp add: deliverResponse_def Let_def)
  have 1: "pres s ?s1"
  proof (cases "sending (ctx_of s p)")
    case True
    then have "outQueue (ctx_of s p) \<noteq> []" using J_conn [OF J act] by (auto simp: conn_ok_def held_def)
    then have "front_rest (ctx_of ?s1 q) = front_rest (ctx_of s q)" for q by (simp add: front_rest_def)
    then show ?thesis by (intro pres_same) (simp_all add: set_ctx_def)
  next
    case False
    then have "out s p SEND = 0" using J_conn [OF J act] by (auto simp: conn_ok_def held_def split: if_splits)
    then show ?thesis by (rule pres_set_idle)
  qed
  have "pres ?s1 (if \<not> ok then close_fd fd s2 else s2)"
    by (rule pres_send_or_close [OF sub]) (rule one_fd_pres [OF one_fd_J [OF J] 1])
  from pres_trans [OF 1 this] 1 show ?thesis by (simp only: d pres_refl split: if_split) simp
qed

lemma pres_resume_all: "J {} s \<Longrightarrow> pres s (foldl (\<lambda>s h. resume_handleRpc h s) s hs)"
proof (induction hs arbitrary: s)
  case (Cons h hs)
  have "pres s (resume_handleRpc h s)"
    using pres_deliverResponse [OF Cons.prems] by (simp add: resume_handleRpc_def split: prod.split)
  also have "pres (resume_handleRpc h s) (foldl (\<lambda>s h. resume_handleRpc h s) (resume_handleRpc h s) hs)"
    using J_resume [OF Cons.prems, of h] by (intro Cons.IH) simp
  finally show ?case by simp
qed simp

lemma pres_handleNotify:
  assumes "J {} s"
  shows "pres s (handleNotify s)"
proof -
  let ?s0 = "s\<lparr>m_readyCoros := []\<rparr>"
  have "pres s ?s0" by (rule pres_same) simp_all
  also have "pres ?s0 (handleNotify s)"
    using pres_resume_all [of ?s0 "m_readyCoros s"] J_same_mgr [OF assms, of ?s0]
    by (simp add: handleNotify_def Let_def out_def)
  finally show ?thesis .
qed

lemma pres_tryHandleRequest: "tryHandleRequest pb fd p s = (again, s') \<Longrightarrow> pres s s'"
proof -
  assume t: "tryHandleRequest pb fd p s = (again, s')"
  show ?thesis
  proof (cases "uring_take pb (m_serviceMap s) (input (ctx_of s p))")
    case None
    then show ?thesis using t by (simp add: tryHandleRequest_def)
  next
    case (Some ir)
    obtain item rest where ir: "ir = (item, rest)" by (rule prod.exhaust)
    let ?s1 = "set_ctx p (\<lambda>c. c\<lparr>input := rest\<rparr>) s"
    let ?s2 = "set_ctx p (\<lambda>c. c\<lparr>pendingReqs := pendingReqs c + 1\<rparr>) ?s1"
    have 1: "pres s ?s1" and 2: "pres ?s1 ?s2" by (rule pres_set_ctx; simp add: front_rest_def)+
    have 3: "pres ?s2 (handleRpc fd cid rq ?s2)" for cid rq
      by (rule pres_same) (simp_all add: handleRpc_def submitTask_def)
    have "s' = close_fd fd ?s1 \<or> (\<exists>cid rq. s' = handleRpc fd cid rq ?s2)"
      using t Some ir by (auto simp: tryHandleRequest_def Let_def split: req_item.splits)
    then show ?thesis using pres_trans [OF 1 pres_close] pres_trans [OF pres_trans [OF 1 2] 3] by blast
  qed
qed

lemma pres_handle_requests: "handle_requests pb fd p s = (normal, s') \<Longrightarrow> pres s s'"
proof (induction pb fd p s arbitrary: normal s' rule: handle_requests.induct)
  case (1 pb fd p s)
  obtain again s1 where t: "tryHandleRequest pb fd p s = (again, s1)" by fastforce
  note T = pres_tryHandleRequest [OF t]
  show ?case
  proof (cases "again \<and> find_conn fd (mgr s1) \<noteq> None")
    case True
    then have "handle_requests pb fd p s1 = (normal, s')"
      using 1(2) t by (auto simp: handle_requests.simps [of pb fd p s])
    with True have "pres s1 s'" by (intro 1(1) [OF refl t [symmetric]]) simp_all
    with T show ?thesis by (rule pres_trans)
  next
    case False
    then have "handle_requests pb fd p s = (\<not> again, s1)" by (subst handle_requests.simps) (simp add: t)
    then show ?thesis using 1(2) T by simp
  qed
qed

lemma pres_handleRecv: "pres s (handleRecv pb p r s)"
proof -
  let ?fd = "cfd (ctx_of s p)"
  obtain normal s1 where h: "handle_requests pb ?fd p s = (normal, s1)" by fastforce
  obtain ok s2 where r: "submitRecv ?fd s1 = (ok, s2)" by fastforce
  obtain ok' s3 where r': "submitRecv ?fd s = (ok', s3)" by fastforce
  let ?paused = "set_ctx p (\<lambda>c. c\<lparr>readPaused := True\<rparr>) s1"
  have eq: "handleRecv pb p r s =
      (if closing (ctx_of s p) then s
       else if r \<le> 0 then (if r = - ENOBUFS then (if \<not> ok' then close_fd ?fd s3 else s3) else close_fd ?fd s)
       else if \<not> normal then s1
       else if kMaxInflightPerConn \<le> pendingReqs (ctx_of s1 p) then ?paused
       else if \<not> ok then close_fd ?fd s2 else s2)"
    using h r r' by (simp add: handleRecv_def Let_def)
  have "pres s1 ?paused" by (rule pres_set_ctx) (simp add: front_rest_def)
  then show ?thesis
    unfolding eq using pres_handle_requests [OF h] pres_recv_or_close [OF r] pres_recv_or_close [OF r'] pres_close
    by (auto intro: pres_trans)
qed

lemma pres_handleSend:
  assumes J: "J {(p, SEND)} s" and act: "m_active (mgr s) fd = Some p"
  shows "pres s (handleSend p r s)"
proof -
  have fd: "cfd (ctx_of s p) = fd" using J_active [OF J act] by auto
  have idle: "out s p SEND = 0" using J_conn [OF J act] by (auto simp: conn_ok_def held_def split: if_splits)
  let ?s1 = "set_ctx p (\<lambda>c. c\<lparr>written := written c + nat r\<rparr>) s"
  let ?pop = "set_ctx p (\<lambda>c. c\<lparr>outQueue := tl (outQueue c), written := 0, pendingReqs := pendingReqs c - 1\<rparr>) ?s1"
  let ?res = "set_ctx p (\<lambda>c. c\<lparr>readPaused := False\<rparr>) ?pop"
  have o: "out ?s1 p SEND = 0" "out ?pop p SEND = 0" using idle by (simp_all add: out_def)
  have 1: "pres s ?s1" by (rule pres_set_idle [OF idle])
  have 2: "pres s ?pop" using pres_trans [OF 1 pres_set_idle [OF o(1)]] .
  have 3: "pres s ?res" using pres_trans [OF 2 pres_set_idle [OF o(2)]] .
  obtain ok' s4 where r: "submitRecv fd ?res = (ok', s4)" by fastforce
  have 4: "pres s (if \<not> ok' then close_fd fd s4 else s4)" using pres_trans [OF 3 pres_recv_or_close [OF r]] .
  obtain go_on s2 where g: "(if length (hd (outQueue (ctx_of s p))) \<le> written (ctx_of ?s1 p)
      then finish_response fd p ?s1 else (True, ?s1)) = (go_on, s2)" by fastforce
  have "s2 = ?s1 \<or> s2 = ?pop \<or> s2 = (if \<not> ok' then close_fd fd s4 else s4)"
    using g r unfolding finish_response_def Let_def by (auto split: if_splits)
  then have 5: "pres s s2" using 1 2 4 by blast
  obtain ok s3 where sub: "submitSend fd s2 = (ok, s3)" by fastforce
  have 6: "pres s (if \<not> ok then close_fd fd s3 else s3)"
    using pres_trans [OF 5 pres_send_or_close [OF sub one_fd_pres [OF one_fd_J [OF J] 5]]] .
  have 7: "pres s2 (set_ctx p (\<lambda>c. c\<lparr>sending := False\<rparr>) s2)" by (rule pres_set_ctx) (simp add: front_rest_def)
  have 8: "pres s (?s1\<lparr>ub := True\<rparr>)" by (rule pres_trans [OF 1], rule pres_same) simp_all
  have eq: "handleSend p r s =
      (if r \<le> 0 then close_fd fd s else if outQueue (ctx_of s p) = [] then ?s1\<lparr>ub := True\<rparr>
       else if \<not> go_on then s2
       else if outQueue (ctx_of s2 p) = [] then set_ctx p (\<lambda>c. c\<lparr>sending := False\<rparr>) s2
       else if \<not> ok then close_fd fd s3 else s3)"
    using g sub by (cases "outQueue (ctx_of s p)") (simp_all add: handleSend_def fd Let_def)
  show ?thesis unfolding eq using pres_close 5 6 8 pres_trans [OF 5 7] by simp
qed

section \<open>The running server\<close>

lemma sends_reap_connection:
  assumes ok: "reactor_ok s" and sends: "sends_ok s" and cq: "cq s = e # es" and e: "c_ud e = UdOp (Some p) op"
  shows "sends_ok (process_cqe pb e (s\<lparr>cq := es\<rparr>))"
proof -
  let ?t = "process_cqe pb e (s\<lparr>cq := es\<rparr>)"
  have "J {} s" using ok by (simp add: reactor_ok_def)
  from this cq e obtain s2 where s2: "?t = s2 \<and> J {} s2 \<or>
     ?t = dispatch_cqe pb op (Some p) (c_res e) s2 \<and>
       (\<exists>fd. m_active (mgr s2) fd = Some p \<and> J {(p, op)} s2 \<and>
         (op = SEND \<longrightarrow> outQueue (ctx_of s2 p) \<noteq> []) \<and> (op = RECV \<or> op = SEND))"
    and f: "cq s2 = es" "m_active (mgr s2) = m_active (mgr s)" "sq s2 = sq s" "inkernel s2 = inkernel s"
    "\<And>q. outQueue (ctx_of s2 q) = outQueue (ctx_of s q)" "\<And>q. written (ctx_of s2 q) = written (ctx_of s q)"
    by (rule reap_connection_state [where pb = pb]) (rule that)
  have 2: "sends_ok s2"
    by (rule pres_ok [OF sends], rule pres_same) (auto simp: f cq front_rest_def)
  from s2 show ?thesis
  proof
    assume d: "?t = dispatch_cqe pb op (Some p) (c_res e) s2 \<and>
       (\<exists>fd. m_active (mgr s2) fd = Some p \<and> J {(p, op)} s2 \<and>
         (op = SEND \<longrightarrow> outQueue (ctx_of s2 p) \<noteq> []) \<and> (op = RECV \<or> op = SEND))"
    then have "pres s2 ?t" using pres_handleRecv pres_handleSend by (auto simp: dispatch_cqe_def)
    with 2 show ?thesis by (rule pres_ok)
  qed (use 2 in simp)
qed

lemma pres_env_submit:
  "pres s (accept_or_defer s)" "pres s (notify_or_defer s)" "pres s (retry_accept s)" "pres s (retry_notify s)"
  by (cases s rule: submitAccept_cases; cases s rule: submitNotifyRead_cases;
      auto simp: accept_or_defer_def notify_or_defer_def retry_accept_def retry_notify_def push_sqe_def
        pres_def sends_at_def)+

lemma sends_accepted:
  assumes J: "J {} s" and sends: "sends_ok s" and free: "m_active (mgr s) fd = None"
  shows "sends_ok (accepted fd s)"
proof -
  let ?s1 = "s\<lparr>mgr := snd (acquire fd (mgr s))\<rparr>"
  obtain ok s2 where r: "submitRecv fd ?s1 = (ok, s2)" by fastforce
  have "out s (acquire_ptr (mgr s)) SEND = 0"
  proof (rule ccontr)
    assume "out s (acquire_ptr (mgr s)) SEND \<noteq> 0"
    from J_out_not_idle(1,2) [OF J this] show False by (auto simp: acquire_ptr_def split: if_splits)
  qed
  then have new: "out ?s1 (acquire_ptr (mgr s)) SEND = 0" by simp
  have "sends_ok ?s1"
    unfolding sends_ok_def
  proof (intro allI impI)
    fix fd' q assume a: "m_active (mgr ?s1) fd' = Some q"
    show "sends_at ?s1 fd' q"
    proof (cases "q = acquire_ptr (mgr s)")
      case True
      then show ?thesis using no_send_at [OF new] by simp
    next
      case False
      then have "m_active (mgr s) fd' = Some q" using a by (auto simp: acquire_simps split: if_splits)
      then have "sends_at s fd' q" using sends by (simp add: sends_ok_def)
      then show ?thesis using False by (intro sends_at_cong [of ?s1 s]) (simp_all add: acquire_ctx)
    qed
  qed
  then show ?thesis using pres_ok [OF _ pres_recv_or_close [OF r]] r by (simp add: accepted_def)
qed

lemma sends_reap_env:
  assumes ok: "reactor_ok s" and sends: "sends_ok s" and cq: "cq s = e # es" and e: "c_ud e = UdOp None op"
  shows "sends_ok (process_cqe pb e (s\<lparr>cq := es\<rparr>))"
proof -
  let ?s0 = "s\<lparr>cq := es\<rparr>"
  have J: "J {} s" and acc: "accept_ok s" using ok by (simp_all add: reactor_ok_def)
  have opsr: "ops s = add_mset (None, op) (ops ?s0)" using ops_reap [OF cq] e by (simp add: cqe_keys_def)
  have J0: "J {} ?s0" by (rule J_same_mgr [OF J]) (simp_all add: out_def opsr)
  have s0: "sends_ok ?s0" by (rule pres_ok [OF sends], rule pres_same) (auto simp: cq)
  have "(None, op) \<in># owed s" using cqe_in_ops [of e s None op] e cq by (simp add: owed_def env_ops_def)
  then have "op = ACCEPT \<or> op = NOTIFY" using ok by (auto simp: reactor_ok_def)
  then show ?thesis
  proof
    assume "op = NOTIFY"
    then have pr: "process_cqe pb e ?s0 = notify_or_defer (handleNotify ?s0)"
      by (simp add: process_cqe_op [OF e] copy_out_other onComplete_def dispatch_notify)
    show ?thesis unfolding pr
      by (rule pres_ok [OF pres_ok [OF s0 pres_handleNotify [OF J0]] pres_env_submit(2)])
  next
    assume a: "op = ACCEPT"
    then have pr: "process_cqe pb e ?s0 = accept_or_defer (if c_res e < 0 then ?s0 else accepted (c_res e) ?s0)"
      by (simp add: process_cqe_op [OF e] copy_out_other onComplete_def dispatch_cqe_def handleAccept_alt)
    have "c_res e < 0 \<or> m_active (mgr ?s0) (c_res e) = None" using acc cq e a by (simp add: accept_ok_def)
    then have "sends_ok (if c_res e < 0 then ?s0 else accepted (c_res e) ?s0)"
      using s0 sends_accepted [OF J0 s0] by auto
    then show ?thesis unfolding pr by (rule pres_ok [OF _ pres_env_submit(1)])
  qed
qed

lemma sends_complete:
  assumes "sends_ok s" and "e \<in> set (inkernel s)"
    and "\<And>fd data. s_op e = SEND \<Longrightarrow> s_kind e = PrepSend fd data \<Longrightarrow> res \<le> int (length data)"
  shows "sends_ok (complete e res fl s)"
proof -
  have "set (remove1 e (inkernel s)) \<subseteq> set (inkernel s)" by (rule set_remove1_subset)
  then show ?thesis
    using assms unfolding sends_ok_def sends_at_def complete_def by (auto 0 4)
qed

lemma step_sends:
  assumes step: "provider_step pb s s'" and ok: "reactor_ok s" and sends: "sends_ok s"
  shows "sends_ok s'"
  using step
proof cases
  case (reap e es)
  show ?thesis
  proof (cases "c_ud e")
    case (UdOp c op)
    then show ?thesis unfolding reap(1)
      using sends_reap_connection [OF ok sends reap(2)] sends_reap_env [OF ok sends reap(2)] by (cases c) auto
  next
    case (UdCoro r)
    show ?thesis unfolding reap(1)
      by (rule pres_ok [OF sends], rule pres_same) (auto simp: UdCoro process_cqe_def reap(2))
  qed
next
  case submit
  have "pres s (flush_sq s)" by (rule pres_same) (auto simp: flush_sq_def)
  also have "pres (flush_sq s) (retry_deferred (flush_sq s))"
    unfolding retry_deferred_alt by (rule pres_trans [OF pres_env_submit(3,4)])
  finally show ?thesis unfolding submit using pres_ok [OF sends] by blast
next
  case (k_recv_buffer e bid fl res data)
  have "sends_ok (complete e res fl s)" using sends_complete [OF sends k_recv_buffer(2)] k_recv_buffer(3) by simp
  then show ?thesis unfolding k_recv_buffer(1) by (rule pres_ok, intro pres_same) simp_all
next
  case worker_take
  show ?thesis unfolding worker_take
    by (rule pres_ok [OF sends], rule pres_same) (auto simp: workerThread_take_def split: list.splits)
next
  case (worker_done t body)
  show ?thesis unfolding worker_done(1)
    by (rule pres_ok [OF sends], rule pres_same) (simp_all add: onPoolDone_def resumeOnReactor_def Let_def)
next
  case (sqe_space as)
  show ?thesis unfolding sqe_space by (rule pres_ok [OF sends], rule pres_same) simp_all
next
  case (k_accept e res fl)
  then show ?thesis using sends_complete [OF sends k_accept(2), of res fl] by simp
next
  case (k_recv_none e res fl)
  then show ?thesis using sends_complete [OF sends k_recv_none(2), of res fl] by simp
next
  case (k_send e fd data res fl)
  then show ?thesis using sends_complete [OF sends k_send(2), of res fl] by simp
next
  case (k_notify e res fl)
  then show ?thesis using sends_complete [OF sends k_notify(2), of res fl] by simp
qed

interpretation send_inv: inductive_invariant provider_start "provider_step pb" "\<lambda>s. reactor_ok s \<and> sends_ok s" for pb
proof (unfold_locales, goal_cases)
  case (1 s)
  then show ?case
    by (auto simp: start_ok, auto simp: provider_start_def sends_ok_def start_loop_state mgr_init_def)
next
  case (2 s t)
  then show ?case using step_ok [of pb s t] step_sends [of pb s t] by simp
qed

end
