(* ===== verification/ReactorStream.thy ===== *)
theory ReactorStream
  imports ReactorSend
begin

text \<open>
  The two byte streams of every connection of the io_uring server. The steps of theory
  ReactorSteps are labelled with what crosses the border to the kernel and to the business code,
  and a run records the labels: the bytes the kernel has received and sent for each connection id
  and the answers of the business code. The invariant relates the record to the server's state,
  for any number of connections that come and go: the calls dispatched for an open connection
  are exactly the requests in its received bytes, and what is sent is the answers to them, whole
  and in the order they were given.
\<close>

section \<open>Labelled steps\<close>

text \<open>A receive or send of a context with the bytes it moved, an answer of the business code, or
  nothing that is recorded.\<close>

datatype label =
    Received "ctx_ptr option" bytes
  | Sent "ctx_ptr option" bytes
  | Answered rpc_task "bytes option"
  | Internal

inductive provider_event :: "protobuf \<Rightarrow> provider \<Rightarrow> label \<Rightarrow> provider \<Rightarrow> bool" for pb where
  sqe_space: "provider_event pb s Internal (s\<lparr>sqe_answers := as\<rparr>)"
| submit: "provider_event pb s Internal (retry_deferred (flush_sq s))"
| reap: "cq s = e # es \<Longrightarrow> provider_event pb s Internal (process_cqe pb e (s\<lparr>cq := es\<rparr>))"
| k_accept: "e \<in> set (inkernel s) \<Longrightarrow> s_op e = ACCEPT \<Longrightarrow>
    res < 0 \<or> m_active (mgr s) res = None \<Longrightarrow> provider_event pb s Internal (complete e res fl s)"
| k_recv_buffer: "e \<in> set (inkernel s) \<Longrightarrow> s_op e = RECV \<Longrightarrow> bid \<in> set (buf_ring s) \<Longrightarrow>
    cqe_buffer fl = Some bid \<Longrightarrow> res \<le> int (length data) \<Longrightarrow> length data \<le> kBufSize \<Longrightarrow>
    provider_event pb s (Received (s_ctx e) (take (nat res) data))
      ((complete e res fl s)\<lparr>buf_ring := remove1 bid (buf_ring s),
                             m_bufBase := (m_bufBase s)(bid := data)\<rparr>)"
| k_recv_none: "e \<in> set (inkernel s) \<Longrightarrow> s_op e = RECV \<Longrightarrow> res \<le> 0 \<Longrightarrow> cqe_buffer fl = None \<Longrightarrow>
    provider_event pb s Internal (complete e res fl s)"
| k_send: "e \<in> set (inkernel s) \<Longrightarrow> s_op e = SEND \<Longrightarrow> s_kind e = PrepSend fd data \<Longrightarrow>
    res \<le> int (length data) \<Longrightarrow> provider_event pb s (Sent (s_ctx e) (take (nat res) data)) (complete e res fl s)"
| k_notify: "e \<in> set (inkernel s) \<Longrightarrow> s_op e = NOTIFY \<Longrightarrow> provider_event pb s Internal (complete e res fl s)"
| worker_take: "provider_event pb s Internal (workerThread_take s)"
| worker_done: "t \<in> set (running s) \<Longrightarrow> provider_event pb s (Answered t body) (onPoolDone t body s)"

lemma provider_step_event: "provider_step pb s s' \<longleftrightarrow> (\<exists>l. provider_event pb s l s')"
proof
  assume "provider_step pb s s'"
  then show "\<exists>l. provider_event pb s l s'"
    by (cases rule: provider_step.cases) (auto intro: provider_event.intros)
next
  assume "\<exists>l. provider_event pb s l s'"
  then obtain l where "provider_event pb s l s'" by blast
  then show "provider_step pb s s'"
    by (cases rule: provider_event.cases) (auto intro: provider_step.intros)
qed

section \<open>The record of a run\<close>

record traced =
  srv :: provider
  got :: "u64 \<Rightarrow> bytes"  \<comment> \<open>received, by connection id\<close>
  wire :: "u64 \<Rightarrow> bytes"  \<comment> \<open>sent\<close>
  answered :: "(rpc_task \<times> bytes option) list"

definition log_bytes :: "provider \<Rightarrow> ctx_ptr option \<Rightarrow> bytes \<Rightarrow> (u64 \<Rightarrow> bytes) \<Rightarrow> u64 \<Rightarrow> bytes" where
  "log_bytes s ctx data h =
     (case ctx of None \<Rightarrow> h | Some p \<Rightarrow> h(connId (ctx_of s p) := h (connId (ctx_of s p)) @ data))"

fun record_label :: "label \<Rightarrow> traced \<Rightarrow> traced" where
  "record_label (Received ctx data) s = s\<lparr>got := log_bytes (srv s) ctx data (got s)\<rparr>"
| "record_label (Sent ctx data) s = s\<lparr>wire := log_bytes (srv s) ctx data (wire s)\<rparr>"
| "record_label (Answered t body) s = s\<lparr>answered := answered s @ [(t, body)]\<rparr>"
| "record_label Internal s = s"

text \<open>As in theory ReactorData, the 64-bit counter of connection ids does not wrap around.\<close>

definition traced_step :: "protobuf \<Rightarrow> traced \<Rightarrow> traced \<Rightarrow> bool" where
  "traced_step pb s t \<longleftrightarrow> (\<exists>l v. provider_event pb (srv s) l v \<and> nextId (mgr v) \<noteq> 0 \<and> t = (record_label l s)\<lparr>srv := v\<rparr>)"

definition traced_start :: "traced \<Rightarrow> bool" where
  "traced_start s \<longleftrightarrow> provider_start (srv s) \<and> got s = (\<lambda>_. []) \<and> wire s = (\<lambda>_. []) \<and> answered s = []"

text \<open>The record restricts nothing: the runs with a record are the runs of \<open>fresh_step\<close>.\<close>

lemma traced_step_fresh: "traced_step pb s t \<Longrightarrow> fresh_step pb (srv s) (srv t)"
  by (auto simp: traced_step_def fresh_step_def provider_step_event)

lemma fresh_step_traced: "fresh_step pb (srv s) v \<Longrightarrow> \<exists>t. traced_step pb s t \<and> srv t = v"
  by (force simp: traced_step_def fresh_step_def provider_step_event)

lemma fresh_reach_traced:
  assumes "reach provider_start (fresh_step pb) v"
  shows "\<exists>s. reach traced_start (traced_step pb) s \<and> srv s = v"
  using assms
proof induction
  case (reach_init v)
  then have "traced_start \<lparr>srv = v, got = \<lambda>_. [], wire = \<lambda>_. [], answered = []\<rparr>" by (simp add: traced_start_def)
  then show ?case by (intro exI [of _ "\<lparr>srv = v, got = \<lambda>_. [], wire = \<lambda>_. [], answered = []\<rparr>"]) (simp add: reach.reach_init)
next
  case (reach_step v w)
  then show ?case using fresh_step_traced reach.reach_step by metis
qed

section \<open>What the handlers do to the buffers of a connection\<close>

definition buffered :: "conn_ctx \<Rightarrow> bytes \<times> bytes list \<times> nat" where
  "buffered c = (input c, outQueue c, written c)"

lemma unsent_buffered: "buffered c = buffered c' \<Longrightarrow> unsent c = unsent c' \<and> input c = input c'"
  by (simp add: buffered_def unsent_def)

lemma buffered_submit:
  "submitRecv fd s = (ok, s') \<Longrightarrow> buffered (ctx_of s' p) = buffered (ctx_of s p)"
  "submitSend fd s = (ok, s') \<Longrightarrow> buffered (ctx_of s' p) = buffered (ctx_of s p)"
  by (cases s rule: get_sqe_cases;
      auto simp: submitRecv_def submitSend_def Let_def push_sqe_def set_ctx_def onSubmit_def buffered_def
        split: option.splits prod.splits if_splits list.splits)+

lemma buffered_close [simp]: "buffered (m_allConns (close_conn fd m) p) = buffered (m_allConns m p)"
  by (simp add: close_conn_def recycle_def Let_def buffered_def split: option.split)

lemma buffered_recv_or_close:
  "submitRecv fd s = (ok, s') \<Longrightarrow> buffered (ctx_of (if \<not> ok then close_fd fd s' else s') p) = buffered (ctx_of s p)"
  and buffered_send_or_close:
  "submitSend fd s = (ok, s') \<Longrightarrow> buffered (ctx_of (if \<not> ok then close_fd fd s' else s') p) = buffered (ctx_of s p)"
  by (simp_all add: buffered_submit)

lemma tryHandleRequest_buffered:
  "tryHandleRequest pb fd p s = (again, s') \<Longrightarrow>
     unsent (ctx_of s' q) = unsent (ctx_of s q) \<and> (q \<noteq> p \<longrightarrow> buffered (ctx_of s' q) = buffered (ctx_of s q))"
  by (auto simp: tryHandleRequest_def handleRpc_def submitTask_def unsent_def Let_def
      split: option.splits req_item.splits)

lemma handle_requests_buffered:
  "handle_requests pb fd p s = (normal, s') \<Longrightarrow>
     unsent (ctx_of s' q) = unsent (ctx_of s q) \<and> (q \<noteq> p \<longrightarrow> buffered (ctx_of s' q) = buffered (ctx_of s q))"
proof (induction pb fd p s arbitrary: normal s' rule: handle_requests.induct)
  case (1 pb fd p s)
  obtain again s1 where t: "tryHandleRequest pb fd p s = (again, s1)" by fastforce
  note T = tryHandleRequest_buffered [OF t, of q]
  show ?case
  proof (cases "again \<and> find_conn fd (mgr s1) \<noteq> None")
    case True
    then have h: "handle_requests pb fd p s1 = (normal, s')"
      using 1(2) t by (auto simp: handle_requests.simps [of pb fd p s])
    from True have "unsent (ctx_of s' q) = unsent (ctx_of s1 q) \<and>
        (q \<noteq> p \<longrightarrow> buffered (ctx_of s' q) = buffered (ctx_of s1 q))"
      by (intro 1(1) [OF refl t [symmetric] _ _ h]) simp_all
    with T show ?thesis by simp
  next
    case False
    then have "handle_requests pb fd p s = (\<not> again, s1)" by (subst handle_requests.simps) (simp add: t)
    then show ?thesis using 1(2) T by simp
  qed
qed

lemma handleRecv_buffered:
  "unsent (ctx_of (handleRecv pb p r s) q) = unsent (ctx_of s q) \<and>
   (q \<noteq> p \<longrightarrow> buffered (ctx_of (handleRecv pb p r s) q) = buffered (ctx_of s q))"
proof -
  let ?fd = "cfd (ctx_of s p)"
  obtain normal s1 where h: "handle_requests pb ?fd p s = (normal, s1)" by fastforce
  obtain ok s2 where r: "submitRecv ?fd s1 = (ok, s2)" by fastforce
  obtain ok' s3 where r': "submitRecv ?fd s = (ok', s3)" by fastforce
  have eq: "handleRecv pb p r s =
      (if closing (ctx_of s p) then s
       else if r \<le> 0 then (if r = - ENOBUFS then (if \<not> ok' then close_fd ?fd s3 else s3) else close_fd ?fd s)
       else if \<not> normal then s1
       else if kMaxInflightPerConn \<le> pendingReqs (ctx_of s1 p) then set_ctx p (\<lambda>c. c\<lparr>readPaused := True\<rparr>) s1
       else if \<not> ok then close_fd ?fd s2 else s2)"
    using h r r' by (simp add: handleRecv_def Let_def)
  define P where "P t \<longleftrightarrow> unsent (ctx_of t q) = unsent (ctx_of s q) \<and>
    (q \<noteq> p \<longrightarrow> buffered (ctx_of t q) = buffered (ctx_of s q))" for t
  have same: "P t'" if "P t" "buffered (ctx_of t' q) = buffered (ctx_of t q)" for t t'
    using that unsent_buffered [OF that(2)] by (simp add: P_def)
  have s: "P s" and s1: "P s1" using handle_requests_buffered [OF h, of q] by (simp_all add: P_def)
  have close: "P (close_fd fd t)" if "P t" for fd t by (rule same [OF that]) simp
  have "P (set_ctx p (\<lambda>c. c\<lparr>readPaused := True\<rparr>) s1)" by (rule same [OF s1]) (simp add: buffered_def)
  moreover have "P s2" by (rule same [OF s1 buffered_submit(1) [OF r]])
  moreover have "P s3" by (rule same [OF s buffered_submit(1) [OF r']])
  ultimately have "P (handleRecv pb p r s)" unfolding eq using s s1 close by simp
  then show ?thesis by (simp add: P_def)
qed

text \<open>While the connection stays open the handler turns its input into calls.\<close>

lemma handleRecv_reads:
  assumes act: "m_active (mgr s) fd = Some p" and fd: "cfd (ctx_of s p) = fd" "\<not> closing (ctx_of s p)"
    and d: "drain (uring_take pb (m_serviceMap s)) uring_closes (input (ctx_of s p)) = (items, rest)"
    and zero: "r \<le> 0 \<Longrightarrow> items = [] \<and> rest = input (ctx_of s p)"
    and open': "m_active (mgr (handleRecv pb p r s)) fd = Some p"
  shows "(\<forall>i\<in>set items. \<not> uring_closes i) \<and> input (ctx_of (handleRecv pb p r s) p) = rest \<and>
    m_taskQueue (handleRecv pb p r s) = m_taskQueue s @ map (call_of fd (connId (ctx_of s p))) (requests_of items)"
proof -
  obtain normal s1 where h: "handle_requests pb fd p s = (normal, s1)" by fastforce
  obtain ok s2 where r: "submitRecv fd s1 = (ok, s2)" by fastforce
  obtain ok' s3 where r': "submitRecv fd s = (ok', s3)" by fastforce
  let ?paused = "set_ctx p (\<lambda>c. c\<lparr>readPaused := True\<rparr>) s1"
  have eq: "handleRecv pb p r s =
      (if r \<le> 0 then (if r = - ENOBUFS then (if \<not> ok' then close_fd fd s3 else s3) else close_fd fd s)
       else if \<not> normal then s1
       else if kMaxInflightPerConn \<le> pendingReqs (ctx_of s1 p) then ?paused
       else if \<not> ok then close_fd fd s2 else s2)"
    using h r r' fd by (simp add: handleRecv_def Let_def)
  have D: "m_taskQueue s1 = m_taskQueue s @ map (call_of fd (connId (ctx_of s p))) (requests_of items) \<and>
    normal = (\<forall>i\<in>set items. \<not> uring_closes i) \<and> find_conn fd (mgr s1) = (if normal then Some p else None) \<and>
    (normal \<longrightarrow> ctx_of s1 p = (ctx_of s p)\<lparr>input := rest, pendingReqs := pendingReqs (ctx_of s p) + int (length items)\<rparr>)"
    using handle_requests_drain [OF h _ d] act by (simp add: find_conn_def)
  have q: "m_taskQueue (if \<not> ok then close_fd fd s2 else s2) = m_taskQueue s1"
    "m_taskQueue (if \<not> ok' then close_fd fd s3 else s3) = m_taskQueue s" "m_taskQueue ?paused = m_taskQueue s1"
    using submit_calls(1) [OF r] submit_calls(1) [OF r'] by simp_all
  have i: "input (ctx_of (if \<not> ok then close_fd fd s2 else s2) p) = input (ctx_of s1 p)"
    "input (ctx_of (if \<not> ok' then close_fd fd s3 else s3) p) = input (ctx_of s p)"
    "input (ctx_of ?paused p) = input (ctx_of s1 p)"
    using unsent_buffered [OF buffered_recv_or_close [OF r]] unsent_buffered [OF buffered_recv_or_close [OF r']]
    by simp_all
  have closed: "m_active (mgr (close_fd fd s)) fd = None" for s by (simp add: close_simps)
  show ?thesis
  proof (cases "r \<le> 0")
    case True
    then have "items = []" "rest = input (ctx_of s p)" using zero by auto
    moreover have "r = - ENOBUFS" using open' True closed by (auto simp: eq split: if_splits)
    then have "handleRecv pb p r s = (if \<not> ok' then close_fd fd s3 else s3)"
      unfolding eq using True by (simp split del: if_split)
    ultimately show ?thesis using q(2) i(2) by (simp split del: if_split)
  next
    case False
    have normal
    proof (rule ccontr)
      assume n: "\<not> normal"
      then have "handleRecv pb p r s = s1" unfolding eq using False by simp
      moreover have "m_active (mgr s1) fd = None" using D n by (simp add: find_conn_def)
      ultimately show False using open' by simp
    qed
    then have "handleRecv pb p r s = ?paused \<or> handleRecv pb p r s = (if \<not> ok then close_fd fd s2 else s2)"
      unfolding eq using False by auto
    then show ?thesis using D \<open>normal\<close> q(1,3) i(1,3) by (elim disjE) (simp_all split del: if_split)
  qed
qed

text \<open>A send completion touches the queue of its own connection only.\<close>

lemma finish_response_buffered:
  "finish_response fd p s = (go_on, s') \<Longrightarrow>
     input (ctx_of s' q) = input (ctx_of s q) \<and> (q \<noteq> p \<longrightarrow> buffered (ctx_of s' q) = buffered (ctx_of s q))"
proof -
  assume f: "finish_response fd p s = (go_on, s')"
  let ?pop = "set_ctx p (\<lambda>c. c\<lparr>outQueue := tl (outQueue c), written := 0, pendingReqs := pendingReqs c - 1\<rparr>) s"
  let ?res = "set_ctx p (\<lambda>c. c\<lparr>readPaused := False\<rparr>) ?pop"
  obtain ok s3 where r: "submitRecv fd ?res = (ok, s3)" by fastforce
  have "s' = ?pop \<or> s' = close_fd fd s3 \<or> s' = s3"
    using f r unfolding finish_response_def Let_def by (auto split: if_splits)
  moreover have "input (ctx_of ?pop q) = input (ctx_of s q)" "buffered (ctx_of ?res q) = buffered (ctx_of ?pop q)"
    "q \<noteq> p \<Longrightarrow> buffered (ctx_of ?pop q) = buffered (ctx_of s q)"
    by (simp_all add: buffered_def)
  moreover note buffered_submit(1) [OF r, of q] and unsent_buffered [OF buffered_submit(1) [OF r, of q]]
  ultimately show ?thesis using unsent_buffered [OF buffered_close, of fd "mgr s3" q] by (elim disjE) simp_all
qed

lemma handleSend_buffered:
  "input (ctx_of (handleSend p r s) q) = input (ctx_of s q) \<and>
   (q \<noteq> p \<longrightarrow> buffered (ctx_of (handleSend p r s) q) = buffered (ctx_of s q))"
proof -
  let ?fd = "cfd (ctx_of s p)"
  let ?s1 = "set_ctx p (\<lambda>c. c\<lparr>written := written c + nat r\<rparr>) s"
  define P where "P t \<longleftrightarrow> input (ctx_of t q) = input (ctx_of s q) \<and>
    (q \<noteq> p \<longrightarrow> buffered (ctx_of t q) = buffered (ctx_of s q))" for t
  have same: "P t'" if "P t" "buffered (ctx_of t' q) = buffered (ctx_of t q)" for t t'
    using that unsent_buffered [OF that(2)] by (simp add: P_def)
  have close: "P (close_fd fd t)" if "P t" for fd t by (rule same [OF that]) simp
  have s: "P s" and s1: "P ?s1" by (simp_all add: P_def buffered_def)
  have ub: "P (?s1\<lparr>ub := True\<rparr>)" by (rule same [OF s1]) simp
  obtain go_on s2 where g: "(if length (hd (outQueue (ctx_of s p))) \<le> written (ctx_of ?s1 p)
      then finish_response ?fd p ?s1 else (True, ?s1)) = (go_on, s2)" by fastforce
  have s2: "P s2"
    using g finish_response_buffered [of ?fd p ?s1 go_on s2 q] s1 unfolding P_def by (auto split: if_splits)
  obtain ok s3 where sub: "submitSend ?fd s2 = (ok, s3)" by fastforce
  have s3: "P s3" by (rule same [OF s2 buffered_submit(2) [OF sub]])
  have quiet: "P (set_ctx p (\<lambda>c. c\<lparr>sending := False\<rparr>) s2)" by (rule same [OF s2]) (simp add: buffered_def)
  have eq: "handleSend p r s =
      (if r \<le> 0 then close_fd ?fd s else if outQueue (ctx_of s p) = [] then ?s1\<lparr>ub := True\<rparr>
       else if \<not> go_on then s2
       else if outQueue (ctx_of s2 p) = [] then set_ctx p (\<lambda>c. c\<lparr>sending := False\<rparr>) s2
       else if \<not> ok then close_fd ?fd s3 else s3)"
    using g sub by (cases "outQueue (ctx_of s p)") (simp_all add: handleSend_def Let_def)
  have "P (handleSend p r s)" unfolding eq using s s2 s3 ub quiet close by simp
  then show ?thesis by (simp add: P_def)
qed

text \<open>A response reaches the queue of the connection with its id, and no other.\<close>

lemma deliverResponse_buffered:
  "input (ctx_of (deliverResponse fd cid data s) p) = input (ctx_of s p) \<and>
   (connId (ctx_of s p) \<noteq> cid \<longrightarrow> unsent (ctx_of (deliverResponse fd cid data s) p) = unsent (ctx_of s p))"
proof (cases "find_conn fd (mgr s)")
  case (Some q)
  let ?s1 = "set_ctx q (\<lambda>c. c\<lparr>outQueue := outQueue c @ [data]\<rparr>) s"
  obtain ok s2 where sub: "submitSend fd ?s1 = (ok, s2)" by fastforce
  have d: "deliverResponse fd cid data s = (if connId (ctx_of s q) \<noteq> cid then s
      else if \<not> sending (ctx_of s q) then (if \<not> ok then close_fd fd s2 else s2) else ?s1)"
    using Some sub by (simp add: deliverResponse_def Let_def)
  have b: "buffered (ctx_of (if \<not> ok then close_fd fd s2 else s2) p) = buffered (ctx_of ?s1 p)"
    by (rule buffered_send_or_close [OF sub])
  have "input (ctx_of ?s1 p) = input (ctx_of s p)"
    "connId (ctx_of s q) = cid \<Longrightarrow> connId (ctx_of s p) \<noteq> cid \<Longrightarrow> unsent (ctx_of ?s1 p) = unsent (ctx_of s p)"
    by (simp_all add: unsent_def) blast
  then show ?thesis using unsent_buffered [OF b] by (simp add: d split del: if_split) (simp split: if_split)
qed (simp add: deliverResponse_def)

lemma resume_all_buffered:
  assumes "J {} s" and "m_active (mgr (foldl (\<lambda>s h. resume_handleRpc h s) s hs)) fd = Some p"
    and "\<forall>h\<in>set hs. t_connId (fst h) = connId (ctx_of s p) \<longrightarrow> t_fd (fst h) = fd"
  shows "input (ctx_of (foldl (\<lambda>s h. resume_handleRpc h s) s hs) p) = input (ctx_of s p) \<and>
    unsent (ctx_of (foldl (\<lambda>s h. resume_handleRpc h s) s hs) p) =
      unsent (ctx_of s p) @ concat (map snd (filter (\<lambda>h. t_connId (fst h) = connId (ctx_of s p)) hs))"
  using assms
proof (induction hs arbitrary: s)
  case (Cons h hs)
  obtain t frame where h: "h = (t, frame)" by fastforce
  let ?s1 = "resume_handleRpc h s"
  let ?cid = "connId (ctx_of s p)"
  note k = keeps_resume [of s h]
  have act1: "m_active (mgr ?s1) fd = Some p" 
    by (rule keepsD(14) [OF keeps_resume_all [of ?s1 hs]]) (use Cons.prems(2) in simp)
  have act: "m_active (mgr s) fd = Some p" by (rule keepsD(14) [OF k act1])
  have "conn_ok {} s p" by (rule J_conn [OF Cons.prems(1) act])
  then have w: "written (ctx_of s p) \<le> length (concat (outQueue (ctx_of s p)))"
    by (cases "outQueue (ctx_of s p)") (auto simp: conn_ok_def)
  have u: "unsent (ctx_of ?s1 p) = unsent (ctx_of s p) @ (if t_connId t = ?cid then frame else [])"
  proof (cases "t_connId t = ?cid")
    case True
    then have "t_fd t = fd" using Cons.prems(3) by (simp add: h)
    then show ?thesis
      using True deliverResponse_unsent [OF act True [symmetric] w, of frame] by (simp add: resume_handleRpc_def h)
  next
    case False
    then show ?thesis
      using deliverResponse_buffered [of "t_fd t" "t_connId t" frame s p] by (simp add: resume_handleRpc_def h)
  qed
  moreover have "input (ctx_of ?s1 p) = input (ctx_of s p)"
    using deliverResponse_buffered [of "t_fd t" "t_connId t" frame s p] by (simp add: resume_handleRpc_def h)
  moreover have "connId (ctx_of ?s1 p) = ?cid" by (rule keepsD(12) [OF k])
  moreover have "input (ctx_of (foldl (\<lambda>s h. resume_handleRpc h s) ?s1 hs) p) = input (ctx_of ?s1 p) \<and>
    unsent (ctx_of (foldl (\<lambda>s h. resume_handleRpc h s) ?s1 hs) p) =
      unsent (ctx_of ?s1 p) @ concat (map snd (filter (\<lambda>h. t_connId (fst h) = connId (ctx_of ?s1 p)) hs))"
  proof (rule Cons.IH)
    show "J {} ?s1" using J_resume [OF Cons.prems(1)] by simp
    show "m_active (mgr (foldl (\<lambda>s h. resume_handleRpc h s) ?s1 hs)) fd = Some p" using Cons.prems(2) by simp
    show "\<forall>h\<in>set hs. t_connId (fst h) = connId (ctx_of ?s1 p) \<longrightarrow> t_fd (fst h) = fd"
      using Cons.prems(3) unfolding keepsD(12) [OF k] by simp
  qed
  ultimately show ?case by (simp add: h)
qed simp

text \<open>Accepting gives the new connection empty buffers and leaves the others alone.\<close>

lemma accepted_buffered:
  "buffered (ctx_of (accepted fd s) p) =
     (if p = acquire_ptr (mgr s) then ([], [], 0) else buffered (ctx_of s p))"
proof -
  let ?s1 = "s\<lparr>mgr := snd (acquire fd (mgr s))\<rparr>"
  obtain ok s2 where r: "submitRecv fd ?s1 = (ok, s2)" by fastforce
  then have "accepted fd s = (if \<not> ok then close_fd fd s2 else s2)" by (simp add: accepted_def)
  then show ?thesis
    using buffered_recv_or_close [OF r, of p]
    by (cases "p = acquire_ptr (mgr s)") (simp_all add: acquire_ctx, simp add: buffered_def)
qed

end
