(* ===== verification/DemoServer.thy ===== *)
theory DemoServer
  imports ReactorStream
begin

text \<open>
  One run of the server, used as the concrete input of the witnesses: a service with one method,
  a connection on descriptor 7, one request that is read, run in the pool and answered. The
  protobuf functions are concrete: the only header is the one byte \<open>8\<close>.
\<close>

definition demo_header :: rpc_header where
  "demo_header = \<lparr>service_name = [0x53], method_name = [0x6d], args_size = 2, request_id = 5\<rparr>"

definition demo_pb :: protobuf where
  "demo_pb = \<lparr>parse_header = (\<lambda>b. if b = [8] then Some demo_header else None),
     serialize_header = (\<lambda>h. if h = demo_header then Some [8] else None),
     parse_request = (\<lambda>md a. Some a)\<rparr>"

definition demo_method :: method_desc where
  "demo_method = \<lparr>md_service = [0x53], md_name = [0x6d]\<rparr>"

definition demo_service :: service where
  "demo_service = \<lparr>svc_id = 0, svc_name = [0x53], svc_methods = [demo_method]\<rparr>"

definition demo_services :: service_map where
  "demo_services = NotifyService demo_service []"

definition demo_bytes :: bytes where "demo_bytes = request_frame [8] [0x78, 0x79]"

definition demo_request :: request where
  "demo_request = \<lparr>rq_service = demo_service, rq_method = demo_method, rq_id = 5, rq_msg = [0x78, 0x79]\<rparr>"

definition demo_task :: rpc_task where
  "demo_task = \<lparr>t_fd = 7, t_connId = 1, t_request = demo_request\<rparr>"

lemma demo_services_eq:
  "demo_services = [([0x53], \<lparr>m_service = demo_service, m_methodMap = [([0x6d], demo_method)]\<rparr>)]"
  by (simp add: demo_services_def NotifyService_def demo_service_def demo_method_def map_insert_def)

lemma demo_resolve: "resolve_request demo_pb demo_services demo_header [0x78, 0x79] = Request demo_request"
  by (simp add: resolve_request_def demo_pb_def demo_header_def demo_services_eq demo_request_def)

lemma demo_frame_ok: "uring_ok demo_pb demo_services (demo_header, [8], [0x78, 0x79])"
  by (simp add: uring_ok_def demo_resolve) (simp add: demo_pb_def demo_header_def kMaxHeaderSize_def kMaxBodySize_def)

lemma demo_take: "uring_take demo_pb demo_services demo_bytes = Some (Request demo_request, [])"
  using uring_take_frame [OF demo_frame_ok, of "[]"] by (simp add: demo_bytes_def demo_resolve)

lemma demo_length: "length demo_bytes = 7"
  by (simp add: demo_bytes_def request_frame_def)

lemma take_empty: "uring_take pb sm [] = None"
  by (simp add: uring_take_def)

section \<open>The states of the run\<close>

text \<open>A state with what the run has recorded for the connection, whose id is 1.\<close>

definition demo_at :: "provider \<Rightarrow> bytes \<Rightarrow> bytes \<Rightarrow> (rpc_task \<times> bytes option) list \<Rightarrow> traced" where
  "demo_at v g w as = \<lparr>srv = v, got = (\<lambda>_. [])(1 := g), wire = (\<lambda>_. [])(1 := w), answered = as\<rparr>"

abbreviation demo_reach :: "provider \<Rightarrow> bytes \<Rightarrow> bytes \<Rightarrow> (rpc_task \<times> bytes option) list \<Rightarrow> bool" where
  "demo_reach v g w as \<equiv> reach traced_start (traced_step demo_pb) (demo_at v g w as)"

lemma demo_internal:
  "demo_reach v g w as \<Longrightarrow> provider_event demo_pb v Internal v' \<Longrightarrow> nextId (mgr v') = 2 \<Longrightarrow> demo_reach v' g w as"
  by (erule reach_step) (auto simp: traced_step_def demo_at_def intro!: exI [of _ Internal])

abbreviation sqe_accept :: sqe where "sqe_accept \<equiv> \<lparr>s_kind = PrepAccept, s_ctx = None, s_op = ACCEPT\<rparr>"
abbreviation sqe_notify :: sqe where "sqe_notify \<equiv> \<lparr>s_kind = PrepRead, s_ctx = None, s_op = NOTIFY\<rparr>"
abbreviation sqe_recv :: sqe where "sqe_recv \<equiv> \<lparr>s_kind = PrepRecv 7, s_ctx = Some 0, s_op = RECV\<rparr>"

definition demo_ctx :: conn_ctx where
  "demo_ctx = (reset 7 new_ctx)\<lparr>connId := 1, inflight := 1\<rparr>"

definition demo_start :: provider where
  "demo_start = (provider_init demo_services [True, True, True, True, True])
     \<lparr>buf_ring := [0..<kBufRingEntries], sqe_answers := [True, True, True], sq := [sqe_accept, sqe_notify]\<rparr>"

definition demo_mgr :: "conn_ctx \<Rightarrow> conn_mgr" where
  "demo_mgr c = \<lparr>m_active = [7 \<mapsto> 0], m_allConns = (\<lambda>_. new_ctx)(0 := c), m_nConns = 1, m_idlePool = [],
     nextId = 2, closed_fds = []\<rparr>"

text \<open>The connection is accepted, and the submission queue flushed.\<close>

definition demo_accepted :: provider where
  "demo_accepted = demo_start\<lparr>mgr := demo_mgr demo_ctx, sqe_answers := [True], sq := [],
     inkernel := [sqe_notify, sqe_recv, sqe_accept]\<rparr>"

text \<open>The request has been received and a worker runs it.\<close>

definition demo_running :: provider where
  "demo_running = demo_accepted\<lparr>mgr := demo_mgr (demo_ctx\<lparr>pendingReqs := 1\<rparr>), sqe_answers := [],
     sq := [sqe_recv], inkernel := [sqe_notify, sqe_accept], buf_ring := [1..<kBufRingEntries] @ [0],
     m_bufBase := (\<lambda>_. [])(0 := demo_bytes), running := [demo_task]\<rparr>"

lemmas demo_unfold = demo_running_def demo_accepted_def demo_start_def provider_init_def demo_mgr_def demo_ctx_def
  reset_def new_ctx_def

lemma demo_start_ok: "start_loop (provider_init demo_services [True, True, True, True, True]) = Some demo_start"
  by (simp add: start_loop_def demo_start_def setupBufRing_def submitAccept_def submitNotifyRead_def get_sqe_def
      push_sqe_def provider_init_def)

lemma demo_flush: "retry_deferred (flush_sq demo_start) = demo_start\<lparr>inkernel := [sqe_accept, sqe_notify], sq := []\<rparr>"
  by (simp add: demo_start_def flush_sq_def retry_deferred_def provider_init_def)

lemma demo_accept:
  "process_cqe demo_pb \<lparr>c_ud = UdOp None ACCEPT, c_res = 7, c_flags = 0\<rparr>
     (demo_start\<lparr>inkernel := [sqe_notify], sq := []\<rparr>) =
   demo_accepted\<lparr>inkernel := [sqe_notify], sq := [sqe_recv, sqe_accept]\<rparr>"
  by (simp add: process_cqe_def demo_start_def demo_accepted_def onComplete_def dispatch_cqe_def
      handleAccept_def provider_init_def mgr_init_def acquire_def submitRecv_def find_conn_def get_sqe_def
      push_sqe_def onSubmit_def submitAccept_def demo_mgr_def demo_ctx_def reset_def new_ctx_def Let_def fun_eq_iff)

lemma demo_accepted_reach: "demo_reach demo_accepted [] [] []"
proof -
  let ?start = "demo_start\<lparr>inkernel := [sqe_accept, sqe_notify], sq := []\<rparr>"
  let ?c = "\<lparr>c_ud = UdOp None ACCEPT, c_res = 7, c_flags = 0\<rparr>"
  have n: "nextId (mgr demo_start) = 1" "nextId (mgr demo_accepted) = 2"
    by (simp_all add: demo_start_def demo_accepted_def provider_init_def mgr_init_def demo_mgr_def)
  have no_cq: "demo_start\<lparr>sq := [], inkernel := [sqe_notify], cq := []\<rparr> = demo_start\<lparr>inkernel := [sqe_notify], sq := []\<rparr>"
    "demo_start\<lparr>inkernel := [sqe_notify], sq := [], cq := []\<rparr> = demo_start\<lparr>inkernel := [sqe_notify], sq := []\<rparr>"
    by (simp_all add: demo_start_def provider_init_def)
  have step: "traced_step demo_pb (demo_at v [] [] []) (demo_at v' [] [] [])"
    if "provider_event demo_pb v Internal v'" "nextId (mgr v') \<noteq> 0" for v v'
    using that by (auto simp: traced_step_def demo_at_def intro!: exI [of _ Internal])
  have "demo_reach demo_start [] [] []"
    using demo_start_ok by (intro reach_init) (auto simp: traced_start_def provider_start_def demo_at_def)
  moreover have "traced_step demo_pb (demo_at demo_start [] [] []) (demo_at ?start [] [] [])"
    by (rule step) (use provider_event.submit [of demo_pb demo_start] in \<open>simp_all add: demo_flush n\<close>)
  moreover have "traced_step demo_pb (demo_at ?start [] [] []) (demo_at (?start\<lparr>inkernel := [sqe_notify], cq := [?c]\<rparr>) [] [] [])"
  proof (rule step)
    show "provider_event demo_pb ?start Internal (?start\<lparr>inkernel := [sqe_notify], cq := [?c]\<rparr>)"
      using provider_event.k_accept [of sqe_accept ?start 7 demo_pb 0]
      by (simp add: complete_def) (simp add: demo_start_def provider_init_def mgr_init_def)
  qed (simp add: n)
  moreover have "traced_step demo_pb (demo_at (?start\<lparr>inkernel := [sqe_notify], cq := [?c]\<rparr>) [] [] [])
      (demo_at (demo_accepted\<lparr>inkernel := [sqe_notify], sq := [sqe_recv, sqe_accept]\<rparr>) [] [] [])"
    by (rule step)
      (use provider_event.reap [of "?start\<lparr>inkernel := [sqe_notify], cq := [?c]\<rparr>" ?c "[]" demo_pb] in \<open>simp_all add: n no_cq demo_accept\<close>)
  moreover have "traced_step demo_pb (demo_at (demo_accepted\<lparr>inkernel := [sqe_notify], sq := [sqe_recv, sqe_accept]\<rparr>) [] [] [])
      (demo_at demo_accepted [] [] [])"
  proof (rule step)
    show "provider_event demo_pb (demo_accepted\<lparr>inkernel := [sqe_notify], sq := [sqe_recv, sqe_accept]\<rparr>) Internal demo_accepted"
      using provider_event.submit [of demo_pb "demo_accepted\<lparr>inkernel := [sqe_notify], sq := [sqe_recv, sqe_accept]\<rparr>"]
      by (simp add: flush_sq_def retry_deferred_def) (simp add: demo_accepted_def demo_start_def provider_init_def)
  qed (simp add: n)
  ultimately show ?thesis by (meson reach_step)
qed

text \<open>The request arrives in buffer 0, is dispatched, and a worker takes it.\<close>

definition demo_cqe :: cqe where
  "demo_cqe = \<lparr>c_ud = UdOp (Some 0) RECV, c_res = 7, c_flags = 1\<rparr>"

definition demo_received :: provider where
  "demo_received = demo_accepted\<lparr>inkernel := [sqe_notify, sqe_accept], cq := [demo_cqe],
     buf_ring := [1..<kBufRingEntries], m_bufBase := (\<lambda>_. [])(0 := demo_bytes)\<rparr>"

definition demo_queued :: provider where
  "demo_queued = demo_running\<lparr>m_taskQueue := [demo_task], running := []\<rparr>"

lemma demo_recv: "process_cqe demo_pb demo_cqe (demo_received\<lparr>cq := []\<rparr>) = demo_queued"
proof -
  let ?c = "demo_ctx\<lparr>input := demo_bytes, inflight := 0\<rparr>"
  let ?s = "demo_received\<lparr>cq := [], buf_ring := [1..<kBufRingEntries] @ [0], mgr := demo_mgr ?c\<rparr>"
  let ?t = "?s\<lparr>mgr := demo_mgr (?c\<lparr>input := [], pendingReqs := 1\<rparr>), m_taskQueue := [demo_task]\<rparr>"
  have mgr: "find_conn 7 (demo_mgr c) = Some 0" "m_allConns (demo_mgr c) 0 = c"
    "(demo_mgr c)\<lparr>m_allConns := (m_allConns (demo_mgr c))(0 := v)\<rparr> = demo_mgr v" for c v
    by (simp_all add: demo_mgr_def find_conn_def)
  have sm: "m_serviceMap demo_received = demo_services" "m_taskQueue demo_received = []"
    "sqe_answers demo_received = [True]" "m_bufBase demo_received 0 = demo_bytes" "mgr demo_received = demo_mgr demo_ctx"
    "buf_ring demo_received = [1..<kBufRingEntries]" "sq demo_received = []"
    by (simp_all add: demo_received_def demo_accepted_def demo_start_def provider_init_def)
  have ctx: "cfd demo_ctx = 7" "connId demo_ctx = 1" "pendingReqs demo_ctx = 0" "\<not> closing demo_ctx"
    "input demo_ctx = []" "inflight demo_ctx = 1"
    by (simp_all add: demo_ctx_def reset_def new_ctx_def)
  have try1: "tryHandleRequest demo_pb 7 0 ?s = (True, ?t)"
    by (simp add: tryHandleRequest_def sm mgr demo_take set_ctx_def handleRpc_def submitTask_def ctx demo_task_def Let_def)
  have try2: "tryHandleRequest demo_pb 7 0 ?t = (False, ?t)"
    by (simp add: tryHandleRequest_def sm mgr take_empty)
  have "handle_requests demo_pb 7 0 ?t = (True, ?t)"
    by (subst handle_requests.simps) (simp only: try2 prod.case Let_def not_False_eq_True if_True)
  moreover have "find_conn 7 (mgr ?t) = Some 0" by (simp add: mgr)
  ultimately have loop: "handle_requests demo_pb 7 0 ?s = (True, ?t)"
    by (subst handle_requests.simps)
      (simp only: try1 prod.case Let_def not_True_eq_False if_False option.distinct)
  have buffer: "cqe_buffer 1 = Some 0" by (simp add: cqe_buffer_def)
  have "process_cqe demo_pb demo_cqe (demo_received\<lparr>cq := []\<rparr>) = handleRecv demo_pb 0 7 ?s"
    by (simp add: process_cqe_def demo_cqe_def buffer return_buffer_def sm mgr ctx set_ctx_def demo_length
        onComplete_def dispatch_cqe_def Let_def)
  also have "\<dots> = (if kMaxInflightPerConn \<le> pendingReqs (ctx_of ?t 0) then set_ctx 0 (\<lambda>c. c\<lparr>readPaused := True\<rparr>) ?t
      else (let (ok, s2) = submitRecv 7 ?t in if \<not> ok then close_fd 7 s2 else s2))"
  proof -
    have "cfd (ctx_of ?s 0) = 7" "\<not> closing (ctx_of ?s 0)" by (simp_all add: mgr ctx)
    then show ?thesis
      by (simp only: handleRecv_def Let_def loop prod.case) simp
  qed
  also have "\<dots> = demo_queued"
    by (simp add: mgr ctx kMaxInflightPerConn_def submitRecv_def get_sqe_def sm push_sqe_def onSubmit_def Let_def)
      (simp add: demo_queued_def demo_running_def demo_received_def demo_ctx_def reset_def new_ctx_def
        demo_accepted_def demo_start_def provider_init_def)
  finally show ?thesis .
qed

lemma demo_received_reach: "demo_reach demo_received demo_bytes [] []"
proof -
  have n: "nextId (mgr demo_received) = 2" "connId (ctx_of demo_accepted 0) = 1" by (simp_all add: demo_received_def demo_unfold)
  have "0 < kBufRingEntries" by (simp add: kBufRingEntries_def)
  then have ring: "[0..<kBufRingEntries] = 0 # [1..<kBufRingEntries]" using upt_conv_Cons by fastforce
  have "complete sqe_recv 7 1 demo_accepted\<lparr>buf_ring := remove1 0 (buf_ring demo_accepted),
      m_bufBase := (m_bufBase demo_accepted)(0 := demo_bytes)\<rparr> = demo_received"
    unfolding demo_received_def
    by (simp add: complete_def demo_cqe_def demo_accepted_def demo_start_def provider_init_def ring del: upt.simps)
  moreover have "provider_event demo_pb demo_accepted (Received (s_ctx sqe_recv) (take (nat 7) demo_bytes)) (complete sqe_recv 7 1 demo_accepted
      \<lparr>buf_ring := remove1 0 (buf_ring demo_accepted), m_bufBase := (m_bufBase demo_accepted)(0 := demo_bytes)\<rparr>)"
    by (rule provider_event.k_recv_buffer)
      (simp_all add: demo_accepted_def demo_start_def provider_init_def ring cqe_buffer_def demo_length kBufSize_def)
  ultimately have "provider_event demo_pb demo_accepted (Received (Some 0) demo_bytes) demo_received" by (simp add: demo_length)
  then have "traced_step demo_pb (demo_at demo_accepted [] [] []) (demo_at demo_received demo_bytes [] [])"
    by (auto simp: traced_step_def demo_at_def n log_bytes_def intro!: exI [of _ "Received (Some 0) demo_bytes"] exI [of _ demo_received])
  then show ?thesis using demo_accepted_reach by (meson reach_step)
qed

lemma demo_running_traced: "demo_reach demo_running demo_bytes [] []"
proof -
  have n: "nextId (mgr demo_queued) = 2" "nextId (mgr demo_running) = 2"
    by (simp_all add: demo_queued_def demo_running_def demo_accepted_def demo_start_def provider_init_def demo_mgr_def)
  have "provider_event demo_pb demo_received Internal demo_queued"
    using provider_event.reap [of demo_received demo_cqe "[]" demo_pb] by (simp add: demo_recv) (simp add: demo_received_def)
  moreover have "provider_event demo_pb demo_queued Internal demo_running"
    using provider_event.worker_take [of demo_pb demo_queued]
    by (simp add: workerThread_take_def demo_queued_def)
      (simp add: demo_running_def demo_accepted_def demo_start_def provider_init_def)
  ultimately show ?thesis using demo_received_reach demo_internal n by blast
qed

lemma traced_reach: "reach traced_start (traced_step pb) s \<Longrightarrow> reach provider_start (fresh_step pb) (srv s)"
  by (induction rule: reach.induct) (auto simp: traced_start_def intro: reach.intros dest: traced_step_fresh)

lemma fresh_reach: "reach provider_start (fresh_step pb) s \<Longrightarrow> provider_reach pb s"
  by (induction rule: reach.induct) (auto simp: fresh_step_def intro: reach.intros)

lemma demo_srv [simp]: "srv (demo_at v g w as) = v" "got (demo_at v g w as) 1 = g" "wire (demo_at v g w as) 1 = w"
  "answered (demo_at v g w as) = as"
  by (simp_all add: demo_at_def)

lemmas demo_running_reach = traced_reach [OF demo_running_traced, simplified]
lemmas demo_run = demo_running_reach [THEN fresh_reach]

text \<open>The worker finishes the call, the reactor delivers the response, and the kernel sends five of
  its bytes.\<close>

definition demo_reply :: bytes where "demo_reply = response_frame 5 [0x6f]"

abbreviation sqe_send :: sqe where
  "sqe_send \<equiv> \<lparr>s_kind = PrepSend 7 demo_reply, s_ctx = Some 0, s_op = SEND\<rparr>"

definition demo_done :: provider where
  "demo_done = demo_running\<lparr>sqe_answers := [True, True], running := [], m_readyCoros := [(demo_task, demo_reply)]\<rparr>"

definition demo_replied :: provider where
  "demo_replied = demo_running\<lparr>mgr := demo_mgr (demo_ctx\<lparr>pendingReqs := 1, outQueue := [demo_reply], inflight := 2, sending := True\<rparr>),
     sqe_answers := [], running := [], sq := [sqe_recv, sqe_send, sqe_notify], inkernel := [sqe_accept]\<rparr>"

definition demo_send_cqe :: cqe where
  "demo_send_cqe = \<lparr>c_ud = UdOp (Some 0) SEND, c_res = 5, c_flags = 0\<rparr>"

definition demo_sent :: provider where
  "demo_sent = demo_replied\<lparr>sq := [], inkernel := [sqe_accept, sqe_recv, sqe_notify], cq := [demo_send_cqe]\<rparr>"

lemma demo_deliver:
  "process_cqe pb \<lparr>c_ud = UdOp None NOTIFY, c_res = 8, c_flags = 0\<rparr> (demo_done\<lparr>inkernel := [sqe_accept], cq := []\<rparr>) =
     demo_replied"
proof -
  have mgr: "find_conn 7 (demo_mgr c) = Some 0" "m_allConns (demo_mgr c) 0 = c"
    "(demo_mgr c)\<lparr>m_allConns := (m_allConns (demo_mgr c))(0 := v)\<rparr> = demo_mgr v" for c v
    by (simp_all add: demo_mgr_def find_conn_def)
  have ctx: "connId demo_ctx = 1" "outQueue demo_ctx = []" "\<not> sending demo_ctx" "written demo_ctx = 0" "inflight demo_ctx = 1"
    by (simp_all add: demo_ctx_def reset_def new_ctx_def)
  have fin: "mgr demo_done = demo_mgr (demo_ctx\<lparr>pendingReqs := 1\<rparr>)" "m_readyCoros demo_done = [(demo_task, demo_reply)]"
    "sqe_answers demo_done = [True, True]" "sq demo_done = [sqe_recv]"
    by (simp_all add: demo_done_def demo_running_def)
  have task: "t_fd demo_task = 7" "t_connId demo_task = 1" "demo_reply \<noteq> []" by (simp_all add: demo_task_def demo_reply_def)
  show ?thesis
    by (simp add: process_cqe_def onComplete_def dispatch_cqe_def handleNotify_def resume_handleRpc_def task fin
        deliverResponse_def mgr ctx set_ctx_def submitSend_def get_sqe_def push_sqe_def onSubmit_def submitNotifyRead_def Let_def)
      (simp add: demo_done_def demo_replied_def demo_running_def demo_accepted_def demo_start_def provider_init_def)
qed

lemma demo_replied_reach: "demo_reach demo_replied demo_bytes [] [(demo_task, Some [0x6f])]"
proof -
  let ?n = "\<lparr>c_ud = UdOp None NOTIFY, c_res = 8, c_flags = 0\<rparr>" and ?r = "demo_running\<lparr>sqe_answers := [True, True]\<rparr>"
  have n: "nextId (mgr demo_running) = 2" "nextId (mgr demo_done) = 2" "nextId (mgr demo_replied) = 2"
    by (simp_all add: demo_done_def demo_replied_def demo_running_def demo_mgr_def)
  have r: "demo_reach ?r demo_bytes [] []"
    by (rule demo_internal [OF demo_running_traced provider_event.sqe_space]) (simp add: n)
  have "provider_event demo_pb ?r (Answered demo_task (Some [0x6f])) demo_done"
    using provider_event.worker_done [of demo_task ?r demo_pb "Some [0x6f]"]
    by (simp add: onPoolDone_def resumeOnReactor_def)
      (simp add: demo_done_def demo_reply_def demo_running_def demo_task_def demo_request_def demo_accepted_def demo_start_def provider_init_def)
  then have "traced_step demo_pb (demo_at ?r demo_bytes [] []) (demo_at demo_done demo_bytes [] [(demo_task, Some [0x6f])])"
    by (auto simp: traced_step_def demo_at_def n intro!: exI [of _ "Answered demo_task (Some [0x6f])"] exI [of _ demo_done])
  with r have d: "demo_reach demo_done demo_bytes [] [(demo_task, Some [0x6f])]" by (rule reach_step)
  have "provider_event demo_pb demo_done Internal (demo_done\<lparr>inkernel := [sqe_accept], cq := [?n]\<rparr>)"
    using provider_event.k_notify [of sqe_notify demo_done demo_pb 8 0]
    by (simp add: complete_def) (simp add: demo_done_def demo_running_def demo_accepted_def demo_start_def provider_init_def)
  from demo_internal [OF d this] have "demo_reach (demo_done\<lparr>inkernel := [sqe_accept], cq := [?n]\<rparr>) demo_bytes [] [(demo_task, Some [0x6f])]"
    by (simp add: n)
  moreover have "provider_event demo_pb (demo_done\<lparr>inkernel := [sqe_accept], cq := [?n]\<rparr>) Internal demo_replied"
    using provider_event.reap [of "demo_done\<lparr>inkernel := [sqe_accept], cq := [?n]\<rparr>" ?n "[]" demo_pb] by (simp add: demo_deliver)
  ultimately show ?thesis using n(3) by (rule demo_internal)
qed

text \<open>The kernel sends the first \<open>k\<close> bytes of the reply.\<close>

lemma demo_sent_traced:
  assumes "k \<le> length demo_reply"
  shows "demo_reach (demo_replied\<lparr>sq := [], inkernel := [sqe_accept, sqe_recv, sqe_notify], cq := [demo_send_cqe\<lparr>c_res := int k\<rparr>]\<rparr>)
    demo_bytes (take k demo_reply) [(demo_task, Some [0x6f])]"
proof -
  let ?f = "demo_replied\<lparr>sq := [], inkernel := [sqe_accept, sqe_recv, sqe_send, sqe_notify]\<rparr>"
  let ?s = "demo_replied\<lparr>sq := [], inkernel := [sqe_accept, sqe_recv, sqe_notify], cq := [demo_send_cqe\<lparr>c_res := int k\<rparr>]\<rparr>"
  have n: "nextId (mgr demo_replied) = 2" "connId (ctx_of demo_replied 0) = 1"
    by (simp_all add: demo_replied_def demo_mgr_def demo_ctx_def)
  have "provider_event demo_pb demo_replied Internal ?f"
    using provider_event.submit [of demo_pb demo_replied]
    by (simp add: flush_sq_def retry_deferred_def) (simp add: demo_replied_def demo_running_def demo_accepted_def demo_start_def provider_init_def)
  from demo_internal [OF demo_replied_reach this] have f: "demo_reach ?f demo_bytes [] [(demo_task, Some [0x6f])]" by (simp add: n)
  have "provider_event demo_pb ?f (Sent (s_ctx sqe_send) (take (nat (int k)) demo_reply)) (complete sqe_send (int k) 0 ?f)"
    by (rule provider_event.k_send) (use assms in simp_all)
  moreover have "complete sqe_send (int k) 0 ?f = ?s"
    by (simp add: complete_def demo_send_cqe_def)
      (simp add: demo_replied_def demo_running_def demo_accepted_def demo_start_def provider_init_def)
  ultimately have "traced_step demo_pb (demo_at ?f demo_bytes [] [(demo_task, Some [0x6f])])
      (demo_at ?s demo_bytes (take k demo_reply) [(demo_task, Some [0x6f])])"
    unfolding traced_step_def
    by (intro exI [of _ "Sent (Some 0) (take k demo_reply)"] exI [of _ ?s]) (simp add: demo_at_def n log_bytes_def)
  with f show ?thesis by (rule reach_step)
qed

text \<open>All of them, and the reactor has handled the completion.\<close>

definition demo_settled :: provider where
  "demo_settled = demo_replied\<lparr>mgr := demo_mgr (demo_ctx\<lparr>pendingReqs := 0, outQueue := [], inflight := 1\<rparr>),
     sq := [], inkernel := [sqe_accept, sqe_recv, sqe_notify], cq := []\<rparr>"

lemma demo_send_done:
  "process_cqe pb (demo_send_cqe\<lparr>c_res := 13\<rparr>) (demo_replied\<lparr>sq := [], inkernel := [sqe_accept, sqe_recv, sqe_notify], cq := []\<rparr>) =
     demo_settled"
proof -
  have mgr: "find_conn 7 (demo_mgr c) = Some 0" "m_allConns (demo_mgr c) 0 = c"
    "(demo_mgr c)\<lparr>m_allConns := (m_allConns (demo_mgr c))(0 := v)\<rparr> = demo_mgr v" for c v
    by (simp_all add: demo_mgr_def find_conn_def)
  have ctx: "cfd demo_ctx = 7" "\<not> closing demo_ctx" "\<not> readPaused demo_ctx" "written demo_ctx = 0"
    by (simp_all add: demo_ctx_def reset_def new_ctx_def)
  have "mgr demo_replied = demo_mgr (demo_ctx\<lparr>pendingReqs := 1, outQueue := [demo_reply], inflight := 2, sending := True\<rparr>)"
    "length demo_reply = 13"
    by (simp_all add: demo_replied_def demo_reply_def response_frame_def)
  then show ?thesis
    by (simp add: process_cqe_def demo_send_cqe_def onComplete_def dispatch_cqe_def handleSend_def finish_response_def mgr ctx
        set_ctx_def Let_def kMaxInflightPerConn_def)
      (simp add: demo_settled_def demo_replied_def demo_mgr_def demo_ctx_def reset_def new_ctx_def)
qed

lemma demo_settled_traced: "demo_reach demo_settled demo_bytes demo_reply [(demo_task, Some [0x6f])]"
proof -
  let ?s = "demo_replied\<lparr>sq := [], inkernel := [sqe_accept, sqe_recv, sqe_notify], cq := [demo_send_cqe\<lparr>c_res := 13\<rparr>]\<rparr>"
  have s: "demo_reach ?s demo_bytes demo_reply [(demo_task, Some [0x6f])]"
    using demo_sent_traced [of 13] by (simp add: demo_reply_def response_frame_def)
  have "provider_event demo_pb ?s Internal demo_settled"
    using provider_event.reap [of ?s "demo_send_cqe\<lparr>c_res := 13\<rparr>" "[]" demo_pb] by (simp add: demo_send_done)
  from demo_internal [OF s this] show ?thesis by (simp add: demo_settled_def demo_mgr_def)
qed

lemma demo_sent_reach: "provider_reach demo_pb demo_sent"
proof -
  have "demo_reach demo_sent demo_bytes (take 5 demo_reply) [(demo_task, Some [0x6f])]"
    using demo_sent_traced [of 5] by (simp add: demo_sent_def demo_send_cqe_def demo_reply_def response_frame_def)
  from fresh_reach [OF traced_reach [OF this]] show ?thesis by simp
qed

end
