(* ===== verification/ReactorAnswers.thy ===== *)
theory ReactorAnswers
  imports ReactorStream
begin

text \<open>
  The invariant of a recorded run of the io_uring server (theory ReactorStream): what each open
  connection has received, what was dispatched for it, what was answered and what is on the wire.
\<close>

section \<open>The invariant\<close>

definition answer_frame :: "rpc_task \<times> bytes option \<Rightarrow> bytes" where
  "answer_frame a = (case snd a of Some body \<Rightarrow> response_frame (rq_id (t_request (fst a))) body | None \<Rightarrow> [])"

text \<open>Received bytes whose completion the reactor has not handled, and the number of bytes sent likewise.\<close>

definition arriving :: "provider \<Rightarrow> ctx_ptr \<Rightarrow> bytes" where
  "arriving v p = concat (map (recv_data (m_bufBase v)) (filter (\<lambda>e. c_ud e = UdOp (Some p) RECV) (cq v)))"

definition sent_ahead :: "provider \<Rightarrow> ctx_ptr \<Rightarrow> nat" where
  "sent_ahead v p = sum_list (map (\<lambda>e. nat (c_res e)) (filter (\<lambda>e. c_ud e = UdOp (Some p) SEND) (cq v)))"

text \<open>The calls ever dispatched for a connection id, answered or not.\<close>

definition dispatched :: "traced \<Rightarrow> u64 \<Rightarrow> rpc_task multiset" where
  "dispatched s cid = filter_mset (\<lambda>t. t_connId t = cid)
     (mset (m_taskQueue (srv s)) + mset (running (srv s)) + mset (map fst (answered s)))"

definition reads_at :: "protobuf \<Rightarrow> traced \<Rightarrow> int \<Rightarrow> ctx_ptr \<Rightarrow> bool" where
  "reads_at pb s fd p \<longleftrightarrow> (let v = srv s; cid = connId (ctx_of v p) in
     \<exists>seen items. got s cid = seen @ arriving v p \<and>
       drain (uring_take pb (m_serviceMap v)) uring_closes seen = (items, input (ctx_of v p)) \<and>
       (\<forall>i\<in>set items. \<not> uring_closes i) \<and> dispatched s cid = mset (map (call_of fd cid) (requests_of items)))"

definition writes_at :: "traced \<Rightarrow> ctx_ptr \<Rightarrow> bool" where
  "writes_at s p \<longleftrightarrow> (let v = srv s; cid = connId (ctx_of v p) in
     wire s cid @ drop (sent_ahead v p) (unsent (ctx_of v p)) @
         concat (map snd (filter (\<lambda>h. t_connId (fst h) = cid) (m_readyCoros v))) =
       concat (map answer_frame (filter (\<lambda>a. t_connId (fst a) = cid) (answered s))))"

definition streams_ok :: "protobuf \<Rightarrow> traced \<Rightarrow> bool" where
  "streams_ok pb s \<longleftrightarrow> (\<forall>fd p. m_active (mgr (srv s)) fd = Some p \<longrightarrow> reads_at pb s fd p \<and> writes_at s p)"

text \<open>No two contexts share an id, and nothing is recorded for an id that is still to come.\<close>

definition conn_ids :: "provider \<Rightarrow> bool" where
  "conn_ids v \<longleftrightarrow> (\<forall>p<m_nConns (mgr v). connId (ctx_of v p) < nextId (mgr v)) \<and>
     (\<forall>p<m_nConns (mgr v). \<forall>q<m_nConns (mgr v). connId (ctx_of v p) = connId (ctx_of v q) \<longrightarrow> p = q)"

definition fresh_record :: "traced \<Rightarrow> bool" where
  "fresh_record s \<longleftrightarrow> (\<forall>cid. nextId (mgr (srv s)) \<le> cid \<longrightarrow> got s cid = [] \<and> wire s cid = []) \<and>
     (\<forall>a\<in>set (answered s). t_connId (fst a) < nextId (mgr (srv s)))"

definition server_ok :: "provider \<Rightarrow> bool" where
  "server_ok v \<longleftrightarrow> reactor_ok v \<and> ids_ok v \<and> sends_ok v \<and> buffers_ok v \<and> conn_ids v"

section \<open>Steps that record nothing\<close>

text \<open>What the streams of a connection read of the state.\<close>

lemma reads_same:
  assumes "reads_at pb s fd p" and "connId (ctx_of (srv t) p) = connId (ctx_of (srv s) p)"
    and "m_serviceMap (srv t) = m_serviceMap (srv s)" and "input (ctx_of (srv t) p) = input (ctx_of (srv s) p)"
    and "got t (connId (ctx_of (srv s) p)) = got s (connId (ctx_of (srv s) p)) @ d"
    and "arriving (srv t) p = arriving (srv s) p @ d"
    and "dispatched t (connId (ctx_of (srv s) p)) = dispatched s (connId (ctx_of (srv s) p))"
  shows "reads_at pb t fd p"
  using assms unfolding reads_at_def Let_def by auto

lemma writes_same:
  assumes "writes_at s p" and "connId (ctx_of (srv t) p) = connId (ctx_of (srv s) p)"
    and "unsent (ctx_of (srv t) p) = unsent (ctx_of (srv s) p)" and "sent_ahead (srv t) p = sent_ahead (srv s) p"
    and "wire t (connId (ctx_of (srv s) p)) = wire s (connId (ctx_of (srv s) p))" and "answered t = answered s"
    and "filter (\<lambda>h. t_connId (fst h) = connId (ctx_of (srv s) p)) (m_readyCoros (srv t)) =
      filter (\<lambda>h. t_connId (fst h) = connId (ctx_of (srv s) p)) (m_readyCoros (srv s))"
  shows "writes_at t p"
  using assms unfolding writes_at_def Let_def by simp

text \<open>A completion adds to one of the two counts of its own connection.\<close>

lemma arriving_complete:
  "arriving (complete e res fl v) p = arriving v p @
     (if s_ctx e = Some p \<and> s_op e = RECV then recv_data (m_bufBase v) \<lparr>c_ud = UdOp (Some p) RECV, c_res = res, c_flags = fl\<rparr> else [])"
  by (simp add: arriving_def complete_def)

lemma sent_ahead_complete:
  "sent_ahead (complete e res fl v) p = sent_ahead v p + (if s_ctx e = Some p \<and> s_op e = SEND then nat res else 0)"
  by (simp add: sent_ahead_def complete_def)

lemma arriving_cong: "cq w = cq v \<Longrightarrow> m_bufBase w = m_bufBase v \<Longrightarrow> arriving w p = arriving v p"
  and sent_ahead_cong: "cq w = cq v \<Longrightarrow> sent_ahead w p = sent_ahead v p"
  by (simp_all add: arriving_def sent_ahead_def)

text \<open>Steps that leave the connections alone and move tasks only between the queue and the workers.\<close>

lemma streams_quiet:
  assumes ok: "streams_ok pb s" and v: "mgr v = mgr (srv s)" "m_serviceMap v = m_serviceMap (srv s)"
    "m_readyCoros v = m_readyCoros (srv s)"
    "mset (m_taskQueue v) + mset (running v) = mset (m_taskQueue (srv s)) + mset (running (srv s))"
    and cq: "\<And>p. arriving v p = arriving (srv s) p" "\<And>p. sent_ahead v p = sent_ahead (srv s) p"
  shows "streams_ok pb (s\<lparr>srv := v\<rparr>)"
  unfolding streams_ok_def
proof (intro allI impI)
  fix fd p assume "m_active (mgr (srv (s\<lparr>srv := v\<rparr>))) fd = Some p"
  then have at: "reads_at pb s fd p" "writes_at s p" using ok v(1) by (simp_all add: streams_ok_def)
  show "reads_at pb (s\<lparr>srv := v\<rparr>) fd p \<and> writes_at (s\<lparr>srv := v\<rparr>) p"
    by (intro conjI reads_same [OF at(1), where d = "[]"] writes_same [OF at(2)]) (simp_all add: v cq dispatched_def)
qed

section \<open>Completions of the kernel\<close>

lemma cq_out:
  assumes "e \<in> set (cq v)" and "c_ud e = UdOp (Some p) op"
  shows "out v p op \<noteq> 0"
proof -
  have "(Some p, op) \<in># ops v" using assms by (auto simp: ops_def cqe_keys_def intro!: bexI [of _ e])
  then show ?thesis by (simp add: out_def)
qed

lemma kernel_out:
  assumes "e \<in> set (inkernel v)" and "s_ctx e = Some p"
  shows "out v p (s_op e) \<noteq> 0"
proof -
  have "sqe_key e \<in># ops v" using assms(1) by (simp add: ops_def)
  then show ?thesis using assms(2) by (simp add: out_def sqe_key_def)
qed

text \<open>An open connection has at most one send under way: nothing is sent ahead while it is in the
  kernel, and its completion reports no more than the rest of the front response.\<close>

lemma no_cq_send:
  assumes "\<And>e. e \<in> set (cq v) \<Longrightarrow> c_ud e \<noteq> UdOp (Some p) SEND"
  shows "sent_ahead v p = 0"
proof -
  have "filter (\<lambda>e. c_ud e = UdOp (Some p) SEND) (cq v) = []" using assms by (simp add: filter_empty_conv)
  then show ?thesis by (simp add: sent_ahead_def)
qed

lemma sent_ahead_kernel:
  assumes "out v p SEND \<le> 1" and "e \<in> set (inkernel v)" and "s_ctx e = Some p" "s_op e = SEND"
  shows "sent_ahead v p = 0"
proof (rule no_cq_send, rule notI)
  fix c assume c: "c \<in> set (cq v)" "c_ud c = UdOp (Some p) SEND"
  obtain xs ys where "cq v = xs @ c # ys" using split_list [OF c(1)] by blast
  moreover obtain us ws where "inkernel v = us @ e # ws" using split_list [OF assms(2)] by blast
  ultimately have "2 \<le> out v p SEND"
    using c(2) assms(3,4) by (simp add: out_def ops_def cqe_keys_def sqe_key_def)
  with assms(1) show False by simp
qed

lemma filter_cq_out: "length (filter (\<lambda>e. c_ud e = UdOp (Some p) op) (cq v)) \<le> out v p op"
proof -
  have "count (mset (concat (map cqe_keys es))) (Some p, op) = length (filter (\<lambda>e. c_ud e = UdOp (Some p) op) es)" for es
    by (induction es) (auto simp: cqe_keys_def split: user_data.split)
  then show ?thesis by (simp add: out_def ops_def)
qed

lemma unsent_front: "outQueue c = f # q \<Longrightarrow> written c \<le> length f \<Longrightarrow> unsent c = front_rest c @ concat q"
  by (simp add: unsent_def front_rest_def)

lemma conn_send:
  assumes "conn_ok {} v p" and "out v p SEND \<noteq> 0"
  obtains f q where "outQueue (ctx_of v p) = f # q" "written (ctx_of v p) < length f"
    "unsent (ctx_of v p) = front_rest (ctx_of v p) @ concat q" "out v p SEND = 1"
proof -
  have "outQueue (ctx_of v p) \<noteq> []" "out v p SEND = 1" using assms by (auto simp: conn_ok_def held_def split: if_splits)
  then obtain f q where q: "outQueue (ctx_of v p) = f # q" by (cases "outQueue (ctx_of v p)") auto
  then have "written (ctx_of v p) < length f" using assms(1) by (simp add: conn_ok_def)
  then show thesis using that q unsent_front [OF q] \<open>out v p SEND = 1\<close> by simp
qed

lemma sent_ahead_le:
  assumes at: "sends_at v fd p" and conn: "conn_ok {} v p"
  shows "sent_ahead v p \<le> length (unsent (ctx_of v p))"
proof (cases "filter (\<lambda>e. c_ud e = UdOp (Some p) SEND) (cq v)")
  case Nil
  then show ?thesis by (simp add: sent_ahead_def)
next
  case (Cons e es)
  have "e \<in> set (filter (\<lambda>e. c_ud e = UdOp (Some p) SEND) (cq v))" by (simp add: Cons)
  then have e: "e \<in> set (cq v)" "c_ud e = UdOp (Some p) SEND" by simp_all
  obtain f q where q: "unsent (ctx_of v p) = front_rest (ctx_of v p) @ concat q" "out v p SEND = 1"
    using conn_send [OF conn cq_out [OF e]] by metis
  have "es = []" using filter_cq_out [of p SEND v] q(2) Cons by simp
  then have "sent_ahead v p = nat (c_res e)" using Cons by (simp add: sent_ahead_def)
  moreover have "c_res e \<le> int (length (front_rest (ctx_of v p)))" using at e by (simp add: sends_at_def)
  ultimately show ?thesis by (simp add: q)
qed

text \<open>What is recorded for a context goes to its own connection.\<close>

lemma log_bytes_at:
  assumes "conn_ids v" and "q < m_nConns (mgr v)" and "\<And>p. ctx = Some p \<Longrightarrow> p < m_nConns (mgr v)"
  shows "log_bytes v ctx d h (connId (ctx_of v q)) = h (connId (ctx_of v q)) @ (if ctx = Some q then d else [])"
  using assms by (cases ctx) (auto simp: log_bytes_def conn_ids_def)

lemma log_bytes_fresh:
  assumes "conn_ids v" and "\<And>p. ctx = Some p \<Longrightarrow> p < m_nConns (mgr v)" and "nextId (mgr v) \<le> cid"
  shows "log_bytes v ctx d h cid = h cid"
  using assms by (cases ctx) (auto simp: log_bytes_def conn_ids_def)

lemma arriving_other_buffer:
  assumes "bid \<notin> set (concat (map cqe_bids (cq v)))"
  shows "concat (map (recv_data ((m_bufBase v)(bid := data))) (filter (\<lambda>e. c_ud e = UdOp (Some p) RECV) (cq v))) = arriving v p"
  unfolding arriving_def
proof (intro arg_cong [where f = concat] map_cong refl)
  fix e assume "e \<in> set (filter (\<lambda>e. c_ud e = UdOp (Some p) RECV) (cq v))"
  then have "cqe_buffer (c_flags e) \<noteq> Some bid" using assms by (auto simp: cqe_bids_def)
  then show "recv_data ((m_bufBase v)(bid := data)) e = recv_data (m_bufBase v) e"
    by (auto simp: recv_data_def split: option.split)
qed

lemma streams_received:
  fixes res data
  assumes ok: "streams_ok pb s" "server_ok (srv s)" and e: "e \<in> set (inkernel (srv s))" "s_op e = RECV"
    and bid: "bid \<in> set (buf_ring (srv s))" "cqe_buffer fl = Some bid"
  defines "w \<equiv> (complete e res fl (srv s))\<lparr>buf_ring := remove1 bid (buf_ring (srv s)), m_bufBase := (m_bufBase (srv s))(bid := data)\<rparr>"
  shows "streams_ok pb ((record_label (Received (s_ctx e) (take (nat res) data)) s)\<lparr>srv := w\<rparr>)"
  unfolding streams_ok_def
proof (intro allI impI)
  let ?v = "srv s" let ?d = "take (nat res) data"
  let ?t = "(record_label (Received (s_ctx e) ?d) s)\<lparr>srv := w\<rparr>"
  fix fd q assume "m_active (mgr (srv ?t)) fd = Some q"
  then have act: "m_active (mgr ?v) fd = Some q" by (simp add: w_def complete_def)
  have J: "J {} ?v" and ids: "conn_ids ?v" and buf: "buffers_ok ?v"
    using ok(2) by (simp_all add: server_ok_def reactor_ok_def)
  have "bid \<notin> set (concat (map cqe_bids (cq ?v)))"
  proof
    assume "bid \<in> set (concat (map cqe_bids (cq ?v)))"
    then have "0 < count (mset (concat (map cqe_bids (cq ?v)))) bid" "0 < count (mset (buf_ring ?v)) bid"
      using bid(1) by (simp_all only: count_greater_zero_iff set_mset_mset)
    then have "1 < count (buffers ?v) bid" by (simp only: buffers_def count_union)
    moreover have "count (mset [0..<kBufRingEntries]) bid \<le> 1"
      using distinct_count_atmost_1 [of "[0..<kBufRingEntries]"] by simp
    ultimately show False using buf by (simp only: buffers_ok_def)
  qed
  note arr = arriving_other_buffer [OF this, of data q]
  have a: "arriving w q = arriving ?v q @ (if s_ctx e = Some q then ?d else [])"
    using e(2) bid(2) by (simp add: w_def arriving_def complete_def arr [unfolded arriving_def]) (simp add: recv_data_def)
  have g: "got ?t (connId (ctx_of ?v q)) = got s (connId (ctx_of ?v q)) @ (if s_ctx e = Some q then ?d else [])"
    using log_bytes_at [OF ids J_active(1) [OF J act], of "s_ctx e" ?d "got s"] J_out_not_idle(1) [OF J kernel_out [OF e(1)]]
    by simp
  have w: "mgr w = mgr ?v" "m_serviceMap w = m_serviceMap ?v" "m_readyCoros w = m_readyCoros ?v"
    "m_taskQueue w = m_taskQueue ?v" "running w = running ?v" by (simp_all add: w_def complete_def)
  have at: "reads_at pb s fd q" "writes_at s q" using ok(1) act by (simp_all add: streams_ok_def)
  have "sent_ahead w q = sent_ahead ?v q" using e(2) by (simp add: w_def sent_ahead_def complete_def)
  then show "reads_at pb ?t fd q \<and> writes_at ?t q"
    by (intro conjI reads_same [OF at(1) _ _ _ g] writes_same [OF at(2)]) (simp_all add: w a dispatched_def)
qed

lemma streams_sent:
  fixes fl
  assumes ok: "streams_ok pb s" "server_ok (srv s)" and e: "e \<in> set (inkernel (srv s))" "s_op e = SEND"
    "s_kind e = PrepSend efd data" "res \<le> int (length data)"
  defines "w \<equiv> complete e res fl (srv s)"
  shows "streams_ok pb ((record_label (Sent (s_ctx e) (take (nat res) data)) s)\<lparr>srv := w\<rparr>)"
  unfolding streams_ok_def
proof (intro allI impI)
  let ?v = "srv s" let ?d = "take (nat res) data"
  let ?t = "(record_label (Sent (s_ctx e) ?d) s)\<lparr>srv := w\<rparr>"
  fix fd q assume "m_active (mgr (srv ?t)) fd = Some q"
  then have act: "m_active (mgr ?v) fd = Some q" by (simp add: w_def complete_def)
  have J: "J {} ?v" and ids: "conn_ids ?v" and sends: "sends_at ?v fd q"
    using ok(2) act by (simp_all add: server_ok_def reactor_ok_def sends_ok_def)
  let ?cid = "connId (ctx_of ?v q)"
  have w: "mgr w = mgr ?v" "m_serviceMap w = m_serviceMap ?v" "m_readyCoros w = m_readyCoros ?v"
    "m_taskQueue w = m_taskQueue ?v" "running w = running ?v" by (simp_all add: w_def complete_def)
  have at: "reads_at pb s fd q" "writes_at s q" using ok(1) act by (simp_all add: streams_ok_def)
  have "arriving w q = arriving ?v q" using e(2) by (simp add: w_def arriving_def complete_def)
  then have "reads_at pb ?t fd q" by (intro reads_same [OF at(1), where d = "[]"]) (simp_all add: w dispatched_def)
  moreover have "writes_at ?t q"
  proof (cases "s_ctx e = Some q")
    case False
    then have "sent_ahead w q = sent_ahead ?v q" "wire ?t ?cid = wire s ?cid"
      using log_bytes_at [OF ids J_active(1) [OF J act], of "s_ctx e" ?d "wire s"] J_out_not_idle(1) [OF J kernel_out [OF e(1)]]
      by (simp_all add: w_def sent_ahead_complete)
    then show ?thesis by (intro writes_same [OF at(2)]) (simp_all add: w)
  next
    case True
    obtain f qs where q: "unsent (ctx_of ?v q) = front_rest (ctx_of ?v q) @ concat qs" "out ?v q SEND = 1"
      using conn_send [OF J_conn [OF J act]] kernel_out [OF e(1) True] e(2) by metis
    have z: "sent_ahead ?v q = 0" by (rule sent_ahead_kernel [OF _ e(1) True e(2)]) (simp add: q(2))
    have "data = front_rest (ctx_of ?v q)" using sends True e(1-3) by (simp add: sends_at_def)
    then have u: "?d @ drop (nat res) (unsent (ctx_of ?v q)) = unsent (ctx_of ?v q)" using e(4) by (simp add: q(1))
    have "sent_ahead w q = nat res" using True e(2) z by (simp add: w_def sent_ahead_complete)
    moreover have "wire ?t ?cid = wire s ?cid @ ?d"
      using log_bytes_at [OF ids J_active(1) [OF J act], of "s_ctx e" ?d "wire s"] J_out_not_idle(1) [OF J kernel_out [OF e(1)]] True
      by simp
    moreover have "wire s ?cid @ unsent (ctx_of ?v q) @ concat (map snd (filter (\<lambda>h. t_connId (fst h) = ?cid) (m_readyCoros ?v))) =
        concat (map answer_frame (filter (\<lambda>a. t_connId (fst a) = ?cid) (answered s)))"
      using at(2) z by (simp add: writes_at_def Let_def)
    ultimately show ?thesis unfolding writes_at_def Let_def
      by (simp add: w) (metis append.assoc u)
  qed
  ultimately show "reads_at pb ?t fd q \<and> writes_at ?t q" by blast
qed

section \<open>Completions in the reactor\<close>

lemma arriving_pop:
  assumes "cq s = e # es" and "cq v = es" "m_bufBase v = m_bufBase s"
  shows "arriving s q = (if c_ud e = UdOp (Some q) RECV then recv_data (m_bufBase s) e else []) @ arriving v q"
  and "sent_ahead s q = (if c_ud e = UdOp (Some q) SEND then nat (c_res e) else 0) + sent_ahead v q"
  using assms by (simp_all add: arriving_def sent_ahead_def)

text \<open>What a handler for the connection \<open>p\<close> does to any other open connection: nothing.\<close>

lemma streams_other:
  assumes at: "reads_at pb s fd q" "writes_at s q" and k: "connId (ctx_of v q) = connId (ctx_of (srv s) q)"
    "m_serviceMap v = m_serviceMap (srv s)" "buffered (ctx_of v q) = buffered (ctx_of (srv s) q)"
    "arriving v q = arriving (srv s) q" "sent_ahead v q = sent_ahead (srv s) q"
    and tasks: "m_taskQueue v = m_taskQueue (srv s) @ ts" "\<forall>t\<in>set ts. t_connId t \<noteq> connId (ctx_of (srv s) q)"
    "running v = running (srv s)" "m_readyCoros v = m_readyCoros (srv s)"
  shows "reads_at pb (s\<lparr>srv := v\<rparr>) fd q \<and> writes_at (s\<lparr>srv := v\<rparr>) q"
proof -
  have "filter_mset (\<lambda>t. t_connId t = connId (ctx_of (srv s) q)) (mset ts) = {#}"
    using tasks(2) by (simp add: filter_empty_conv flip: mset_filter)
  then have "dispatched (s\<lparr>srv := v\<rparr>) (connId (ctx_of (srv s) q)) = dispatched s (connId (ctx_of (srv s) q))"
    by (simp add: dispatched_def tasks)
  then show ?thesis
    using unsent_buffered [OF k(3)]
    by (intro conjI reads_same [OF at(1), where d = "[]"] writes_same [OF at(2)]) (simp_all add: k tasks(4))
qed

lemma other_id:
  "conn_ids v \<Longrightarrow> p < m_nConns (mgr v) \<Longrightarrow> q < m_nConns (mgr v) \<Longrightarrow> p \<noteq> q \<Longrightarrow> connId (ctx_of v p) \<noteq> connId (ctx_of v q)"
  by (auto simp: conn_ids_def)

lemma streams_reap_recv:
  assumes ok: "streams_ok pb s" "server_ok (srv s)" and cq: "cq (srv s) = e # es" and e: "c_ud e = UdOp (Some p) RECV"
    and act: "m_active (mgr (srv s)) fd = Some p"
    and v: "cq v = es" "m_bufBase v = m_bufBase (srv s)" "m_serviceMap v = m_serviceMap (srv s)"
    "m_active (mgr v) = m_active (mgr (srv s))" "\<And>q. connId (ctx_of v q) = connId (ctx_of (srv s) q)"
    "m_taskQueue v = m_taskQueue (srv s)" "running v = running (srv s)" "m_readyCoros v = m_readyCoros (srv s)"
    "\<And>q. outQueue (ctx_of v q) = outQueue (ctx_of (srv s) q)" "\<And>q. written (ctx_of v q) = written (ctx_of (srv s) q)"
    "\<And>q. input (ctx_of v q) = input (ctx_of (srv s) q) @ (if q = p then recv_data (m_bufBase (srv s)) e else [])"
    and J: "J {(p, RECV)} v"
  shows "streams_ok pb (s\<lparr>srv := handleRecv pb p (c_res e) v\<rparr>)"
  unfolding streams_ok_def
proof (intro allI impI)
  let ?w = "handleRecv pb p (c_res e) v" let ?cid = "connId (ctx_of (srv s) p)"
  let ?t = "s\<lparr>srv := ?w\<rparr>" let ?d = "recv_data (m_bufBase (srv s)) e"
  note k = keeps_handleRecv [of v pb p "c_res e"]
  have fd: "cfd (ctx_of v p) = fd" "\<not> closing (ctx_of v p)" using J_active [OF J] act by (simp_all add: v)
  obtain ts where ts: "m_readyCoros ?w = m_readyCoros v" "m_taskQueue ?w = m_taskQueue v @ ts" "\<forall>t\<in>set ts. t_connId t = ?cid"
    using handleRecv_posts [of v p pb "c_res e"] by (auto simp: posts_def v(5))
  have ids: "conn_ids (srv s)" and J0: "J {} (srv s)" using ok(2) by (simp_all add: server_ok_def reactor_ok_def)
  fix fd' q assume "m_active (mgr (srv ?t)) fd' = Some q"
  then have aw: "m_active (mgr ?w) fd' = Some q" by simp
  then have aq: "m_active (mgr (srv s)) fd' = Some q" using keepsD(14) [OF k, of fd' q] by (simp add: v(4))
  then have at: "reads_at pb s fd' q" "writes_at s q" using ok(1) by (simp_all add: streams_ok_def)
  have b: "cq ?w = es" "m_bufBase ?w = m_bufBase (srv s)" using keepsD(4,6) [OF k] v(1,2) by simp_all
  note pop = arriving_pop [OF cq b, of q]
  show "reads_at pb ?t fd' q \<and> writes_at ?t q"
  proof (cases "q = p")
    case False
    have "buffered (ctx_of ?w q) = buffered (ctx_of (srv s) q)"
      using handleRecv_buffered [of pb p "c_res e" v q] False by (simp add: buffered_def v)
    moreover have "connId (ctx_of (srv s) p) \<noteq> connId (ctx_of (srv s) q)"
      using other_id [OF ids J_active(1) [OF J0 act] J_active(1) [OF J0 aq]] False by blast
    ultimately show ?thesis
      using pop e False ts keepsD(7,8,12) [OF k] by (intro streams_other [OF at, where ts = ts]) (simp_all add: v)
  next
    case True
    have fd': "fd' = fd" using J_active(2) [OF J0 aq] J_active(2) [OF J0 act] True by simp
    obtain seen items where r: "got s ?cid = seen @ arriving (srv s) p"
      "drain (uring_take pb (m_serviceMap (srv s))) uring_closes seen = (items, input (ctx_of (srv s) p))"
      "\<forall>i\<in>set items. \<not> uring_closes i"
      "dispatched s ?cid = mset (map (call_of fd ?cid) (requests_of items))"
      using at(1) unfolding reads_at_def Let_def True fd' by blast
    obtain items2 rest where d2: "drain (uring_take pb (m_serviceMap (srv s))) uring_closes (input (ctx_of (srv s) p) @ ?d) = (items2, rest)"
      by fastforce
    have d: "drain (uring_take pb (m_serviceMap (srv s))) uring_closes (seen @ ?d) = (items @ items2, rest)"
      using uring.drain_append [of pb "m_serviceMap (srv s)" seen ?d] r(2,3) d2 by simp
    have none: "uring_take pb (m_serviceMap (srv s)) (input (ctx_of (srv s) p)) = None"
      using uring.drain_rest_None [of pb "m_serviceMap (srv s)" seen] r(2,3) by simp
    have zero: "c_res e \<le> 0 \<Longrightarrow> items2 = [] \<and> rest = input (ctx_of v p)"
      using d2 uring.drain_None [OF none] by (simp add: recv_data_def v)
    have "m_active (mgr v) fd = Some p" using act by (simp add: v)
    then have R: "(\<forall>i\<in>set items2. \<not> uring_closes i) \<and> input (ctx_of ?w p) = rest \<and>
        m_taskQueue ?w = m_taskQueue v @ map (call_of fd (connId (ctx_of v p))) (requests_of items2)"
      by (rule handleRecv_reads [OF _ fd _ zero]) (use d2 aw True fd' in \<open>simp_all add: v\<close>)
    have "dispatched ?t ?cid = dispatched s ?cid + mset (map (call_of fd ?cid) (requests_of items2))"
    proof -
      have "filter_mset (\<lambda>t. t_connId t = ?cid) (mset (map (call_of fd ?cid) rqs)) = mset (map (call_of fd ?cid) rqs)" for rqs
        by (induction rqs) (simp_all add: call_of_def)
      then show ?thesis using R keepsD(8) [OF k] by (simp add: dispatched_def v del: mset_map)
    qed
    then have dis: "dispatched ?t ?cid = mset (map (call_of fd ?cid) (requests_of (items @ items2)))"
      by (simp add: r(4) requests_of_append)
    have t: "srv ?t = ?w" "got ?t = got s" by simp_all
    have w: "connId (ctx_of ?w p) = ?cid" "m_serviceMap ?w = m_serviceMap (srv s)"
      using keepsD(7,12) [OF k] by (simp_all add: v)
    have "got s ?cid = (seen @ ?d) @ arriving ?w p" using r(1) pop(1) e True by simp
    moreover have "\<forall>i\<in>set (items @ items2). \<not> uring_closes i" using r(3) R by auto
    moreover have "drain (uring_take pb (m_serviceMap (srv s))) uring_closes (seen @ ?d) = (items @ items2, input (ctx_of ?w p))"
      using d R by simp
    ultimately have reads: "reads_at pb ?t fd p"
      unfolding reads_at_def Let_def t w using dis by blast
    have "unsent (ctx_of ?w p) = unsent (ctx_of (srv s) p)"
      using handleRecv_buffered [of pb p "c_res e" v p] by (simp add: unsent_def v)
    moreover have "sent_ahead ?w p = sent_ahead (srv s) p" using pop(2) e True by simp
    moreover have at_p: "writes_at s p" using at(2) True by simp
    ultimately have "writes_at ?t p" by (intro writes_same [OF at_p]) (simp_all add: w(1) ts(1) v(8))
    with reads show ?thesis using True fd' by simp
  qed
qed

lemma streams_reap_send:
  assumes ok: "streams_ok pb s" "server_ok (srv s)" and cq: "cq (srv s) = e # es" and e: "c_ud e = UdOp (Some p) SEND"
    and act: "m_active (mgr (srv s)) fd = Some p"
    and v: "cq v = es" "m_bufBase v = m_bufBase (srv s)" "m_serviceMap v = m_serviceMap (srv s)"
    "m_active (mgr v) = m_active (mgr (srv s))" "\<And>q. connId (ctx_of v q) = connId (ctx_of (srv s) q)"
    "m_taskQueue v = m_taskQueue (srv s)" "running v = running (srv s)" "m_readyCoros v = m_readyCoros (srv s)"
    "\<And>q. outQueue (ctx_of v q) = outQueue (ctx_of (srv s) q)" "\<And>q. written (ctx_of v q) = written (ctx_of (srv s) q)"
    "\<And>q. input (ctx_of v q) = input (ctx_of (srv s) q)"
    and J: "J {(p, SEND)} v"
  shows "streams_ok pb (s\<lparr>srv := handleSend p (c_res e) v\<rparr>)"
  unfolding streams_ok_def
proof (intro allI impI)
  let ?w = "handleSend p (c_res e) v" let ?t = "s\<lparr>srv := ?w\<rparr>" let ?cid = "connId (ctx_of (srv s) p)"
  note k = keeps_handleSend [of v p "c_res e"]
  have fd: "cfd (ctx_of v p) = fd" using J_active [OF J] act by (simp add: v)
  have calls: "m_readyCoros ?w = m_readyCoros (srv s)" "m_taskQueue ?w = m_taskQueue (srv s)"
    using handleSend_calls [of p "c_res e" v] by (simp_all add: v)
  have J0: "J {} (srv s)" and sends: "sends_at (srv s) fd p"
    using ok(2) act by (simp_all add: server_ok_def reactor_ok_def sends_ok_def)
  fix fd' q assume "m_active (mgr (srv ?t)) fd' = Some q"
  then have aw: "m_active (mgr ?w) fd' = Some q" by simp
  then have aq: "m_active (mgr (srv s)) fd' = Some q" using keepsD(14) [OF k, of fd' q] by (simp add: v(4))
  then have at: "reads_at pb s fd' q" "writes_at s q" using ok(1) by (simp_all add: streams_ok_def)
  have b: "cq ?w = es" "m_bufBase ?w = m_bufBase (srv s)" using keepsD(4,6) [OF k] v(1,2) by simp_all
  note pop = arriving_pop [OF cq b, of q]
  note W = handleSend_buffered [of p "c_res e" v q]
  have w: "connId (ctx_of ?w q) = connId (ctx_of (srv s) q)" "m_serviceMap ?w = m_serviceMap (srv s)"
    "running ?w = running (srv s)" using keepsD(7,8,12) [OF k] by (simp_all add: v)
  show "reads_at pb ?t fd' q \<and> writes_at ?t q"
  proof (cases "q = p")
    case False
    then have "buffered (ctx_of ?w q) = buffered (ctx_of (srv s) q)" using W by (simp add: buffered_def v)
    then show ?thesis using pop e False calls w by (intro streams_other [OF at, where ts = "[]"]) simp_all
  next
    case True
    have fd': "fd' = fd" using J_active(2) [OF J0 aq] J_active(2) [OF J0 act] True by simp
    have reads: "reads_at pb ?t fd' q"
      using pop(1) e W calls w by (intro reads_same [OF at(1), where d = "[]"]) (simp_all add: v dispatched_def)
    obtain f qs where q: "outQueue (ctx_of (srv s) p) = f # qs" "written (ctx_of (srv s) p) < length f"
      "unsent (ctx_of (srv s) p) = front_rest (ctx_of (srv s) p) @ concat qs" "out (srv s) p SEND = 1"
      using conn_send [OF J_conn [OF J0 act] cq_out [of e "srv s" p SEND]] cq e by auto
    have "c_res e \<le> int (length (front_rest (ctx_of (srv s) p)))" using sends cq e by (simp add: sends_at_def)
    then have fits: "written (ctx_of v p) + nat (c_res e) \<le> length f" using q by (simp add: front_rest_def v)
    have pos: "0 < c_res e"
    proof (rule ccontr)
      assume "\<not> 0 < c_res e"
      then have "?w = close_fd fd v" by (simp add: handleSend_def fd Let_def)
      then show False using aw fd' by (simp add: close_simps)
    qed
    have "outQueue (ctx_of v p) = f # qs" using q(1) by (simp add: v)
    from handleSend_unsent [OF this pos fits]
    have u: "unsent (ctx_of ?w p) = drop (nat (c_res e)) (unsent (ctx_of (srv s) p))" by (simp add: unsent_def v)
    have "filter (\<lambda>e. c_ud e = UdOp (Some p) SEND) es = []"
      using filter_cq_out [of p SEND "srv s"] cq e q(4) by simp
    then have "sent_ahead ?w p = 0" by (simp add: sent_ahead_def b)
    then have "writes_at ?t p"
      using at(2) pop(2) e True w(1) calls(1) u unfolding writes_at_def Let_def by simp
    then show ?thesis using reads True by simp
  qed
qed

lemma answered_fd:
  assumes "server_ok v" and "m_active (mgr v) fd = Some q"
  shows "\<forall>h\<in>set (m_readyCoros v). t_connId (fst h) = connId (ctx_of v q) \<longrightarrow> t_fd (fst h) = fd"
  using assms ids_okD(4) [of v _ fd q] by (auto simp: server_ok_def calls_def)

lemma streams_reap_notify:
  assumes ok: "streams_ok pb s" "server_ok (srv s)" and cq: "cq (srv s) = e # es" and e: "c_ud e = UdOp None op"
  shows "streams_ok pb (s\<lparr>srv := handleNotify ((srv s)\<lparr>cq := es\<rparr>)\<rparr>)"
  unfolding streams_ok_def
proof (intro allI impI)
  let ?v = "(srv s)\<lparr>cq := es\<rparr>" let ?w = "handleNotify ?v" let ?t = "s\<lparr>srv := ?w\<rparr>" let ?u = "?v\<lparr>m_readyCoros := []\<rparr>"
  note k = keeps_handleNotify [of ?v]
  have J0: "J {} (srv s)" using ok(2) by (simp add: server_ok_def reactor_ok_def)
  have "ops (srv s) = add_mset (None, op) (ops ?v)" using ops_reap [OF cq] e by (simp add: cqe_keys_def)
  then have J: "J {} ?u" by (intro J_same_mgr [OF J0]) (simp_all add: out_def)
  fix fd q assume "m_active (mgr (srv ?t)) fd = Some q"
  then have aw: "m_active (mgr ?w) fd = Some q" by simp
  have act: "m_active (mgr (srv s)) fd = Some q" using keepsD(14) [OF k aw] by simp
  then have at: "reads_at pb s fd q" "writes_at s q" using ok(1) by (simp_all add: streams_ok_def)
  have b: "cq ?w = es" "m_bufBase ?w = m_bufBase (srv s)" using keepsD(4,6) [OF k] by simp_all
  note pop = arriving_pop [OF cq b, of q]
  have R: "input (ctx_of ?w q) = input (ctx_of (srv s) q) \<and> unsent (ctx_of ?w q) = unsent (ctx_of (srv s) q) @
      concat (map snd (filter (\<lambda>h. t_connId (fst h) = connId (ctx_of (srv s) q)) (m_readyCoros (srv s))))"
    using resume_all_buffered [OF J, of "m_readyCoros (srv s)" fd q] aw answered_fd [OF ok(2) act]
    by (simp add: handleNotify_def Let_def)
  have w: "connId (ctx_of ?w q) = connId (ctx_of (srv s) q)" "m_serviceMap ?w = m_serviceMap (srv s)"
    "running ?w = running (srv s)" "m_taskQueue ?w = m_taskQueue (srv s)" "m_readyCoros ?w = []"
    using keepsD(7,8,12) [OF k] resume_all_calls by (simp_all add: handleNotify_def Let_def)
  have "reads_at pb ?t fd q"
    using pop(1) e R w by (intro reads_same [OF at(1), where d = "[]"]) (simp_all add: dispatched_def)
  moreover have "sent_ahead (srv s) q \<le> length (unsent (ctx_of (srv s) q))"
    by (rule sent_ahead_le [of _ fd, OF _ J_conn [OF J0 act]]) (use ok(2) act in \<open>simp add: server_ok_def sends_ok_def\<close>)
  then have "writes_at ?t q"
    using at(2) pop(2) e w(1,5) R unfolding writes_at_def Let_def by simp
  ultimately show "reads_at pb ?t fd q \<and> writes_at ?t q" by blast
qed

text \<open>A new connection starts with a new id, for which nothing is recorded or dispatched.\<close>

lemma streams_reap_accept:
  assumes ok: "streams_ok pb s" "server_ok (srv s)" "fresh_record s" and cq: "cq (srv s) = e # es" and e: "c_ud e = UdOp None op"
  shows "streams_ok pb (s\<lparr>srv := accepted fd ((srv s)\<lparr>cq := es\<rparr>)\<rparr>)"
  unfolding streams_ok_def
proof (intro allI impI)
  let ?v = "(srv s)\<lparr>cq := es\<rparr>" let ?w = "accepted fd ?v" let ?t = "s\<lparr>srv := ?w\<rparr>"
  let ?a = "?v\<lparr>mgr := snd (acquire fd (mgr ?v))\<rparr>" let ?p = "acquire_ptr (mgr (srv s))"
  note k = accepted_keeps [of fd ?v]
  have J: "J {} (srv s)" and ids: "conn_ids (srv s)" "ids_ok (srv s)"
    using ok(2) by (simp_all add: server_ok_def reactor_ok_def)
  fix fd' q assume "m_active (mgr (srv ?t)) fd' = Some q"
  then have "m_active (mgr ?w) fd' = Some q" by simp
  then have act: "m_active (mgr ?a) fd' = Some q" by (rule keepsD(14) [OF k])
  have b: "cq ?w = es" "m_bufBase ?w = m_bufBase (srv s)" using keepsD(4,6) [OF k] by simp_all
  have calls: "m_readyCoros ?w = m_readyCoros (srv s)" "m_taskQueue ?w = m_taskQueue (srv s)"
    "running ?w = running (srv s)" "m_serviceMap ?w = m_serviceMap (srv s)"
    using keepsD(7,8) [OF k] submit_calls(1) [of fd ?a] by (auto simp: accepted_def split: prod.split)
  note B = accepted_buffered [of fd ?v q]
  show "reads_at pb ?t fd' q \<and> writes_at ?t q"
  proof (cases "q = ?p")
    case False
    then have aq: "m_active (mgr (srv s)) fd' = Some q" using act by (auto simp: acquire_simps split: if_splits)
    then have at: "reads_at pb s fd' q" "writes_at s q" using ok(1) by (simp_all add: streams_ok_def)
    have "connId (ctx_of ?w q) = connId (ctx_of (srv s) q)" using keepsD(12) [OF k, of q] False by (simp add: acquire_ctx)
    then show ?thesis
      using arriving_pop [OF cq b, of q] e False calls B by (intro streams_other [OF at, where ts = "[]"]) simp_all
  next
    case True
    let ?n = "nextId (mgr (srv s))"
    have cid: "connId (ctx_of ?w q) = ?n" using keepsD(12) [OF k, of q] True by (simp add: acquire_ctx)
    have none: "c_ud c \<noteq> UdOp (Some q) op" if "c \<in> set es" for c op
    proof
      assume "c_ud c = UdOp (Some q) op"
      then have "out (srv s) q op \<noteq> 0" using that cq by (intro cq_out [of c]) simp_all
      from J_out_not_idle(1,2) [OF J this] show False using True by (auto simp: acquire_ptr_def split: if_splits)
    qed
    have rec: "got s ?n = []" "wire s ?n = []" "\<forall>a\<in>set (answered s). t_connId (fst a) \<noteq> ?n"
      using ok(3) by (auto simp: fresh_record_def)
    have tasks: "\<forall>t\<in>set (calls (srv s)). t_connId t \<noteq> ?n" 
      by (intro ballI less_imp_neq ids_okD(1) [OF ids(2)])
    then have "dispatched ?t ?n = {#}"
      using rec(3) by (auto simp: dispatched_def calls calls_def filter_empty_conv simp flip: mset_filter mset_append mset_map)
    moreover have "arriving ?w q = []" "sent_ahead ?w q = 0"
      using none by (simp_all add: arriving_def sent_ahead_def b filter_empty_conv)
    moreover have "input (ctx_of ?w q) = []" "unsent (ctx_of ?w q) = []"
      using B True by (simp_all add: buffered_def unsent_def)
    moreover have "drain (uring_take pb (m_serviceMap (srv s))) uring_closes [] = ([], [])"
      by (rule uring.drain_None) (simp add: uring_take_def)
    moreover have "filter (\<lambda>h. t_connId (fst h) = ?n) (m_readyCoros (srv s)) = []" "filter (\<lambda>a. t_connId (fst a) = ?n) (answered s) = []"
      using tasks rec(3) by (auto simp: filter_empty_conv calls_def)
    ultimately show ?thesis using rec(1,2) cid calls
      by (simp add: reads_at_def writes_at_def)
  qed
qed

section \<open>Every step\<close>

lemma conn_ids_acquire:
  assumes ids: "conn_ids v" and room: "nextId (mgr v) + 1 \<noteq> 0" and ok: "mgr_ok (mgr v)" and w: "mgr w = snd (acquire fd (mgr v))"
  shows "conn_ids w"
proof -
  let ?p = "acquire_ptr (mgr v)"
  have less: "x \<le> nextId (mgr v) \<Longrightarrow> x < nextId (mgr v) + 1" for x
    using room unatSuc [of "nextId (mgr v)"] by (simp add: add.commute word_less_nat_alt word_le_nat_alt)
  have old: "q < m_nConns (mgr v)" if "q < m_nConns (mgr w)" "q \<noteq> ?p" for q
    using that mgr_ok_idle_last(1) [OF ok] by (auto simp: w acquire_simps acquire_ptr_def split: if_splits)
  have id: "connId (ctx_of w q) = (if q = ?p then nextId (mgr v) else connId (ctx_of v q))" for q
    by (simp add: w acquire_ctx)
  have lt: "connId (ctx_of v q) < nextId (mgr v)" if "q < m_nConns (mgr w)" "q \<noteq> ?p" for q
    using ids old [OF that] by (simp add: conn_ids_def)
  show ?thesis
    unfolding conn_ids_def
  proof (intro conjI allI impI)
    fix p assume "p < m_nConns (mgr w)"
    then have "connId (ctx_of w p) \<le> nextId (mgr v)" using lt [of p] by (cases "p = ?p") (simp_all add: id)
    then show "connId (ctx_of w p) < nextId (mgr w)" using less by (simp add: w acquire_simps)
  next
    fix p q assume "p < m_nConns (mgr w)" "q < m_nConns (mgr w)" "connId (ctx_of w p) = connId (ctx_of w q)"
    then show "p = q" using ids old [of p] old [of q] lt [of p] lt [of q]
      by (auto simp: id conn_ids_def split: if_splits)
  qed
qed

text \<open>Ids are only added.\<close>

definition ids_grow :: "provider \<Rightarrow> provider \<Rightarrow> bool" where
  "ids_grow v w \<longleftrightarrow> (conn_ids v \<longrightarrow> conn_ids w) \<and> nextId (mgr v) \<le> nextId (mgr w)"

lemma ids_grow_same:
  "nextId (mgr w) = nextId (mgr v) \<Longrightarrow> m_nConns (mgr w) = m_nConns (mgr v) \<Longrightarrow>
     (\<And>p. connId (ctx_of w p) = connId (ctx_of v p)) \<Longrightarrow> ids_grow v w"
  by (simp add: ids_grow_def conn_ids_def)

lemma ids_grow_trans: "ids_grow u v \<Longrightarrow> ids_grow v w \<Longrightarrow> ids_grow u w"
  by (auto simp: ids_grow_def)

lemma ids_grow_keeps: "keeps v w \<Longrightarrow> ids_grow v w"
  by (rule ids_grow_same) (simp_all add: keepsD(10-12))

lemma ids_grow_acquire:
  assumes "mgr_ok (mgr v)" and "nextId (mgr v) + 1 \<noteq> 0" and "mgr w = snd (acquire fd (mgr v))"
  shows "ids_grow v w"
proof -
  have "nextId (mgr v) \<le> nextId (mgr v) + 1"
    using assms(2) unatSuc [of "nextId (mgr v)"] by (simp add: add.commute word_le_nat_alt)
  then show ?thesis using conn_ids_acquire [OF _ assms(2,1,3)] assms(3) by (simp add: ids_grow_def acquire_simps)
qed

text \<open>What taking the completion \<open>e\<close> of the environment does, before the operation is started again.\<close>

lemma reap_env_cases:
  assumes ok: "reactor_ok v" and cq: "cq v = e # es" and e: "c_ud e = UdOp None op"
  obtains (notify) "process_cqe pb e (v\<lparr>cq := es\<rparr>) = notify_or_defer (handleNotify (v\<lparr>cq := es\<rparr>))"
  | (failed) "process_cqe pb e (v\<lparr>cq := es\<rparr>) = accept_or_defer (v\<lparr>cq := es\<rparr>)"
  | (accept) "process_cqe pb e (v\<lparr>cq := es\<rparr>) = accept_or_defer (accepted (c_res e) (v\<lparr>cq := es\<rparr>))"
proof -
  have "(None, op) \<in># owed v" using cqe_in_ops [of e v None op] e cq by (simp add: owed_def env_ops_def)
  then have "op = ACCEPT \<or> op = NOTIFY" using ok by (auto simp: reactor_ok_def)
  then show thesis
  proof
    assume "op = NOTIFY"
    then show thesis by (intro notify) (simp add: process_cqe_op [OF e] copy_out_other onComplete_def dispatch_notify)
  next
    assume "op = ACCEPT"
    then have "process_cqe pb e (v\<lparr>cq := es\<rparr>) =
        accept_or_defer (if c_res e < 0 then v\<lparr>cq := es\<rparr> else accepted (c_res e) (v\<lparr>cq := es\<rparr>))"
      by (simp add: process_cqe_op [OF e] copy_out_other onComplete_def dispatch_cqe_def handleAccept_alt)
    then show thesis using failed accept by (cases "c_res e < 0") simp_all
  qed
qed

lemma ids_grow_step:
  assumes step: "provider_step pb v w" and ok: "reactor_ok v" and room: "nextId (mgr w) \<noteq> 0"
  shows "ids_grow v w"
  using step
proof cases
  case (reap e es)
  have J: "J {} v" using ok by (simp add: reactor_ok_def)
  have v: "ids_grow v (v\<lparr>cq := es\<rparr>)" by (rule ids_grow_same) simp_all
  show ?thesis
  proof (cases "c_ud e")
    case (UdOp c op)
    show ?thesis
    proof (cases c)
      case None
      note e = UdOp [unfolded None]
      from ok reap(2) e show ?thesis
      proof (cases rule: reap_env_cases [where pb = pb])
        case notify
        have "ids_grow (handleNotify (v\<lparr>cq := es\<rparr>)) w"
          unfolding reap(1) notify by (rule ids_grow_same) (simp_all add: notify_or_defer_simps)
        then show ?thesis by (rule ids_grow_trans [OF ids_grow_trans [OF v ids_grow_keeps [OF keeps_handleNotify]]])
      next
        case failed
        have "ids_grow (v\<lparr>cq := es\<rparr>) w" unfolding reap(1) failed by (rule ids_grow_same) (simp_all add: accept_or_defer_simps)
        then show ?thesis by (rule ids_grow_trans [OF v])
      next
        case accept
        let ?a = "v\<lparr>cq := es, mgr := snd (acquire (c_res e) (mgr v))\<rparr>" and ?b = "accepted (c_res e) (v\<lparr>cq := es\<rparr>)"
        have k: "keeps ?a ?b" using accepted_keeps [of "c_res e" "v\<lparr>cq := es\<rparr>"] by simp
        have "nextId (mgr v) + 1 \<noteq> 0"
          using room keepsD(10) [OF k] unfolding reap(1) accept accept_or_defer_simps by (simp add: acquire_simps)
        then have "ids_grow v ?a" by (rule ids_grow_acquire [OF J_mgr [OF J]]) simp
        moreover have "ids_grow ?b w" unfolding reap(1) accept by (rule ids_grow_same) (simp_all add: accept_or_defer_simps)
        ultimately show ?thesis using ids_grow_trans ids_grow_keeps [OF k] by blast
      qed
    next
      case (Some p)
      note e = UdOp [unfolded Some]
      from J reap(2) e obtain s2 where s2: "w = s2 \<or> w = dispatch_cqe pb op (Some p) (c_res e) s2 \<and> (op = RECV \<or> op = SEND)"
        and f: "nextId (mgr s2) = nextId (mgr v)" "\<And>q. connId (ctx_of s2 q) = connId (ctx_of v q)"
        "m_nConns (mgr s2) = m_nConns (mgr v)"
        unfolding reap(1) by (rule reap_connection_state [where pb = pb]) blast
      have "ids_grow v s2" by (rule ids_grow_same) (simp_all add: f)
      moreover have "ids_grow s2 w"
        using s2 ids_grow_keeps keeps_handleRecv keeps_handleSend ids_grow_keeps [OF keeps_refl] by (auto simp: dispatch_cqe_def)
      ultimately show ?thesis by (rule ids_grow_trans)
    qed
  next
    case (UdCoro r)
    then show ?thesis unfolding reap(1) by (intro ids_grow_same) (simp_all add: process_cqe_def)
  qed
qed (rule ids_grow_same;
    simp add: retry_simps flush_sq_def complete_def workerThread_take_def onPoolDone_def resumeOnReactor_def Let_def
      split: list.split)+

lemma streams_srv:
  "streams_ok pb (s\<lparr>srv := v\<rparr>) \<Longrightarrow> mgr w = mgr v \<Longrightarrow> m_serviceMap w = m_serviceMap v \<Longrightarrow>
     m_readyCoros w = m_readyCoros v \<Longrightarrow> m_taskQueue w = m_taskQueue v \<Longrightarrow> running w = running v \<Longrightarrow>
     cq w = cq v \<Longrightarrow> m_bufBase w = m_bufBase v \<Longrightarrow> streams_ok pb (s\<lparr>srv := w\<rparr>)"
  using streams_quiet [of pb "s\<lparr>srv := v\<rparr>" w] arriving_cong [of w v] sent_ahead_cong [of w v] by simp

lemma streams_reap:
  assumes ok: "streams_ok pb s" "server_ok (srv s)" "fresh_record s" and cq: "cq (srv s) = e # es"
  shows "streams_ok pb (s\<lparr>srv := process_cqe pb e ((srv s)\<lparr>cq := es\<rparr>)\<rparr>)"
proof (cases "c_ud e")
  case (UdCoro r)
  have "arriving (srv s) p = arriving (process_cqe pb e ((srv s)\<lparr>cq := es\<rparr>)) p"
    "sent_ahead (srv s) p = sent_ahead (process_cqe pb e ((srv s)\<lparr>cq := es\<rparr>)) p" for p
    by (simp_all add: arriving_pop [OF cq, of "process_cqe pb e ((srv s)\<lparr>cq := es\<rparr>)"] UdCoro process_cqe_def)
  then show ?thesis by (intro streams_quiet [OF ok(1)]) (simp_all add: UdCoro process_cqe_def)
next
  case (UdOp c op)
  have ro: "reactor_ok (srv s)" and J: "J {} (srv s)" using ok(2) by (simp_all add: server_ok_def reactor_ok_def)
  show ?thesis
  proof (cases c)
    case None
    note e = UdOp [unfolded None]
    from ro cq e show ?thesis
    proof (cases rule: reap_env_cases [where pb = pb])
      case notify
      show ?thesis unfolding notify
        by (rule streams_srv [OF streams_reap_notify [OF ok(1,2) cq e]]) (simp_all add: notify_or_defer_simps)
    next
      case failed
      have "streams_ok pb (s\<lparr>srv := (srv s)\<lparr>cq := es\<rparr>\<rparr>)"
        by (rule streams_quiet [OF ok(1)]) (simp_all add: arriving_pop [OF cq, of "(srv s)\<lparr>cq := es\<rparr>"] e)
      then show ?thesis unfolding failed by (rule streams_srv) (simp_all add: accept_or_defer_simps)
    next
      case accept
      show ?thesis unfolding accept
        by (rule streams_srv [OF streams_reap_accept [OF ok cq e]]) (simp_all add: accept_or_defer_simps)
    qed
  next
    case (Some p)
    note e = UdOp [unfolded Some]
    let ?w = "process_cqe pb e ((srv s)\<lparr>cq := es\<rparr>)"
    from J cq e obtain v where v: "?w = v \<and> J {} v \<or> ?w = dispatch_cqe pb op (Some p) (c_res e) v \<and>
       (\<exists>fd. m_active (mgr v) fd = Some p \<and> J {(p, op)} v \<and>
         (op = SEND \<longrightarrow> outQueue (ctx_of v p) \<noteq> []) \<and> (op = RECV \<or> op = SEND))"
      and f: "cq v = es" "m_bufBase v = m_bufBase (srv s)" "m_serviceMap v = m_serviceMap (srv s)"
      "m_active (mgr v) = m_active (mgr (srv s))" "\<And>q. connId (ctx_of v q) = connId (ctx_of (srv s) q)"
      "m_taskQueue v = m_taskQueue (srv s)" "running v = running (srv s)" "m_readyCoros v = m_readyCoros (srv s)"
      "\<And>q. outQueue (ctx_of v q) = outQueue (ctx_of (srv s) q)" "\<And>q. written (ctx_of v q) = written (ctx_of (srv s) q)"
      and sq: "sq v = sq (srv s)" "inkernel v = inkernel (srv s)"
      and paused: "\<And>q. readPaused (ctx_of v q) = readPaused (ctx_of (srv s) q)"
      and i: "\<And>q. input (ctx_of v q) = input (ctx_of (srv s) q) @
         (if q = p \<and> op = RECV \<and> \<not> closing (ctx_of (srv s) p) then recv_data (m_bufBase (srv s)) e else [])"
      by (rule reap_connection_state [where pb = pb]) (rule that)
    show ?thesis
    proof (cases "\<exists>fd. m_active (mgr (srv s)) fd = Some p")
      case False
      then have w: "?w = v" using v by (auto simp: f(4))
      show ?thesis
        unfolding streams_ok_def w
      proof (intro allI impI)
        fix fd q assume "m_active (mgr (srv (s\<lparr>srv := v\<rparr>))) fd = Some q"
        then have act: "m_active (mgr (srv s)) fd = Some q" by (simp add: f(4))
        then have at: "reads_at pb s fd q" "writes_at s q" using ok(1) by (simp_all add: streams_ok_def)
        have "q \<noteq> p" using act False by auto
        then show "reads_at pb (s\<lparr>srv := v\<rparr>) fd q \<and> writes_at (s\<lparr>srv := v\<rparr>) q"
          using arriving_pop [OF cq f(1,2), of q] e
          by (intro streams_other [OF at, where ts = "[]"]) (simp_all add: f i buffered_def)
      qed
    next
      case True
      then obtain fd where act: "m_active (mgr (srv s)) fd = Some p" by blast
      then have open': "\<not> closing (ctx_of (srv s) p)" using J_active [OF J] by blast
      from v show ?thesis
      proof
        assume w: "?w = v \<and> J {} v"
        have "out (srv s) p op \<noteq> 0" using cq_out [of e "srv s" p op] cq e by simp
        then have op: "op = RECV \<or> op = SEND" using J_out_not_idle(3) [OF J] by blast
        have "ops (srv s) = add_mset (Some p, op) (ops v)" by (simp add: ops_def f(1) sq cq cqe_keys_def e)
        then have less: "out (srv s) p op = Suc (out v p op)" by (simp add: out_def)
        have cs: "conn_ok {} (srv s) p" and cv: "conn_ok {} v p"
          using J_conn [OF J act] J_conn [of "{}" v fd p] w act f(4) by simp_all
        have False using op
        proof
          assume "op = RECV"
          then show False using cs cv less paused by (simp add: conn_ok_def held_def split: if_splits)
        next
          assume o: "op = SEND"
          with less have "out (srv s) p SEND \<noteq> 0" by simp
          then obtain x xs where q: "outQueue (ctx_of (srv s) p) = x # xs" "out (srv s) p SEND = 1"
            using conn_send [OF cs] by metis
          then have z: "out v p SEND = 0" and "outQueue (ctx_of v p) \<noteq> []" using less o f(9) [of p] by simp_all
          then have "sending (ctx_of v p)" using cv by (simp add: conn_ok_def)
          then show False using cv z by (simp add: conn_ok_def held_def)
        qed
        then show ?thesis by blast
      next
        assume d: "?w = dispatch_cqe pb op (Some p) (c_res e) v \<and>
          (\<exists>fd. m_active (mgr v) fd = Some p \<and> J {(p, op)} v \<and>
            (op = SEND \<longrightarrow> outQueue (ctx_of v p) \<noteq> []) \<and> (op = RECV \<or> op = SEND))"
        then have Jv: "J {(p, op)} v" and "op = RECV \<or> op = SEND" by blast+
        from this(2) show ?thesis
        proof
          assume o: "op = RECV"
          then have w: "?w = handleRecv pb p (c_res e) v" using d by (simp add: dispatch_cqe_def)
          show ?thesis unfolding w
            by (rule streams_reap_recv [OF ok(1,2) cq e [unfolded o] act f]) (simp add: i o open', use Jv o in simp)
        next
          assume o: "op = SEND"
          then have w: "?w = handleSend p (c_res e) v" using d by (simp add: dispatch_cqe_def)
          show ?thesis unfolding w
            by (rule streams_reap_send [OF ok(1,2) cq e [unfolded o] act f]) (simp add: i o, use Jv o in simp)
        qed
      qed
    qed
  qed
qed

lemma streams_answered:
  assumes ok: "streams_ok pb s" and t: "t \<in> set (running (srv s))"
  shows "streams_ok pb ((record_label (Answered t body) s)\<lparr>srv := onPoolDone t body (srv s)\<rparr>)"
  unfolding streams_ok_def
proof (intro allI impI)
  let ?w = "onPoolDone t body (srv s)" let ?t = "(record_label (Answered t body) s)\<lparr>srv := ?w\<rparr>"
  fix fd q assume "m_active (mgr (srv ?t)) fd = Some q"
  then have at: "reads_at pb s fd q" "writes_at s q"
    using ok by (simp_all add: streams_ok_def onPoolDone_def resumeOnReactor_def Let_def)
  have w: "mgr ?w = mgr (srv s)" "m_serviceMap ?w = m_serviceMap (srv s)" "arriving ?w q = arriving (srv s) q"
    "sent_ahead ?w q = sent_ahead (srv s) q" "m_taskQueue ?w = m_taskQueue (srv s)" "running ?w = remove1 t (running (srv s))"
    "m_readyCoros ?w = m_readyCoros (srv s) @ [(t, answer_frame (t, body))]"
    by (cases body; simp add: onPoolDone_def resumeOnReactor_def Let_def arriving_def sent_ahead_def answer_frame_def)+
  have "dispatched ?t cid = dispatched s cid" for cid
    using t by (simp add: dispatched_def w)
  then have "reads_at pb ?t fd q" by (intro reads_same [OF at(1), where d = "[]"]) (simp_all add: w)
  moreover have "writes_at ?t q" using at(2) by (simp add: writes_at_def Let_def w)
  ultimately show "reads_at pb ?t fd q \<and> writes_at ?t q" by blast
qed

definition traced_ok :: "protobuf \<Rightarrow> traced \<Rightarrow> bool" where
  "traced_ok pb s \<longleftrightarrow> server_ok (srv s) \<and> fresh_record s \<and> streams_ok pb s"

lemma server_ok_step:
  assumes ok: "server_ok v" and step: "provider_step pb v w" and room: "nextId (mgr w) \<noteq> 0"
  shows "server_ok w"
proof -
  have r: "reactor_ok v" "ids_ok v" "sends_ok v" "buffers_ok v" "conn_ids v" using ok by (simp_all add: server_ok_def)
  show ?thesis
    using step_ok [OF step r(1)] step_ids [OF step r(1,2) room] step_sends [OF step r(1,3)] step_buffers [OF step]
      ids_grow_step [OF step r(1) room] r(4,5)
    by (simp add: server_ok_def buffers_ok_def ids_grow_def)
qed

lemma fresh_record_step:
  assumes ok: "server_ok (srv s)" and rec: "fresh_record s" and ev: "provider_event pb (srv s) l w" and grow: "ids_grow (srv s) w"
  shows "fresh_record ((record_label l s)\<lparr>srv := w\<rparr>)"
proof -
  have le: "nextId (mgr (srv s)) \<le> nextId (mgr w)" using grow by (simp add: ids_grow_def)
  have J: "J {} (srv s)" and ids: "conn_ids (srv s)" "ids_ok (srv s)"
    using ok by (simp_all add: server_ok_def reactor_ok_def)
  have ctx: "p < m_nConns (mgr (srv s))" if "l = Received (Some p) d \<or> l = Sent (Some p) d" for p d
    using ev that by (cases rule: provider_event.cases) (auto dest!: kernel_out J_out_not_idle(1) [OF J])
  have run: "t_connId t < nextId (mgr (srv s))" if "l = Answered t body" for t body
    using ev that ids_okD(1) [OF ids(2)] by (cases rule: provider_event.cases) (auto simp: calls_def)
  show ?thesis
  proof (cases l)
    case (Received c d)
    have "log_bytes (srv s) c d (got s) cid = got s cid" if "nextId (mgr (srv s)) \<le> cid" for cid
      by (rule log_bytes_fresh [OF ids(1) _ that]) (use ctx Received in blast)
    then show ?thesis using rec le Received by (fastforce simp: fresh_record_def)
  next
    case (Sent c d)
    have "log_bytes (srv s) c d (wire s) cid = wire s cid" if "nextId (mgr (srv s)) \<le> cid" for cid
      by (rule log_bytes_fresh [OF ids(1) _ that]) (use ctx Sent in blast)
    then show ?thesis using rec le Sent by (fastforce simp: fresh_record_def)
  next
    case (Answered t body)
    then show ?thesis using rec le run by (fastforce simp: fresh_record_def)
  next
    case Internal
    then show ?thesis using rec le by (fastforce simp: fresh_record_def)
  qed
qed

lemma streams_step:
  assumes ok: "streams_ok pb s" "server_ok (srv s)" "fresh_record s" and ev: "provider_event pb (srv s) l w"
  shows "streams_ok pb ((record_label l s)\<lparr>srv := w\<rparr>)"
  using ev
proof cases
  case (sqe_space as)
  then show ?thesis by (simp, intro streams_quiet [OF ok(1)]) (simp_all add: arriving_def sent_ahead_def)
next
  case submit
  then show ?thesis
    by (simp, intro streams_quiet [OF ok(1)]) (simp_all add: arriving_def sent_ahead_def retry_simps flush_sq_def)
next
  case (reap e es)
  then show ?thesis using streams_reap [OF ok reap(3)] by simp
next
  case (k_recv_buffer e bid fl res data)
  then show ?thesis using streams_received [OF ok(1,2) k_recv_buffer(3-6), where res = res and data = data] by simp
next
  case (k_send e fd data res fl)
  then show ?thesis using streams_sent [OF ok(1,2) k_send(3-6), where fl = fl] by simp
next
  case worker_take
  then show ?thesis
    by (simp, intro streams_quiet [OF ok(1)])
      (simp_all add: arriving_def sent_ahead_def workerThread_take_def split: list.split)
next
  case (worker_done t body)
  then show ?thesis using streams_answered [OF ok(1) worker_done(3), of body] by simp
next
  case (k_accept e res fl)
  then show ?thesis
    by (simp, intro streams_quiet [OF ok(1)]) (simp_all add: arriving_complete sent_ahead_complete, simp_all add: complete_def)
next
  case (k_recv_none e res fl)
  then show ?thesis
    by (simp, intro streams_quiet [OF ok(1)])
      (simp_all add: arriving_complete sent_ahead_complete recv_data_def, simp_all add: complete_def)
next
  case (k_notify e res fl)
  then show ?thesis
    by (simp, intro streams_quiet [OF ok(1)]) (simp_all add: arriving_complete sent_ahead_complete, simp_all add: complete_def)
qed

interpretation streams: inductive_invariant traced_start "traced_step pb" "traced_ok pb" for pb
proof (unfold_locales, goal_cases)
  case (1 s)
  then have "provider_start (srv s)" by (simp add: traced_start_def)
  then have "server_ok (srv s)" "m_active (mgr (srv s)) = (\<lambda>_. None)"
    using start_ok buffer_inv.inv_init [of "srv s"] send_inv.inv_init [of "srv s"] ids.inv_init [of "srv s"]
    by (auto simp: server_ok_def conn_ids_def provider_start_def start_loop_state mgr_init_def)
  then show ?case using 1 by (simp add: traced_ok_def traced_start_def fresh_record_def streams_ok_def)
next
  case (2 s t)
  then obtain l w where ev: "provider_event pb (srv s) l w" and w: "nextId (mgr w) \<noteq> 0" "t = (record_label l s)\<lparr>srv := w\<rparr>"
    by (auto simp: traced_step_def)
  have ok: "server_ok (srv s)" "fresh_record s" "streams_ok pb s" using 2 by (simp_all add: traced_ok_def)
  have step: "provider_step pb (srv s) w" using ev provider_step_event by blast
  have "ids_grow (srv s) w" by (rule ids_grow_step [OF step _ w(1)]) (use ok in \<open>simp add: server_ok_def\<close>)
  then show ?case
    using server_ok_step [OF ok(1) step w(1)] fresh_record_step [OF ok(1,2) ev] streams_step [OF ok(3,1,2) ev]
    by (simp add: traced_ok_def w(2))
qed

end
