(* ===== verification/ReactorProgress.thy ===== *)
theory ReactorProgress
  imports ReactorAnswers
begin

text \<open>
  Progress of the io_uring server: from every reachable state in which the reactor has handled all
  completions there is a run, in which no operation fails and no further byte is received, that
  brings the work of a connection to its end: the workers answer every call, and the kernel takes
  every byte of the responses.
\<close>

section \<open>Connections without work\<close>

text \<open>No byte received for the connection waits to be handled, no call and no response of it is left
  in the server, and the kernel has taken every byte of its responses.\<close>

definition settled :: "traced \<Rightarrow> ctx_ptr \<Rightarrow> bool" where
  "settled s p \<longleftrightarrow> (let v = srv s; cid = connId (ctx_of v p) in
     arriving v p = [] \<and> (\<forall>t\<in>set (m_taskQueue v @ running v). t_connId t \<noteq> cid) \<and>
     (\<forall>h\<in>set (m_readyCoros v). t_connId (fst h) \<noteq> cid) \<and> unsent (ctx_of v p) = [])"

section \<open>Runs in which nothing fails\<close>

text \<open>Every completion that waits for the reactor reports success.\<close>

definition smooth :: "protobuf \<Rightarrow> traced \<Rightarrow> traced \<Rightarrow> bool" where
  "smooth pb s t \<longleftrightarrow> traced_step pb s t \<and> (\<forall>e\<in>set (cq (srv t)). 0 < c_res e)"

abbreviation smooth_run :: "protobuf \<Rightarrow> traced \<Rightarrow> traced \<Rightarrow> bool" where
  "smooth_run pb \<equiv> (smooth pb)\<^sup>*\<^sup>*"

lemma smooth_reach:
  "smooth_run pb s t \<Longrightarrow> reach traced_start (traced_step pb) s \<Longrightarrow> reach traced_start (traced_step pb) t"
  by (induction rule: rtranclp_induct) (auto simp: smooth_def intro: reach_step)

lemma smooth_event:
  assumes "provider_event pb (srv s) l v" and "nextId (mgr v) \<noteq> 0" and "\<forall>e\<in>set (cq v). 0 < c_res e"
    and "t = (record_label l s)\<lparr>srv := v\<rparr>"
  shows "smooth_run pb s t"
  using assms by (intro r_into_rtranclp) (auto simp: smooth_def traced_step_def)

lemmas smooth_internal = smooth_event [where l = Internal, simplified]

lemma reach_nextId:
  assumes "reach traced_start (traced_step pb) s"
  shows "nextId (mgr (srv s)) \<noteq> 0"
  using assms
proof (cases rule: reach.cases)
  case reach_init
  then show ?thesis by (auto simp: traced_start_def provider_start_def start_loop_state mgr_init_def)
qed (auto simp: traced_step_def)

section \<open>The workers\<close>

lemma workers_take_all:
  assumes "nextId (mgr (srv s)) \<noteq> 0" and "cq (srv s) = []"
  shows "smooth_run pb s (s\<lparr>srv := (srv s)\<lparr>m_taskQueue := [], running := running (srv s) @ m_taskQueue (srv s)\<rparr>\<rparr>)"
  using assms
proof (induction "m_taskQueue (srv s)" arbitrary: s)
  case (Cons t ts)
  let ?v = "workerThread_take (srv s)"
  have q: "m_taskQueue (srv s) = t # ts" using Cons(2) by simp
  have v: "?v = (srv s)\<lparr>m_taskQueue := ts, running := running (srv s) @ [t]\<rparr>"
    by (simp add: workerThread_take_def q)
  have "smooth_run pb s (s\<lparr>srv := ?v\<rparr>)"
    by (rule smooth_internal [OF provider_event.worker_take]) (use Cons.prems in \<open>simp_all add: v\<close>)
  moreover have "smooth_run pb (s\<lparr>srv := ?v\<rparr>) (s\<lparr>srv := ?v\<lparr>m_taskQueue := [], running := running ?v @ m_taskQueue ?v\<rparr>\<rparr>)"
    using Cons(1) [of "s\<lparr>srv := ?v\<rparr>"] Cons.prems by (simp add: v)
  ultimately have "smooth_run pb s (s\<lparr>srv := ?v\<lparr>m_taskQueue := [], running := running ?v @ m_taskQueue ?v\<rparr>\<rparr>)"
    by (rule rtranclp_trans)
  then show ?case by (simp add: v q)
next
  case Nil
  have "(srv s)\<lparr>m_taskQueue := [], running := running (srv s) @ m_taskQueue (srv s)\<rparr> = srv s" using Nil(1) by simp
  then show ?case by simp
qed

lemma workers_answer_all:
  assumes "nextId (mgr (srv s)) \<noteq> 0" and "cq (srv s) = []"
  shows "smooth_run pb s (s\<lparr>srv := (srv s)\<lparr>running := [], m_readyCoros := m_readyCoros (srv s) @
        map (\<lambda>t. (t, response_frame (rq_id (t_request t)) (f (t_request t)))) (running (srv s))\<rparr>,
      answered := answered s @ map (\<lambda>t. (t, Some (f (t_request t)))) (running (srv s))\<rparr>)"
  using assms
proof (induction "running (srv s)" arbitrary: s)
  case (Cons t ts)
  let ?b = "Some (f (t_request t))"
  let ?v = "onPoolDone t ?b (srv s)" let ?s = "s\<lparr>srv := ?v, answered := answered s @ [(t, ?b)]\<rparr>"
  have q: "running (srv s) = t # ts" using Cons(2) by simp
  have v: "?v = (srv s)\<lparr>running := ts, m_readyCoros := m_readyCoros (srv s) @
      [(t, response_frame (rq_id (t_request t)) (f (t_request t)))]\<rparr>"
    by (simp add: onPoolDone_def resumeOnReactor_def q)
  have "smooth_run pb s ?s"
    by (rule smooth_event [OF provider_event.worker_done [where t = t and body = ?b]]) (use Cons.prems in \<open>simp_all add: q v\<close>)
  moreover have "smooth_run pb ?s (?s\<lparr>srv := ?v\<lparr>running := [], m_readyCoros := m_readyCoros ?v @
        map (\<lambda>t. (t, response_frame (rq_id (t_request t)) (f (t_request t)))) ts\<rparr>,
      answered := answered ?s @ map (\<lambda>t. (t, Some (f (t_request t)))) ts\<rparr>)"
    using Cons(1) [of ?s] Cons.prems by (simp add: v)
  ultimately have "smooth_run pb s (?s\<lparr>srv := ?v\<lparr>running := [], m_readyCoros := m_readyCoros ?v @
        map (\<lambda>t. (t, response_frame (rq_id (t_request t)) (f (t_request t)))) ts\<rparr>,
      answered := answered ?s @ map (\<lambda>t. (t, Some (f (t_request t)))) ts\<rparr>)"
    by (rule rtranclp_trans)
  then show ?case by (simp add: v q)
next
  case Nil
  have eq: "(srv s)\<lparr>running := [], m_readyCoros := m_readyCoros (srv s) @
      map (\<lambda>t. (t, response_frame (rq_id (t_request t)) (f (t_request t)))) (running (srv s))\<rparr> = srv s"
    using Nil(1) by simp
  show ?case unfolding eq using Nil(1) by simp
qed

section \<open>The submission queue\<close>

text \<open>The queue is flushed, what was put off is submitted, and there is room for \<open>n\<close> more entries.\<close>

lemma queue_flushed:
  assumes "nextId (mgr (srv s)) \<noteq> 0" and "cq (srv s) = []"
  shows "\<exists>k. smooth_run pb s (s\<lparr>srv := (srv s)\<lparr>m_acceptPending := False, m_notifyPending := False,
    sqe_answers := replicate n True, sq := [], inkernel := k\<rparr>\<rparr>)"
proof -
  let ?v1 = "(srv s)\<lparr>sqe_answers := [True, True]\<rparr>"
  let ?v2 = "retry_deferred (flush_sq ?v1)" let ?v3 = "retry_deferred (flush_sq ?v2)"
  have v2: "\<exists>q a. ?v2 = (srv s)\<lparr>m_acceptPending := False, m_notifyPending := False, sqe_answers := a, sq := q,
      inkernel := inkernel (srv s) @ sq (srv s)\<rparr>"
    by (cases "srv s") (auto simp: retry_deferred_def flush_sq_def submitAccept_def submitNotifyRead_def get_sqe_def push_sqe_def Let_def)
  then obtain q a where v2: "?v2 = (srv s)\<lparr>m_acceptPending := False, m_notifyPending := False, sqe_answers := a, sq := q,
      inkernel := inkernel (srv s) @ sq (srv s)\<rparr>" by blast
  have v3: "?v3 = (srv s)\<lparr>m_acceptPending := False, m_notifyPending := False, sqe_answers := a, sq := [],
      inkernel := inkernel (srv s) @ sq (srv s) @ q\<rparr>"
    unfolding v2 by (simp add: retry_deferred_def flush_sq_def)
  have "smooth_run pb s (s\<lparr>srv := ?v1\<rparr>)"
    by (rule smooth_internal [OF provider_event.sqe_space]) (use assms in simp_all)
  also have "smooth_run pb (s\<lparr>srv := ?v1\<rparr>) (s\<lparr>srv := ?v2\<rparr>)"
    by (rule smooth_event [where l = Internal and v = ?v2], use provider_event.submit [of pb ?v1] in simp)
      (use assms in \<open>simp_all add: v2\<close>)
  also have "smooth_run pb (s\<lparr>srv := ?v2\<rparr>) (s\<lparr>srv := ?v3\<rparr>)"
    by (rule smooth_event [where l = Internal and v = ?v3], use provider_event.submit [of pb ?v2] in simp)
      (use assms in \<open>simp_all add: v3\<close>)
  also have "smooth_run pb (s\<lparr>srv := ?v3\<rparr>) (s\<lparr>srv := ?v3\<lparr>sqe_answers := replicate n True\<rparr>\<rparr>)"
    by (rule smooth_event [where l = Internal and v = "?v3\<lparr>sqe_answers := replicate n True\<rparr>"],
        use provider_event.sqe_space [of pb ?v3] in simp) (use assms in \<open>simp_all add: v3\<close>)
  also have "?v3\<lparr>sqe_answers := replicate n True\<rparr> = (srv s)\<lparr>m_acceptPending := False, m_notifyPending := False,
      sqe_answers := replicate n True, sq := [], inkernel := inkernel (srv s) @ sq (srv s) @ q\<rparr>"
    unfolding v3 by simp
  finally show ?thesis by blast
qed

section \<open>Delivering\<close>

text \<open>A handler that closes no connection and leaves tasks, ready coroutines and completions alone.\<close>

definition kept :: "provider \<Rightarrow> provider \<Rightarrow> bool" where
  "kept v w \<longleftrightarrow> m_active (mgr w) = m_active (mgr v) \<and> nextId (mgr w) = nextId (mgr v) \<and>
     (\<forall>p. connId (ctx_of w p) = connId (ctx_of v p)) \<and> m_serviceMap w = m_serviceMap v \<and> cq w = cq v \<and>
     m_taskQueue w = m_taskQueue v \<and> running w = running v \<and> m_readyCoros w = m_readyCoros v"

lemma kept_refl [simp]: "kept v v"
  by (simp add: kept_def)

lemma kept_trans [trans]: "kept u v \<Longrightarrow> kept v w \<Longrightarrow> kept u w"
  by (simp add: kept_def)

lemma kept_set_ctx: "(\<And>c. connId (f c) = connId c) \<Longrightarrow> kept v (set_ctx p f v)"
  by (simp add: kept_def set_ctx_def)

text \<open>There is room in the submission queue for \<open>n\<close> entries, and no call for one fails.\<close>

definition room :: "nat \<Rightarrow> provider \<Rightarrow> bool" where
  "room n v \<longleftrightarrow> (\<exists>m\<ge>n. sqe_answers v = replicate m True)"

lemma room_mono: "room n v \<Longrightarrow> m \<le> n \<Longrightarrow> room m v"
  by (auto simp: room_def)

lemma room_get: "room (Suc n) v \<Longrightarrow> \<exists>as. sqe_answers v = True # as \<and> (\<exists>m\<ge>n. as = replicate m True)"
  by (auto simp: room_def Suc_le_eq gr0_conv_Suc elim!: less_imp_Suc_add [THEN exE])

lemma submit_room:
  assumes "room (Suc n) v" and "find_conn fd (mgr v) = Some p"
  shows "submitSend fd v = (ok, w) \<Longrightarrow> ok \<and> kept v w \<and> room n w"
    "submitRecv fd v = (ok, w) \<Longrightarrow> ok \<and> kept v w \<and> room n w \<and> outQueue (ctx_of w q) = outQueue (ctx_of v q) \<and>
      written (ctx_of w q) = written (ctx_of v q)"
proof -
  obtain m where m: "n \<le> m" "sqe_answers v = True # replicate m True" using room_get [OF assms(1)] by auto
  have "room n v" using assms(1) by (rule room_mono) simp
  then show "submitSend fd v = (ok, w) \<Longrightarrow> ok \<and> kept v w \<and> room n w"
    using m assms(2) by (auto simp: submitSend_def get_sqe_def push_sqe_def onSubmit_def set_ctx_def kept_def room_def Let_def
        split: list.splits)
  show "submitRecv fd v = (ok, w) \<Longrightarrow> ok \<and> kept v w \<and> room n w \<and> outQueue (ctx_of w q) = outQueue (ctx_of v q) \<and>
      written (ctx_of w q) = written (ctx_of v q)"
    using m assms(2) by (auto simp: submitRecv_def get_sqe_def push_sqe_def onSubmit_def kept_def room_def Let_def)
qed

lemma deliver_room:
  assumes "room (Suc n) v"
  shows "kept v (deliverResponse fd cid data v) \<and> room n (deliverResponse fd cid data v)"
proof (cases "find_conn fd (mgr v)")
  case None
  then show ?thesis using room_mono [OF assms, of n] by (simp add: deliverResponse_def)
next
  case (Some p)
  let ?u = "set_ctx p (\<lambda>c. c\<lparr>outQueue := outQueue c @ [data]\<rparr>) v"
  have u: "kept v ?u" by (rule kept_set_ctx) simp
  have q: "room (Suc n) ?u" "room n ?u" "room n v" "find_conn fd (mgr ?u) = Some p"
    using assms room_mono [OF assms, of n] Some by (simp_all add: room_def set_ctx_def find_conn_def)
  obtain ok w where sub: "submitSend fd ?u = (ok, w)" by fastforce
  show ?thesis
    using submit_room(1) [OF q(1,4) sub] u q kept_trans [OF u, of w] sub Some by (simp add: deliverResponse_def Let_def)
qed

lemma resume_room:
  "room (length hs) v \<Longrightarrow> kept v (foldl (\<lambda>s h. resume_handleRpc h s) v hs)"
proof (induction hs arbitrary: v)
  case (Cons h hs)
  then have "kept v (resume_handleRpc h v) \<and> room (length hs) (resume_handleRpc h v)"
    using deliver_room [of "length hs" v] room_mono [of "length (h # hs)" v "length hs"]
    by (simp add: resume_handleRpc_def split: prod.split)
  then show ?case using Cons.IH kept_trans by fastforce
qed simp

text \<open>The wake-up of the reactor: it resumes every ready coroutine.\<close>

lemma reactor_notified:
  assumes r: "reach traced_start (traced_step pb) s" and cq: "cq (srv s) = []"
  shows "\<exists>t. smooth_run pb s t \<and> kept ((srv s)\<lparr>m_readyCoros := []\<rparr>) (srv t) \<and> got t = got s \<and> answered t = answered s"
proof -
  let ?n = "length (m_readyCoros (srv s))"
  note n = reach_nextId [OF r]
  obtain k where k: "smooth_run pb s (s\<lparr>srv := (srv s)\<lparr>m_acceptPending := False, m_notifyPending := False,
      sqe_answers := replicate ?n True, sq := [], inkernel := k\<rparr>\<rparr>)" using queue_flushed [OF n cq, of pb ?n] by blast
  define u where "u = s\<lparr>srv := (srv s)\<lparr>m_acceptPending := False, m_notifyPending := False,
      sqe_answers := replicate ?n True, sq := [], inkernel := k\<rparr>\<rparr>"
  have su: "smooth_run pb s u" using k by (simp add: u_def)
  have "traced_ok pb u" by (rule streams.reach_inv [OF smooth_reach [OF su r]])
  then have "owed (srv u) = {#(None, ACCEPT), (None, NOTIFY)#}" by (simp add: traced_ok_def server_ok_def reactor_ok_def)
  then have "(None, NOTIFY) \<in># env_ops (srv u)" by (simp add: owed_def u_def)
  then have "(None, NOTIFY) \<in> sqe_key ` set k" using cq by (auto simp: env_ops_def ops_def u_def)
  then obtain e where e: "e \<in> set (inkernel (srv u))" "s_ctx e = None" "s_op e = NOTIFY" by (auto simp: sqe_key_def u_def)
  let ?v = "complete e 8 0 (srv u)" let ?c = "\<lparr>c_ud = UdOp None NOTIFY, c_res = 8, c_flags = 0\<rparr>"
  have v: "cq ?v = [?c]" "nextId (mgr ?v) \<noteq> 0" using cq n e by (simp_all add: complete_def u_def)
  have uv: "smooth_run pb u (u\<lparr>srv := ?v\<rparr>)"
    by (rule smooth_event [OF provider_event.k_notify [OF e(1,3)]]) (use v in simp_all)
  let ?w = "process_cqe pb ?c (?v\<lparr>cq := []\<rparr>)" let ?x = "?v\<lparr>cq := [], m_readyCoros := []\<rparr>"
  have "?w = notify_or_defer (handleNotify (?v\<lparr>cq := []\<rparr>))"
    by (simp add: process_cqe_def onComplete_def dispatch_notify)
  moreover have "handleNotify (?v\<lparr>cq := []\<rparr>) = foldl (\<lambda>s h. resume_handleRpc h s) ?x (m_readyCoros (srv s))"
    by (simp add: handleNotify_def Let_def complete_def u_def)
  moreover have "room ?n ?x" by (auto simp: room_def complete_def u_def)
  then have "kept ?x (foldl (\<lambda>s h. resume_handleRpc h s) ?x (m_readyCoros (srv s)))" by (rule resume_room)
  ultimately have "kept ?x ?w" by (simp add: kept_def notify_or_defer_simps)
  then have w: "kept ((srv s)\<lparr>m_readyCoros := []\<rparr>) ?w" using cq by (simp add: kept_def complete_def u_def)
  have "smooth_run pb (u\<lparr>srv := ?v\<rparr>) (u\<lparr>srv := ?w\<rparr>)"
    by (rule smooth_event [OF provider_event.reap]) (use v(1) w n cq in \<open>simp_all add: kept_def\<close>)
  with su uv have "smooth_run pb s (u\<lparr>srv := ?w\<rparr>)" by (meson rtranclp_trans)
  with w show ?thesis by (intro exI [of _ "u\<lparr>srv := ?w\<rparr>"]) (simp add: u_def)
qed

section \<open>Sending\<close>

lemma handleSend_room:
  assumes act: "m_active (mgr v) fd = Some p" "cfd (ctx_of v p) = fd"
    and q: "outQueue (ctx_of v p) = f # q" "int (written (ctx_of v p)) + r = int (length f)" "0 < r"
    and room: "room 2 v"
  shows "kept v (handleSend p r v)" "outQueue (ctx_of (handleSend p r v) p) = q"
proof -
  let ?u = "set_ctx p (\<lambda>c. c\<lparr>written := written c + nat r\<rparr>) v"
  let ?w = "set_ctx p (\<lambda>c. c\<lparr>outQueue := tl (outQueue c), written := 0, pendingReqs := pendingReqs c - 1\<rparr>) ?u"
  let ?x = "set_ctx p (\<lambda>c. c\<lparr>readPaused := False\<rparr>) ?w"
  have k: "kept v ?w" "kept v ?x" "room 2 ?w" "room 2 ?x" "find_conn fd (mgr ?w) = Some p" "find_conn fd (mgr ?x) = Some p"
      "outQueue (ctx_of ?w p) = q" "outQueue (ctx_of ?x p) = q"
    using room act q(1)
    by (auto simp: room_def set_ctx_def find_conn_def kept_def)
  obtain y where y: "finish_response fd p ?u = (True, y)" "kept v y" "room 1 y" "find_conn fd (mgr y) = Some p"
      "outQueue (ctx_of y p) = q"
  proof (cases "readPaused (ctx_of ?w p) \<and> pendingReqs (ctx_of ?w p) < kMaxInflightPerConn")
    case True
    obtain ok z where z: "submitRecv fd ?x = (ok, z)" by fastforce
    have Z: "ok \<and> kept ?x z \<and> room 1 z \<and> outQueue (ctx_of z p) = outQueue (ctx_of ?x p) \<and>
        written (ctx_of z p) = written (ctx_of ?x p)"
      by (rule submit_room(2) [OF _ k(6) z]) (use k(4) in \<open>simp add: numeral_2_eq_2\<close>)
    have "finish_response fd p ?u = (True, z)" using True z Z by (simp add: finish_response_def Let_def)
    moreover have "find_conn fd (mgr z) = Some p" using Z k(6) by (simp add: kept_def find_conn_def)
    moreover have "kept v z" using kept_trans [OF k(2), of z] Z by blast
    moreover have "outQueue (ctx_of z p) = q" using Z k(8) by simp
    ultimately show thesis using that Z by blast
  next
    case False
    then have "finish_response fd p ?u = (True, ?w)" by (auto simp: finish_response_def Let_def)
    then show thesis using that k room_mono [OF k(3), of 1] by simp
  qed
  have h: "handleSend p r v = (if q = [] then set_ctx p (\<lambda>c. c\<lparr>sending := False\<rparr>) y
      else let (ok, s3) = submitSend fd y in if \<not> ok then close_fd fd s3 else s3)"
    using act(2) q y(1,5) by (simp add: handleSend_def Let_def set_ctx_def)
  obtain ok z where z: "submitSend fd y = (ok, z)" by fastforce
  have Z: "ok \<and> kept y z \<and> room 0 z" by (rule submit_room(1) [OF _ y(4) z]) (use y(3) in simp)
  have "kept y (set_ctx p (\<lambda>c. c\<lparr>sending := False\<rparr>) y)" by (rule kept_set_ctx) simp
  then show "kept v (handleSend p r v)" using h z Z y(2) by (auto intro: kept_trans)
  show "outQueue (ctx_of (handleSend p r v) p) = q"
    using h z Z y(5) submit_queue(2) [OF z, of p] by (simp add: set_ctx_def)
qed

text \<open>The kernel takes the rest of the front response.\<close>

lemma front_sent:
  assumes r: "reach traced_start (traced_step pb) s" and cq: "cq (srv s) = []"
    and act: "m_active (mgr (srv s)) fd = Some p" and q: "outQueue (ctx_of (srv s) p) = f # q"
  shows "\<exists>t. smooth_run pb s t \<and> kept (srv s) (srv t) \<and> got t = got s \<and> answered t = answered s \<and>
    outQueue (ctx_of (srv t) p) = q"
proof -
  note n = reach_nextId [OF r]
  obtain k where k: "smooth_run pb s (s\<lparr>srv := (srv s)\<lparr>m_acceptPending := False, m_notifyPending := False,
      sqe_answers := replicate 2 True, sq := [], inkernel := k\<rparr>\<rparr>)" using queue_flushed [OF n cq, of pb 2] by blast
  define u where "u = s\<lparr>srv := (srv s)\<lparr>m_acceptPending := False, m_notifyPending := False,
      sqe_answers := replicate 2 True, sq := [], inkernel := k\<rparr>\<rparr>"
  have su: "smooth_run pb s u" using k by (simp add: u_def)
  have "traced_ok pb u" by (rule streams.reach_inv [OF smooth_reach [OF su r]])
  then have ok: "J {} (srv u)" "sends_ok (srv u)" by (simp_all add: traced_ok_def server_ok_def reactor_ok_def)
  have same: "m_active (mgr (srv u)) fd = Some p" "ctx_of (srv u) p = ctx_of (srv s) p" using act by (simp_all add: u_def)
  note a = J_active [OF ok(1) same(1)]
  have c: "out (srv u) p SEND = 1" "written (ctx_of (srv s) p) < length f"
    using J_conn [OF ok(1) same(1)] q same(2) by (auto simp: conn_ok_def held_def split: if_splits)
  then have "count (mset (map sqe_key k)) (Some p, SEND) \<noteq> 0" using cq by (simp add: out_def ops_def u_def)
  then have "(Some p, SEND) \<in> sqe_key ` set k" by (simp add: count_eq_zero_iff)
  then obtain e where e: "e \<in> set (inkernel (srv u))" "s_ctx e = Some p" "s_op e = SEND" by (auto simp: sqe_key_def u_def)
  let ?d = "drop (written (ctx_of (srv s) p)) f"
  have kind: "s_kind e = PrepSend fd ?d"
    using ok(2) same e q by (auto simp: sends_ok_def sends_at_def front_rest_def)
  let ?r = "int (length ?d)"
  let ?v = "complete e ?r 0 (srv u)" let ?c = "\<lparr>c_ud = UdOp (Some p) SEND, c_res = ?r, c_flags = 0\<rparr>"
  have v: "cq ?v = [?c]" "nextId (mgr ?v) \<noteq> 0" "0 < ?r" using cq n e c(2) by (simp_all add: complete_def u_def)
  let ?t = "(record_label (Sent (s_ctx e) (take (nat ?r) ?d)) u)\<lparr>srv := ?v\<rparr>"
  have uv: "smooth_run pb u ?t"
    by (rule smooth_event [OF provider_event.k_send [OF e(1,3) kind] _ _ refl]) (use v in simp_all)
  let ?x = "?v\<lparr>cq := [], mgr := snd (onComplete (Some p) (mgr ?v))\<rparr>"
  have "fst (onComplete (Some p) (mgr ?v)) = False" using a(3) by (simp add: onComplete_def Let_def complete_def)
  then have w: "process_cqe pb ?c (?v\<lparr>cq := []\<rparr>) = handleSend p ?r ?x"
    by (cases "onComplete (Some p) (mgr ?v)") (simp add: process_cqe_def dispatch_cqe_def)
  have x: "m_active (mgr ?x) fd = Some p" "cfd (ctx_of ?x p) = fd" "outQueue (ctx_of ?x p) = f # q"
    "int (written (ctx_of ?x p)) + ?r = int (length f)" "room 2 ?x" "kept (srv s) ?x"
    using a(2,3) same q c(2) cq by (simp_all add: onComplete_def Let_def complete_def room_def kept_def u_def)
  note W = handleSend_room [OF x(1-4) v(3) x(5)]
  have kw: "kept (srv s) (handleSend p ?r ?x)" by (rule kept_trans [OF x(6) W(1)])
  have "srv ?t = ?v" by simp
  moreover have "provider_event pb ?v Internal (handleSend p ?r ?x)"
    unfolding w [symmetric] by (rule provider_event.reap [OF v(1)])
  ultimately have ev: "provider_event pb (srv ?t) Internal (handleSend p ?r ?x)" by (simp only:)
  have "smooth_run pb ?t (?t\<lparr>srv := handleSend p ?r ?x\<rparr>)"
    by (rule smooth_event [OF ev]) (use kw n cq in \<open>simp_all add: kept_def\<close>)
  with su uv have "smooth_run pb s (?t\<lparr>srv := handleSend p ?r ?x\<rparr>)" by (meson rtranclp_trans)
  then show ?thesis using kw W(2) by (intro exI [of _ "?t\<lparr>srv := handleSend p ?r ?x\<rparr>"]) (simp add: u_def)
qed

lemma all_sent:
  assumes "reach traced_start (traced_step pb) s" and "cq (srv s) = []" and "m_active (mgr (srv s)) fd = Some p"
  shows "\<exists>t. smooth_run pb s t \<and> kept (srv s) (srv t) \<and> got t = got s \<and> answered t = answered s \<and>
    outQueue (ctx_of (srv t) p) = []"
  using assms
proof (induction "outQueue (ctx_of (srv s) p)" arbitrary: s)
  case Nil
  then show ?case by (intro exI [of _ s]) simp
next
  case (Cons f q)
  obtain t where t: "smooth_run pb s t" "kept (srv s) (srv t)" "got t = got s" "answered t = answered s"
      "outQueue (ctx_of (srv t) p) = q"
    using front_sent [OF Cons.prems Cons(2) [symmetric]] by blast
  obtain u where "smooth_run pb t u" "kept (srv t) (srv u)" "got u = got t" "answered u = answered t"
      "outQueue (ctx_of (srv u) p) = []"
    using Cons(1) [of t] t(2,5) Cons.prems smooth_reach [OF t(1) Cons.prems(1)] by (auto simp: kept_def)
  then show ?case using t kept_trans [OF t(2), of "srv u"] by (intro exI [of _ u]) (auto intro: rtranclp_trans)
qed

section \<open>Every connection can come to rest\<close>

lemma can_settle:
  fixes f :: "request \<Rightarrow> bytes"
  assumes r: "reach traced_start (traced_step pb) s" and act: "m_active (mgr (srv s)) fd = Some p" and cq: "cq (srv s) = []"
  shows "\<exists>t. smooth_run pb s t \<and> m_active (mgr (srv t)) fd = Some p \<and>
    connId (ctx_of (srv t) p) = connId (ctx_of (srv s) p) \<and> m_serviceMap (srv t) = m_serviceMap (srv s) \<and>
    settled t p \<and> got t = got s \<and>
    answered t = answered s @ map (\<lambda>t. (t, Some (f (t_request t)))) (running (srv s) @ m_taskQueue (srv s))"
proof -
  note n = reach_nextId [OF r]
  let ?ts = "running (srv s) @ m_taskQueue (srv s)"
  define a where "a = s\<lparr>srv := (srv s)\<lparr>m_taskQueue := [], running := ?ts\<rparr>\<rparr>"
  have sa: "smooth_run pb s a" unfolding a_def by (rule workers_take_all [OF n cq])
  define b where "b = a\<lparr>srv := (srv a)\<lparr>running := [], m_readyCoros := m_readyCoros (srv a) @
        map (\<lambda>t. (t, response_frame (rq_id (t_request t)) (f (t_request t)))) (running (srv a))\<rparr>,
      answered := answered a @ map (\<lambda>t. (t, Some (f (t_request t)))) (running (srv a))\<rparr>"
  have ab: "smooth_run pb a b" unfolding b_def by (rule workers_answer_all) (use n cq in \<open>simp_all add: a_def\<close>)
  have rb: "reach traced_start (traced_step pb) b" by (rule smooth_reach [OF ab smooth_reach [OF sa r]])
  have cqb: "cq (srv b) = []" using cq by (simp add: a_def b_def)
  obtain c where c: "smooth_run pb b c" "kept ((srv b)\<lparr>m_readyCoros := []\<rparr>) (srv c)" "got c = got b" "answered c = answered b"
    using reactor_notified [OF rb cqb] by blast
  have rc: "reach traced_start (traced_step pb) c" by (rule smooth_reach [OF c(1) rb])
  have "cq (srv c) = []" "m_active (mgr (srv c)) fd = Some p" using c(2) act cq by (simp_all add: kept_def a_def b_def)
  from all_sent [OF rc this] obtain d where d: "smooth_run pb c d" "kept (srv c) (srv d)" "got d = got c" "answered d = answered c"
    "outQueue (ctx_of (srv d) p) = []" by blast
  have k: "kept ((srv b)\<lparr>m_readyCoros := []\<rparr>) (srv d)" by (rule kept_trans [OF c(2) d(2)])
  have "traced_ok pb d" by (rule streams.reach_inv [OF smooth_reach [OF d(1) rc]])
  then have "J {} (srv d)" by (simp add: traced_ok_def server_ok_def reactor_ok_def)
  moreover have "m_active (mgr (srv d)) fd = Some p" using k act by (simp add: kept_def a_def b_def)
  ultimately have "written (ctx_of (srv d) p) = 0" using d(5) J_conn [of "{}" "srv d" fd p] by (simp add: conn_ok_def)
  then have "settled d p" using k d(5) cq by (simp add: settled_def arriving_def unsent_def kept_def a_def b_def)
  moreover have "smooth_run pb s d" using sa ab c(1) d(1) by (meson rtranclp_trans)
  ultimately show ?thesis
    using k c(3,4) d(3,4) act by (intro exI [of _ d]) (simp add: kept_def a_def b_def)
qed

end
