(* ===== verification/ReactorTypes.thy ===== *)
theory ReactorTypes
  imports ReactorFlow
begin

text \<open>
  What the server calls: every call that is queued, runs in the pool or waits for the delivery of
  its response was resolved in the service table, so that its method is one of its service and its
  argument a message of the method's request type.
\<close>

section \<open>The service table\<close>

definition published :: "service list \<Rightarrow> service_map" where
  "published svcs = foldl (\<lambda>sm svc. NotifyService svc sm) [] svcs"

text \<open>Each key is the name of the service or method it is mapped to.\<close>

definition methods_ok :: "service \<Rightarrow> (bytes \<times> method_desc) list \<Rightarrow> bool" where
  "methods_ok svc mm \<longleftrightarrow> distinct (map fst mm) \<and> (\<forall>(n, md)\<in>set mm. md \<in> set (svc_methods svc) \<and> md_name md = n)"

definition service_map_ok :: "service list \<Rightarrow> service_map \<Rightarrow> bool" where
  "service_map_ok svcs sm \<longleftrightarrow> distinct (map fst sm) \<and>
     (\<forall>(n, info)\<in>set sm. m_service info \<in> set svcs \<and> svc_name (m_service info) = n \<and>
        methods_ok (m_service info) (m_methodMap info))"

lemma methods_ok_insert: "methods_ok svc mm \<Longrightarrow> md \<in> set (svc_methods svc) \<Longrightarrow> methods_ok svc (map_insert (md_name md) md mm)"
  using distinct_map_insert [of mm "md_name md" md] by (auto simp: methods_ok_def map_insert_def)

lemma method_map_ok:
  "methods_ok svc mm \<Longrightarrow> set mds \<subseteq> set (svc_methods svc) \<Longrightarrow>
     methods_ok svc (foldl (\<lambda>mm md. map_insert (md_name md) md mm) mm mds)"
  by (induction mds arbitrary: mm) (simp_all add: methods_ok_insert)

lemma NotifyService_ok: "service_map_ok svcs sm \<Longrightarrow> service_map_ok (svcs @ [svc]) (NotifyService svc sm)"
  using method_map_ok [of svc "[]" "svc_methods svc"] distinct_map_insert [of sm "svc_name svc"]
  by (auto simp: service_map_ok_def NotifyService_def map_insert_def methods_ok_def Let_def)

lemma published_ok: "service_map_ok svcs (published svcs)"
proof (induction svcs rule: rev_induct)
  case (snoc svc svcs)
  then show ?case using NotifyService_ok by (simp add: published_def)
qed (simp add: published_def service_map_ok_def)

text \<open>The first registration of a name stays.\<close>

lemma NotifyService_keeps: "map_of sm n = Some info \<Longrightarrow> map_of (NotifyService svc sm) n = Some info"
  by (auto simp: NotifyService_def map_of_map_insert map_add_def Let_def split: option.split)

section \<open>Resolved calls\<close>

definition resolved :: "protobuf \<Rightarrow> service_map \<Rightarrow> rpc_task \<Rightarrow> bool" where
  "resolved pb sm t \<longleftrightarrow> (\<exists>h args. resolve_request pb sm h args = Request (t_request t))"

lemma resolved_typed:
  assumes "service_map_ok svcs sm" and "resolved pb sm t"
  defines "rq \<equiv> t_request t"
  shows "rq_service rq \<in> set svcs \<and> rq_method rq \<in> set (svc_methods (rq_service rq)) \<and>
    (\<exists>(h :: rpc_header) args. service_name h = svc_name (rq_service rq) \<and> method_name h = md_name (rq_method rq) \<and>
       request_id h = rq_id rq \<and> parse_request pb (rq_method rq) args = Some (rq_msg rq))"
proof -
  obtain h args where "resolve_request pb sm h args = Request rq" using assms(2) by (auto simp: resolved_def rq_def)
  then obtain info md msg where r: "map_of sm (service_name h) = Some info"
    "map_of (m_methodMap info) (method_name h) = Some md" "parse_request pb md args = Some msg"
    "rq = \<lparr>rq_service = m_service info, rq_method = md, rq_id = request_id h, rq_msg = msg\<rparr>"
    by (auto simp: resolve_request_def split: option.splits)
  have s: "m_service info \<in> set svcs \<and> svc_name (m_service info) = service_name h \<and>
      methods_ok (m_service info) (m_methodMap info)"
    using assms(1) map_of_SomeD [OF r(1)] by (auto simp: service_map_ok_def)
  then have "md \<in> set (svc_methods (m_service info)) \<and> md_name md = method_name h"
    using map_of_SomeD [OF r(2)] by (auto simp: methods_ok_def)
  then show ?thesis using s r(3) unfolding r(4) by (intro conjI exI [of _ h] exI [of _ args]) simp_all
qed

definition adds_resolved :: "protobuf \<Rightarrow> provider \<Rightarrow> provider \<Rightarrow> bool" where
  "adds_resolved pb s s' \<longleftrightarrow> m_serviceMap s' = m_serviceMap s \<and>
     (\<forall>t\<in>set (calls s'). t \<in> set (calls s) \<or> resolved pb (m_serviceMap s) t)"

lemma adds_refl [simp]: "adds_resolved pb s s"
  by (simp add: adds_resolved_def)

lemma adds_trans: "adds_resolved pb s t \<Longrightarrow> adds_resolved pb t u \<Longrightarrow> adds_resolved pb s u"
  by (auto simp: adds_resolved_def)

lemma adds_same: "m_serviceMap s' = m_serviceMap s \<Longrightarrow> calls s' = calls s \<Longrightarrow> adds_resolved pb s s'"
  by (simp add: adds_resolved_def)

lemma uring_take_resolves:
  "uring_take pb sm b = Some (Request rq, r) \<Longrightarrow> resolved pb sm \<lparr>t_fd = fd, t_connId = cid, t_request = rq\<rparr>"
  unfolding resolved_def by (auto simp: uring_take_def Let_def split: if_splits option.splits)

lemma tryHandleRequest_adds:
  assumes "tryHandleRequest pb fd p s = (again, s')"
  shows "adds_resolved pb s s'"
proof -
  have "m_serviceMap s' = m_serviceMap s" by (rule keepsD(7) [OF keeps_tryHandleRequest [OF assms]])
  moreover have "running s' = running s" by (rule keepsD(8) [OF keeps_tryHandleRequest [OF assms]])
  moreover have "m_readyCoros s' = m_readyCoros s" using tryHandleRequest_posts [OF assms] by (simp add: posts_def)
  moreover have "\<forall>t\<in>set (m_taskQueue s'). t \<in> set (m_taskQueue s) \<or> resolved pb (m_serviceMap s) t"
    using assms by (auto simp: tryHandleRequest_def handleRpc_def submitTask_def Let_def uring_take_resolves
        split: option.splits req_item.splits)
  ultimately show ?thesis by (auto simp: adds_resolved_def calls_def)
qed

lemma handle_requests_adds: "handle_requests pb fd p s = (normal, s') \<Longrightarrow> adds_resolved pb s s'"
proof (induction pb fd p s arbitrary: normal s' rule: handle_requests.induct)
  case (1 pb fd p s)
  obtain again s1 where t: "tryHandleRequest pb fd p s = (again, s1)" by fastforce
  note P = tryHandleRequest_adds [OF t]
  show ?case
  proof (cases "again \<and> find_conn fd (mgr s1) \<noteq> None")
    case True
    then have "handle_requests pb fd p s1 = (normal, s')"
      using 1(2) t by (auto simp: handle_requests.simps [of pb fd p s])
    then have "adds_resolved pb s1 s'" using True by (intro 1(1) [OF refl t [symmetric]]) simp_all
    then show ?thesis by (rule adds_trans [OF P])
  next
    case False
    then have "handle_requests pb fd p s = (\<not> again, s1)" by (subst handle_requests.simps) (simp add: t)
    then show ?thesis using 1(2) P by simp
  qed
qed

lemma keeps_adds: "keeps s s' \<Longrightarrow> m_readyCoros s' = m_readyCoros s \<Longrightarrow> m_taskQueue s' = m_taskQueue s \<Longrightarrow> adds_resolved pb s s'"
  using keepsD(7,8) [of s s'] by (simp add: adds_resolved_def calls_def)

lemma submit_adds: "submitRecv fd s = (ok, s') \<Longrightarrow> adds_resolved pb s s'"
  using keeps_adds keeps_submitRecv submit_calls(1) by blast

lemma small_adds [simp]: "adds_resolved pb s (close_fd fd s)" "adds_resolved pb s (set_ctx p f s)"
  by (rule adds_same; simp add: close_fd_def set_ctx_def calls_def)+

lemma handleRecv_adds: "adds_resolved pb s (handleRecv pb p r s)"
proof -
  let ?fd = "cfd (ctx_of s p)"
  obtain normal s1 where h: "handle_requests pb ?fd p s = (normal, s1)" by fastforce
  obtain ok s2 where r: "submitRecv ?fd s1 = (ok, s2)" by fastforce
  obtain ok' s3 where r': "submitRecv ?fd s = (ok', s3)" by fastforce
  note A = handle_requests_adds [OF h] and B = submit_adds [OF r, of pb] and C = submit_adds [OF r', of pb]
  show ?thesis
    using h r r' A adds_trans [OF A B] adds_trans [OF adds_trans [OF A B] small_adds(1)] C adds_trans [OF C small_adds(1)]
      adds_trans [OF A small_adds(2)]
    by (simp add: handleRecv_def Let_def)
qed

lemma handleSend_adds: "adds_resolved pb s (handleSend p r s)"
  using keeps_adds keeps_handleSend handleSend_calls by blast

lemma handleNotify_adds: "adds_resolved pb s (handleNotify s)"
  using keepsD(7,8) [OF keeps_handleNotify [of s]] resume_all_calls [of "s\<lparr>m_readyCoros := []\<rparr>" "m_readyCoros s"]
  by (auto simp: adds_resolved_def calls_def handleNotify_def Let_def)

lemma service_map_rearm [simp]:
  "m_serviceMap (accept_or_defer s) = m_serviceMap s" "m_serviceMap (notify_or_defer s) = m_serviceMap s"
  by (auto simp: accept_or_defer_def notify_or_defer_def submitAccept_def submitNotifyRead_def get_sqe_def push_sqe_def
      Let_def split: list.split prod.split)

lemma rearm_adds: "adds_resolved pb s (accept_or_defer s)" "adds_resolved pb s (notify_or_defer s)"
  by (rule adds_same; simp add: calls_def accept_or_defer_simps notify_or_defer_simps)+

lemma handleAccept_adds: "adds_resolved pb s (handleAccept result s)"
proof -
  let ?s1 = "s\<lparr>mgr := snd (acquire result (mgr s))\<rparr>"
  have "adds_resolved pb s ?s1" by (rule adds_same) (simp_all add: calls_def)
  moreover obtain ok s2 where r: "submitRecv result ?s1 = (ok, s2)" by fastforce
  have "adds_resolved pb ?s1 (accepted result s)"
    using submit_adds [OF r] adds_trans [OF submit_adds [OF r] small_adds(1)] by (auto simp: accepted_def r)
  ultimately show ?thesis
    unfolding handleAccept_alt using adds_trans rearm_adds(1) by (cases "result < 0") (auto intro: adds_trans)
qed

lemma adds_ub: "adds_resolved pb s (s\<lparr>ub := True\<rparr>)"
  by (rule adds_same) (simp_all add: calls_def)

lemma dispatch_adds: "adds_resolved pb s (dispatch_cqe pb op ctx result s)"
proof (cases op)
  case NOTIFY
  have "dispatch_cqe pb NOTIFY ctx result s = notify_or_defer (handleNotify s)"
    by (simp add: dispatch_cqe_def notify_or_defer_def Let_def)
  then show ?thesis using NOTIFY adds_trans [OF handleNotify_adds rearm_adds(2)] by simp
qed (simp_all add: dispatch_cqe_def handleAccept_adds handleRecv_adds handleSend_adds adds_ub split: option.split)

lemma process_adds: "adds_resolved pb s (process_cqe pb e s)"
proof (cases "c_ud e")
  case (UdOp ctx op)
  let ?m = "snd (onComplete ctx (mgr (copy_out ctx op e s)))"
  let ?s2 = "(copy_out ctx op e s)\<lparr>mgr := ?m\<rparr>"
  have "adds_resolved pb s ?s2" by (rule adds_same) (simp_all add: copy_out_same calls_def)
  moreover have "process_cqe pb e s = (if fst (onComplete ctx (mgr (copy_out ctx op e s))) then ?s2
      else dispatch_cqe pb op ctx (c_res e) ?s2)"
    by (simp add: process_cqe_op [OF UdOp] split_def Let_def)
  ultimately show ?thesis using adds_trans [OF _ dispatch_adds] by simp
next
  case (UdCoro req)
  then show ?thesis by (intro adds_same) (simp_all add: process_cqe_def calls_def)
qed

lemma retry_adds: "adds_resolved pb s (retry_deferred (flush_sq s))"
proof (rule adds_same)
  show "m_serviceMap (retry_deferred (flush_sq s)) = m_serviceMap s"
    by (auto simp: retry_deferred_def flush_sq_def submitAccept_def submitNotifyRead_def get_sqe_def push_sqe_def Let_def
        split: list.split prod.split)
qed (simp add: retry_simps calls_def flush_sq_def)

lemma step_adds:
  assumes "provider_step pb s s'"
  shows "adds_resolved pb s s'"
  using assms
proof cases
  case (reap e es)
  have "adds_resolved pb s (s\<lparr>cq := es\<rparr>)" by (rule adds_same) (simp_all add: calls_def)
  then show ?thesis unfolding reap(1) using process_adds by (rule adds_trans)
next
  case submit
  then show ?thesis using retry_adds by simp
next
  case worker_take
  then show ?thesis by (auto simp: workerThread_take_def adds_resolved_def calls_def split: list.splits)
next
  case (worker_done t body)
  then show ?thesis
    by (auto simp: onPoolDone_def resumeOnReactor_def adds_resolved_def calls_def Let_def dest: subsetD [OF set_remove1_subset])
qed (auto simp: adds_resolved_def calls_def complete_def)

interpretation typed: inductive_invariant provider_start "provider_step pb"
  "\<lambda>s. \<forall>t\<in>set (calls s). resolved pb (m_serviceMap s) t" for pb
proof (unfold_locales, goal_cases)
  case (1 s)
  then show ?case by (auto simp: provider_start_def calls_def start_loop_state)
next
  case (2 s t)
  then show ?case using step_adds [of pb s t] by (auto simp: adds_resolved_def)
qed

end
