(* ===== verification/ServerProps.thy ===== *)
theory ServerProps
  imports DemoServer ReactorProgress ReactorTypes
begin

text \<open>
  The properties of the io_uring server. The first group holds in every reachable state of the
  step relation of theory ReactorSteps, the second is about what the handlers compute.
\<close>

section \<open>Reachable states\<close>

lemma demo_values:
  "m_active (mgr demo_running) 7 = Some 0" "ops demo_running = {#(Some 0, RECV), (None, NOTIFY), (None, ACCEPT)#}"
  "ctx_of demo_running 0 = demo_ctx\<lparr>pendingReqs := 1\<rparr>" "cq demo_running = []"
  "buf_ring demo_running = [1..<kBufRingEntries] @ [0]" "calls demo_running = [demo_task]"
  "m_acceptPending demo_running = False" "m_notifyPending demo_running = False"
  by (simp_all add: demo_unfold ops_def sqe_key_def calls_def)





text \<open>C7. The event loop never reads the front of an empty response queue, and never handles a
  receive or send completion without a context: no reachable state has undefined behaviour.\<close>

theorem reactor_no_undefined_behaviour:
  assumes "provider_reach pb s"
  shows "\<not> ub s"
  using reactor.reach_inv [OF assms] by (simp add: reactor_ok_def)

lemma reactor_no_undefined_behaviour_witness: "\<not> ub demo_running"
  using reactor_no_undefined_behaviour [OF demo_run] .

text \<open>C8. The bookkeeping of every open connection is exact: \<open>inflight\<close> is the number of its
  operations between submission and completion, exactly one receive is outstanding unless
  reading is paused, exactly one send is outstanding if and only if \<open>sending\<close> is set, which is
  the case if and only if responses are queued, and then the front one is not fully written.\<close>

theorem connection_operations_exact:
  assumes "provider_reach pb s" and "m_active (mgr s) fd = Some p"
  shows "cfd (ctx_of s p) = fd \<and> \<not> closing (ctx_of s p) \<and>
    inflight (ctx_of s p) = int (count (ops s) (Some p, RECV) + count (ops s) (Some p, SEND)) \<and>
    count (ops s) (Some p, RECV) = (if readPaused (ctx_of s p) then 0 else 1) \<and>
    count (ops s) (Some p, SEND) = (if sending (ctx_of s p) then 1 else 0) \<and>
    sending (ctx_of s p) = (outQueue (ctx_of s p) \<noteq> []) \<and>
    (if outQueue (ctx_of s p) = [] then written (ctx_of s p) = 0
     else written (ctx_of s p) < length (hd (outQueue (ctx_of s p))))"
proof (intro conjI)
  have J: "J {} s" using reactor.reach_inv [OF assms(1)] by (simp add: reactor_ok_def)
  show "cfd (ctx_of s p) = fd" "\<not> closing (ctx_of s p)" using J_active [OF J assms(2)] by auto
  have c: "conn_ok {} s p" by (rule J_conn [OF J assms(2)])
  show "inflight (ctx_of s p) = int (count (ops s) (Some p, RECV) + count (ops s) (Some p, SEND))"
    using J_counts [OF J J_active(1) [OF J assms(2)]] by (simp add: counts_ok_def out_def)
  show "count (ops s) (Some p, RECV) = (if readPaused (ctx_of s p) then 0 else 1)"
    "count (ops s) (Some p, SEND) = (if sending (ctx_of s p) then 1 else 0)"
    "sending (ctx_of s p) = (outQueue (ctx_of s p) \<noteq> [])"
    "if outQueue (ctx_of s p) = [] then written (ctx_of s p) = 0
     else written (ctx_of s p) < length (hd (outQueue (ctx_of s p)))"
    using c by (auto simp: conn_ok_def held_def out_def split: if_splits)
qed

lemma connection_operations_exact_witness:
  "inflight (ctx_of demo_running 0) = 1 \<and> count (ops demo_running) (Some 0, RECV) = 1"
  using connection_operations_exact [OF demo_run, of 7 0] by (simp add: demo_values demo_unfold)

text \<open>C9. A completion never meets a recycled context: an operation that is outstanding for a
  context is a receive or a send, the context exists and is not in the pool of contexts that
  \<open>acquire\<close> hands out again.\<close>

theorem outstanding_operation_keeps_context:
  assumes "provider_reach pb s" and "(Some p, op) \<in># ops s"
  shows "p < m_nConns (mgr s) \<and> p \<notin> set (m_idlePool (mgr s)) \<and> 0 < inflight (ctx_of s p) \<and> (op = RECV \<or> op = SEND)"
proof -
  have J: "J {} s" using reactor.reach_inv [OF assms(1)] by (simp add: reactor_ok_def)
  have o: "out s p op \<noteq> 0" using assms(2) by (simp add: out_def)
  note f = J_out_not_idle [OF J o]
  have "0 < inflight (ctx_of s p)" using J_counts [OF J f(1)] f(3) o by (auto simp: counts_ok_def)
  with f show ?thesis by blast
qed

lemma outstanding_operation_keeps_context_witness: "0 \<notin> set (m_idlePool (mgr demo_running))"
  using outstanding_operation_keeps_context [OF demo_run, of 0 RECV] by (simp add: demo_values)

text \<open>The server never stops accepting and never misses a wake-up: one accept and one read of
  the notification descriptor are outstanding or marked for a retry, never two of a kind.\<close>

theorem accept_and_notify_owed_once:
  assumes "provider_reach pb s"
  shows "count (ops s) (None, ACCEPT) + (if m_acceptPending s then 1 else 0) = 1 \<and>
    count (ops s) (None, NOTIFY) + (if m_notifyPending s then 1 else 0) = 1"
proof
  have o: "owed s = {#(None, ACCEPT), (None, NOTIFY)#}"
    using reactor.reach_inv [OF assms] by (simp add: reactor_ok_def)
  have e: "count (env_ops s) (None, op) = count (ops s) (None, op)" for op by (simp add: env_ops_def)
  show "count (ops s) (None, ACCEPT) + (if m_acceptPending s then 1 else 0) = 1"
    using arg_cong [OF o, of "\<lambda>M. count M (None, ACCEPT)"] by (simp add: owed_def e split: if_splits)
  show "count (ops s) (None, NOTIFY) + (if m_notifyPending s then 1 else 0) = 1"
    using arg_cong [OF o, of "\<lambda>M. count M (None, NOTIFY)"] by (simp add: owed_def e split: if_splits)
qed

lemma accept_and_notify_owed_once_witness: "count (ops demo_running) (None, ACCEPT) = 1"
  using accept_and_notify_owed_once [OF demo_run] by (simp add: demo_values)

text \<open>C24. No receive buffer is lost or handed out twice: the buffers in the ring and those in
  unhandled receive completions are the 1024 buffers, each once.\<close>

theorem receive_buffers_conserved:
  assumes "provider_reach pb s"
  shows "mset (buf_ring s) + mset (concat (map cqe_bids (cq s))) = mset [0..<kBufRingEntries]"
  using buffer_inv.reach_inv [OF assms] by (simp add: buffers_ok_def buffers_def)

lemma receive_buffers_conserved_witness: "mset ([1..<kBufRingEntries] @ [0]) = mset [0..<kBufRingEntries]"
  using receive_buffers_conserved [OF demo_run] by (simp add: demo_values)

lemma deliver_queue:
  assumes "m_active (mgr s) fd' = Some p" and "m_active (mgr s) fd = Some q" and "p = q \<longrightarrow> fd = fd'"
  shows "outQueue (ctx_of (deliverResponse fd cid data s) p) =
     (if fd' = fd \<and> connId (ctx_of s p) = cid then outQueue (ctx_of s p) @ [data] else outQueue (ctx_of s p))"
proof -
  obtain ok s2 where sub: "submitSend fd (set_ctx q (\<lambda>c. c\<lparr>outQueue := outQueue c @ [data]\<rparr>) s) = (ok, s2)" by fastforce
  have q: "outQueue (ctx_of s2 p) = outQueue (ctx_of (set_ctx q (\<lambda>c. c\<lparr>outQueue := outQueue c @ [data]\<rparr>) s) p)"
    using submit_queue(2) [OF sub] by blast
  show ?thesis using assms q sub by (auto simp: deliverResponse_def find_conn_def Let_def)
qed

text \<open>C10. The response of a call reaches the connection the call came from or nobody: as long as
  the 64-bit id counter has not wrapped around, delivering it appends it to the queue of the
  connection with the call's id, which is on the call's descriptor, and changes no other
  connection's queue, although descriptors and contexts are reused.\<close>

theorem response_reaches_its_connection:
  assumes "reach provider_start (fresh_step pb) s" and "t \<in> set (calls s)" and "m_active (mgr s) fd = Some p"
  shows "outQueue (ctx_of (deliverResponse (t_fd t) (t_connId t) data s) p) =
      (if connId (ctx_of s p) = t_connId t then outQueue (ctx_of s p) @ [data] else outQueue (ctx_of s p)) \<and>
    (connId (ctx_of s p) = t_connId t \<longrightarrow> t_fd t = fd)"
proof -
  have ok: "reactor_ok s" "ids_ok s" using ids.reach_inv [OF assms(1)] by auto
  have fd: "connId (ctx_of s p) = t_connId t \<Longrightarrow> t_fd t = fd" using ids_okD(4) [OF ok(2) assms(2,3)] .
  have "outQueue (ctx_of (deliverResponse (t_fd t) (t_connId t) data s) p) =
      (if connId (ctx_of s p) = t_connId t then outQueue (ctx_of s p) @ [data] else outQueue (ctx_of s p))"
  proof (cases "m_active (mgr s) (t_fd t)")
    case None
    then show ?thesis using fd assms(3) by (auto simp: deliverResponse_def find_conn_def)
  next
    case (Some q)
    have "mgr_ok (mgr s)" using ok(1) by (simp add: reactor_ok_def J_def)
    then have "p = q \<longrightarrow> t_fd t = fd" using mgr_ok_inj [of "mgr s"] Some assms(3) by blast
    then show ?thesis using deliver_queue [OF assms(3) Some] fd by auto
  qed
  with fd show ?thesis by blast
qed

lemma response_reaches_its_connection_witness:
  "outQueue (ctx_of (deliverResponse 7 1 [0x6f] demo_running) 0) = [[0x6f]]"
  using response_reaches_its_connection [OF demo_running_reach, of demo_task 7 0 "[0x6f]"]
  by (simp add: demo_values demo_task_def demo_ctx_def reset_def new_ctx_def)

text \<open>C30. What the server calls is well typed: whatever services are published, every call that is queued,
  runs in the pool or waits for its delivery names a published service and a method of that
  service, both by the names in its request's header, and its argument was parsed as the request
  message of that method.\<close>

theorem dispatched_calls_are_typed:
  assumes "provider_reach pb s" and "m_serviceMap s = published svcs" and "t \<in> set (calls s)"
  shows "rq_service (t_request t) \<in> set svcs \<and> rq_method (t_request t) \<in> set (svc_methods (rq_service (t_request t))) \<and>
    (\<exists>(h :: rpc_header) args. service_name h = svc_name (rq_service (t_request t)) \<and>
       method_name h = md_name (rq_method (t_request t)) \<and> request_id h = rq_id (t_request t) \<and>
       parse_request pb (rq_method (t_request t)) args = Some (rq_msg (t_request t)))"
  using typed.reach_inv [OF assms(1)] resolved_typed [OF published_ok, of pb svcs t] assms(2,3) by simp

lemma dispatched_calls_are_typed_witness:
  "rq_method (t_request demo_task) \<in> set (svc_methods demo_service)"
proof -
  have "m_serviceMap demo_running = published [demo_service]"
    by (simp add: published_def demo_unfold demo_services_def)
  from dispatched_calls_are_typed [OF demo_run this, of demo_task] show ?thesis
    by (simp add: demo_values) (simp add: demo_task_def demo_request_def)
qed



section \<open>The handlers\<close>

text \<open>The completion of a receive on an open connection: what the handler starts from.\<close>

lemma recv_completion_state:
  assumes J: "J {} s" and cq: "cq s = e # es" and e: "c_ud e = UdOp (Some p) RECV" "0 < c_res e"
    "cqe_buffer (c_flags e) = Some bid" and act: "m_active (mgr s) fd = Some p"
  obtains s2 where "process_cqe pb e (s\<lparr>cq := es\<rparr>) = handleRecv pb p (c_res e) s2"
    "m_active (mgr s2) = m_active (mgr s)" "cfd (ctx_of s2 p) = fd" "\<not> closing (ctx_of s2 p)"
    "connId (ctx_of s2 p) = connId (ctx_of s p)" "m_taskQueue s2 = m_taskQueue s" "m_serviceMap s2 = m_serviceMap s"
    "input (ctx_of s2 p) = input (ctx_of s p) @ take (nat (c_res e)) (m_bufBase s bid)"
proof -
  note a = J_active [OF J act]
  let ?s0 = "s\<lparr>cq := es\<rparr>"
  let ?s1 = "return_buffer (Some p) (c_res e) bid ?s0"
  let ?s2 = "?s1\<lparr>mgr := snd (onComplete (Some p) (mgr ?s1))\<rparr>"
  have ctx: "ctx_of ?s1 p = appended (take (nat (c_res e)) (m_bufBase s bid)) (ctx_of s p)"
    using e(2) a(3) by (simp add: return_buffer_def appended_def Let_def)
  then have not: "fst (onComplete (Some p) (mgr ?s1)) = False"
    using a(3) by (simp add: onComplete_def appended_def Let_def)
  show thesis
  proof (rule that [of ?s2])
    show "process_cqe pb e ?s0 = handleRecv pb p (c_res e) ?s2"
      using not by (cases "onComplete (Some p) (mgr ?s1)")
        (simp add: process_cqe_op [OF e(1)] copy_out_def e(3) dispatch_cqe_def Let_def)
    show "input (ctx_of ?s2 p) = input (ctx_of s p) @ take (nat (c_res e)) (m_bufBase s bid)"
      using a(3) ctx by (simp add: onComplete_def appended_def Let_def)
  qed (use a ctx in \<open>simp_all add: onComplete_def appended_def return_buffer_def set_ctx_def Let_def\<close>)
qed

text \<open>C11. A receive completion dispatches exactly the requests that the buffered bytes and the new
  ones contain, in order, tagged with the connection's descriptor and id; if one of the items is an
  error (oversized or malformed header, oversized or malformed arguments, unknown service or
  method), the requests before it are dispatched and the connection is closed.\<close>

theorem receive_dispatches_complete_requests:
  assumes "provider_reach pb s" and "cq s = e # es" and "c_ud e = UdOp (Some p) RECV" and "0 < c_res e"
    and "cqe_buffer (c_flags e) = Some bid" and "m_active (mgr s) fd = Some p"
    and "drain (uring_take pb (m_serviceMap s)) uring_closes
           (input (ctx_of s p) @ take (nat (c_res e)) (m_bufBase s bid)) = (items, rest)"
  shows "m_taskQueue (process_cqe pb e (s\<lparr>cq := es\<rparr>)) =
      m_taskQueue s @ map (call_of fd (connId (ctx_of s p))) (requests_of items) \<and>
    ((\<exists>i\<in>set items. uring_closes i) \<longrightarrow> find_conn fd (mgr (process_cqe pb e (s\<lparr>cq := es\<rparr>))) = None)"
proof -
  have J: "J {} s" using reactor.reach_inv [OF assms(1)] by (simp add: reactor_ok_def)
  obtain s2 where s2: "process_cqe pb e (s\<lparr>cq := es\<rparr>) = handleRecv pb p (c_res e) s2"
    "m_active (mgr s2) = m_active (mgr s)" "cfd (ctx_of s2 p) = fd" "\<not> closing (ctx_of s2 p)"
    "connId (ctx_of s2 p) = connId (ctx_of s p)" "m_taskQueue s2 = m_taskQueue s" "m_serviceMap s2 = m_serviceMap s"
    "input (ctx_of s2 p) = input (ctx_of s p) @ take (nat (c_res e)) (m_bufBase s bid)"
    by (rule recv_completion_state [OF J assms(2-6)])
  obtain normal s3 where h: "handle_requests pb fd p s2 = (normal, s3)" by fastforce
  have d: "m_taskQueue s3 = m_taskQueue s2 @ map (call_of fd (connId (ctx_of s2 p))) (requests_of items)"
    "normal = (\<forall>i\<in>set items. \<not> uring_closes i)" "find_conn fd (mgr s3) = (if normal then Some p else None)"
    using handle_requests_drain [OF h, of items rest] assms(6,7) s2 by (simp_all add: find_conn_def)
  obtain ok s4 where sub: "submitRecv fd s3 = (ok, s4)" by fastforce
  have "handleRecv pb p (c_res e) s2 =
      (if \<not> normal then s3
       else if kMaxInflightPerConn \<le> pendingReqs (ctx_of s3 p) then set_ctx p (\<lambda>c. c\<lparr>readPaused := True\<rparr>) s3
       else if \<not> ok then close_fd fd s4 else s4)"
    using s2(3,4) assms(4) h sub by (simp add: handleRecv_def)
  then show ?thesis
    using d s2(1,5,6) submit_calls(1) [OF sub] by (auto split: if_splits)
qed

lemma receive_dispatches_complete_requests_witness: "m_taskQueue demo_queued = [demo_task]"
proof -
  have d: "drain (uring_take demo_pb demo_services) uring_closes demo_bytes = ([Request demo_request], [])"
    using uring.drain_step [OF demo_take] by (simp add: uring.drain_None [OF take_empty])
  have r: "provider_reach demo_pb demo_received" using fresh_reach [OF traced_reach [OF demo_received_reach]] by simp
  have e: "c_ud demo_cqe = UdOp (Some 0) RECV" "0 < c_res demo_cqe" "cqe_buffer (c_flags demo_cqe) = Some 0"
    "c_res demo_cqe = 7"
    by (simp_all add: demo_cqe_def cqe_buffer_def)
  have s: "cq demo_received = [demo_cqe]" "m_active (mgr demo_received) 7 = Some 0"
    "input (ctx_of demo_received 0) = []" "m_bufBase demo_received 0 = demo_bytes"
    "m_serviceMap demo_received = demo_services" "m_taskQueue demo_received = []" "connId (ctx_of demo_received 0) = 1"
    by (simp_all add: demo_received_def demo_unfold)
  have "drain (uring_take demo_pb (m_serviceMap demo_received)) uring_closes
      (input (ctx_of demo_received 0) @ take (nat (c_res demo_cqe)) (m_bufBase demo_received 0)) =
    ([Request demo_request], [])"
    using d by (simp add: s e(4) demo_length)
  from receive_dispatches_complete_requests [OF r s(1) e(1-3) s(2) this]
  show ?thesis by (simp add: demo_recv s call_of_def demo_task_def)
qed

text \<open>The requests do not depend on how the transport cuts the stream: any sequence of
  deliveries whose bytes are the frames of valid requests dispatches exactly these requests.\<close>

theorem requests_independent_of_chunks:
  assumes "find_conn fd (mgr s) = Some p" and "input (ctx_of s p) = []"
    and "\<forall>m\<in>set ms. uring_ok pb (m_serviceMap s) m"
    and "concat chunks = concat (map (\<lambda>(h, hs, args). request_frame hs args) ms)"
  shows "m_taskQueue (foldl (receive_chunk pb fd p) s chunks) = m_taskQueue s @
    map (call_of fd (connId (ctx_of s p)))
      (requests_of (map (\<lambda>(h, hs, args). resolve_request pb (m_serviceMap s) h args) ms))"
proof -
  have "drain (uring_take pb (m_serviceMap s)) uring_closes (concat chunks) =
      (map (\<lambda>(h, hs, args). resolve_request pb (m_serviceMap s) h args) ms, [])"
    using uring_frames.drain_enc_append [of ms pb "m_serviceMap s" "[]"] assms(3,4)
    by (simp add: uring.drain_None [OF take_empty])
  then show ?thesis
    using receive_chunks [OF assms(1), of pb chunks] assms(2) by (simp add: take_empty)
qed

lemma requests_independent_of_chunks_witness:
  "m_taskQueue (foldl (receive_chunk demo_pb 7 0) demo_accepted [take 3 demo_bytes, drop 3 demo_bytes]) = [demo_task]"
proof -
  have a: "find_conn 7 (mgr demo_accepted) = Some 0" "input (ctx_of demo_accepted 0) = []" "m_taskQueue demo_accepted = []"
    "connId (ctx_of demo_accepted 0) = 1" "m_serviceMap demo_accepted = demo_services"
    by (simp_all add: demo_unfold find_conn_def)
  show ?thesis
    using requests_independent_of_chunks [OF a(1,2), of "[(demo_header, [8], [0x78, 0x79])]" demo_pb
        "[take 3 demo_bytes, drop 3 demo_bytes]"] a demo_frame_ok
    by (simp add: demo_bytes_def [symmetric] demo_resolve call_of_def demo_task_def)
qed

text \<open>Partial writes neither skip nor repeat a byte: a send that is prepared or in the kernel for an
  open connection carries exactly the unsent rest of its front response on its descriptor, and a
  completion of \<open>n\<close> bytes removes exactly the first \<open>n\<close> bytes from what the connection still has to
  send, also where one response ends.\<close>

theorem sent_bytes_are_the_responses:
  assumes "provider_reach pb s" and "m_active (mgr s) fd = Some p"
  shows "(\<forall>e\<in>set (sq s @ inkernel s). s_ctx e = Some p \<longrightarrow> s_op e = SEND \<longrightarrow>
      s_kind e = PrepSend fd (drop (written (ctx_of s p)) (hd (outQueue (ctx_of s p))))) \<and>
    (\<forall>e es. cq s = e # es \<longrightarrow> c_ud e = UdOp (Some p) SEND \<longrightarrow> 0 < c_res e \<longrightarrow>
      unsent (ctx_of (process_cqe pb e (s\<lparr>cq := es\<rparr>)) p) = drop (nat (c_res e)) (unsent (ctx_of s p)))"
proof (intro conjI allI impI)
  have ok: "sends_at s fd p" using send_inv.reach_inv [OF assms(1)] assms(2) by (simp add: sends_ok_def)
  then show "\<forall>e\<in>set (sq s @ inkernel s). s_ctx e = Some p \<longrightarrow> s_op e = SEND \<longrightarrow>
      s_kind e = PrepSend fd (drop (written (ctx_of s p)) (hd (outQueue (ctx_of s p))))"
    by (simp add: sends_at_def front_rest_def)
  fix e es
  assume e: "cq s = e # es" "c_ud e = UdOp (Some p) SEND" "0 < c_res e"
  have J: "J {} s" using reactor.reach_inv [OF assms(1)] by (simp add: reactor_ok_def)
  let ?s2 = "s\<lparr>cq := es, mgr := snd (onComplete (Some p) (mgr s))\<rparr>"
  have "fst (onComplete (Some p) (mgr s)) = False"
    using J_active(3) [OF J assms(2)] by (simp add: onComplete_def Let_def)
  then have pr: "process_cqe pb e (s\<lparr>cq := es\<rparr>) = handleSend p (c_res e) ?s2"
    by (cases "onComplete (Some p) (mgr s)") (simp add: process_cqe_op [OF e(2)] copy_out_other dispatch_cqe_def)
  have q: "outQueue (ctx_of ?s2 p) = outQueue (ctx_of s p)" "written (ctx_of ?s2 p) = written (ctx_of s p)"
    using J_active(3) [OF J assms(2)] by (simp_all add: onComplete_def Let_def)
  have "0 < out s p SEND" using e(1,2) by (simp add: out_def ops_def cqe_keys_def)
  then obtain front rest where f: "outQueue (ctx_of s p) = front # rest" "written (ctx_of s p) < length front"
    using J_conn [OF J assms(2)] by (cases "outQueue (ctx_of s p)") (auto simp: conn_ok_def held_def split: if_splits)
  moreover have "c_res e \<le> int (length front - written (ctx_of s p))"
    using ok e f by (simp add: sends_at_def front_rest_def)
  ultimately have "written (ctx_of ?s2 p) + nat (c_res e) \<le> length front" "outQueue (ctx_of ?s2 p) = front # rest"
    using q by (simp_all add: nat_le_iff)
  from handleSend_unsent [OF this(2) e(3) this(1)] q
  show "unsent (ctx_of (process_cqe pb e (s\<lparr>cq := es\<rparr>)) p) = drop (nat (c_res e)) (unsent (ctx_of s p))"
    unfolding pr by (simp add: unsent_def)
qed

lemma sent_bytes_are_the_responses_witness:
  "unsent (ctx_of (process_cqe demo_pb demo_send_cqe (demo_sent\<lparr>cq := []\<rparr>)) 0) = drop 5 demo_reply"
proof -
  have "m_active (mgr demo_sent) 7 = Some 0" "cq demo_sent = [demo_send_cqe]" "unsent (ctx_of demo_sent 0) = demo_reply"
    by (simp_all add: demo_sent_def demo_replied_def demo_mgr_def demo_ctx_def reset_def new_ctx_def unsent_def)
  with sent_bytes_are_the_responses [OF demo_sent_reach, of 7 0] show ?thesis by (simp add: demo_send_cqe_def)
qed

text \<open>Responses leave in the order they are delivered: a delivered response is appended, whole,
  to what the connection still has to send.\<close>

theorem response_appended_whole:
  assumes "provider_reach pb s" and "m_active (mgr s) fd = Some p" and "connId (ctx_of s p) = cid"
  shows "unsent (ctx_of (deliverResponse fd cid data s) p) = unsent (ctx_of s p) @ data"
proof (rule deliverResponse_unsent [OF assms(2,3)])
  have "J {} s" using reactor.reach_inv [OF assms(1)] by (simp add: reactor_ok_def)
  then have "conn_ok {} s p" using assms(2) by (rule J_conn)
  then show "written (ctx_of s p) \<le> length (concat (outQueue (ctx_of s p)))"
    by (cases "outQueue (ctx_of s p)") (auto simp: conn_ok_def)
qed

lemma response_appended_whole_witness: "unsent (ctx_of (deliverResponse 7 1 [5, 6] demo_running) 0) = [5, 6]"
  using response_appended_whole [OF demo_run, of 7 0 1 "[5, 6]"] by (simp add: demo_values) (simp add: demo_unfold unsent_def)

end
