(* ===== verification/MuduoProvider.thy ===== *)
theory MuduoProvider
  imports WireFormat
begin

text \<open>
  \<open>RpcProvider\<close> (include/provider.h, provider.cc): the server on muduo. The library owns the
  connections; the state here is one connection's input buffer, what was sent on it, whether
  its write side is shut down, and the calls handed to the business code. A call's \<open>done\<close>
  is \<open>sendRpcResponse\<close>.
\<close>

record response_tag =
  tag_id :: u64
  tag_request :: request

record muduo_conn =
  buffer :: bytes
  sent_bytes :: bytes
  shut :: bool
  calls_made :: "response_tag list"

text \<open>The loop of \<open>onMessage\<close>: \<open>True\<close> when it ended by the early return.\<close>

function on_message_loop :: "protobuf \<Rightarrow> service_map \<Rightarrow> muduo_conn \<Rightarrow> muduo_conn" where
  "on_message_loop pb sm c =
     (case muduo_take pb sm (buffer c) of
        None \<Rightarrow> c
      | Some (item, rest) \<Rightarrow>
          if muduo_stops item then c\<lparr>shut := True\<rparr>
          else on_message_loop pb sm
            (case item of
               Reject _ \<Rightarrow> c\<lparr>buffer := rest\<rparr>
             | Request rq \<Rightarrow>
                 c\<lparr>buffer := rest, calls_made := calls_made c @ [\<lparr>tag_id = rq_id rq, tag_request = rq\<rparr>]\<rparr>))"
  by auto
termination
proof (relation "measure (\<lambda>(pb, sm, c). length (buffer c))", goal_cases)
  case (2 pb sm c x item rest)
  then have "length rest < length (buffer c)" by (intro muduo_take_shrinks [of pb sm _ item]) simp_all
  then show ?case by (simp split: req_item.split)
qed simp

declare on_message_loop.simps [simp del]

definition onMessage :: "protobuf \<Rightarrow> service_map \<Rightarrow> bytes \<Rightarrow> muduo_conn \<Rightarrow> muduo_conn" where
  "onMessage pb sm data c = on_message_loop pb sm (c\<lparr>buffer := buffer c @ data\<rparr>)"

definition onConnection :: "bool \<Rightarrow> muduo_conn \<Rightarrow> muduo_conn" where
  "onConnection connected c = (if \<not> connected then c\<lparr>shut := True\<rparr> else c)"

text \<open>\<open>body\<close> is the serialised response, \<open>None\<close> when it does not serialise.\<close>

definition sendRpcResponse :: "response_tag \<Rightarrow> bytes option \<Rightarrow> muduo_conn \<Rightarrow> muduo_conn" where
  "sendRpcResponse tag body c =
     (case body of
        Some response_str \<Rightarrow> c\<lparr>sent_bytes := sent_bytes c @ response_frame (tag_id tag) response_str\<rparr>
      | None \<Rightarrow> c)"

definition muduo_new :: muduo_conn where
  "muduo_new = \<lparr>buffer = [], sent_bytes = [], shut = False, calls_made = []\<rparr>"

section \<open>The loop is the stream reader\<close>

definition muduo_calls :: "req_item list \<Rightarrow> response_tag list" where
  "muduo_calls items =
     concat (map (case_req_item (\<lambda>_. []) (\<lambda>rq. [\<lparr>tag_id = rq_id rq, tag_request = rq\<rparr>])) items)"

lemma muduo_calls_simps [simp]:
  "muduo_calls [] = []" "muduo_calls (Reject r # items) = muduo_calls items"
  "muduo_calls (Request rq # items) = \<lparr>tag_id = rq_id rq, tag_request = rq\<rparr> # muduo_calls items"
  "muduo_calls (xs @ ys) = muduo_calls xs @ muduo_calls ys"
  by (simp_all add: muduo_calls_def)

lemma on_message_loop_drain:
  assumes "drain (muduo_take pb sm) muduo_stops (buffer c) = (items, rest)"
  shows "on_message_loop pb sm c =
    c\<lparr>buffer := rest, shut := shut c \<or> (\<exists>i\<in>set items. muduo_stops i),
      calls_made := calls_made c @ muduo_calls items\<rparr>"
  using assms
proof (induction pb sm c arbitrary: items rule: on_message_loop.induct)
  case (1 pb sm c)
  show ?case
  proof (cases "muduo_take pb sm (buffer c)")
    case None
    then show ?thesis using 1(2) by (simp add: muduo.drain_None on_message_loop.simps [of pb sm c])
  next
    case (Some ir)
    obtain item r where ir: "ir = (item, r)" by fastforce
    show ?thesis
    proof (cases "muduo_stops item")
      case True
      then have item: "item = Reject HeaderParseError" by (simp add: muduo_stops_def)
      then have "r = buffer c"
        using Some ir by (auto simp: muduo_take_def resolve_request_def Let_def split: if_splits option.splits)
      moreover have "items = [item]" "rest = r"
        using 1(2) Some ir True muduo.drain_final [of pb sm "buffer c" item r] by simp_all
      ultimately show ?thesis
        using Some ir True item by (simp add: on_message_loop.simps [of pb sm c])
    next
      case False
      let ?c = "case item of Reject _ \<Rightarrow> c\<lparr>buffer := r\<rparr>
         | Request rq \<Rightarrow> c\<lparr>buffer := r, calls_made := calls_made c @ [\<lparr>tag_id = rq_id rq, tag_request = rq\<rparr>]\<rparr>"
      have loop: "on_message_loop pb sm c = on_message_loop pb sm ?c"
        using Some ir False by (simp add: on_message_loop.simps [of pb sm c])
      have b: "buffer ?c = r" by (simp split: req_item.split)
      obtain items' where items': "drain (muduo_take pb sm) muduo_stops r = (items', rest)" "items = item # items'"
        using 1(2) Some ir False muduo.drain_step [of pb sm "buffer c" item r]
        by (cases "drain (muduo_take pb sm) muduo_stops r") auto
      from 1(1) [OF Some _ False] items'(1) b ir
      have "on_message_loop pb sm ?c =
        ?c\<lparr>buffer := rest, shut := shut ?c \<or> (\<exists>i\<in>set items'. muduo_stops i),
          calls_made := calls_made ?c @ muduo_calls items'\<rparr>" by simp
      then show ?thesis unfolding loop using items'(2) False
        by (cases item) simp_all
    qed
  qed
qed

text \<open>A stopped reader meets the same bad header again and makes no further call.\<close>

lemma onMessage_stuck:
  assumes "muduo_take pb sm (buffer c) = Some (item, r)" and "muduo_stops item"
  shows "onMessage pb sm data c = c\<lparr>buffer := buffer c @ data, shut := True\<rparr>"
  using muduo_take_stable [OF assms(1), of data] assms(2)
  by (simp add: onMessage_def on_message_loop.simps [of pb sm "c\<lparr>buffer := buffer c @ data\<rparr>"])

lemma onMessage_calls:
  assumes "muduo_take pb sm (buffer c) = None"
  shows "calls_made (foldl (\<lambda>c data. onMessage pb sm data c) c datas) =
    calls_made c @ muduo_calls (fst (drain (muduo_take pb sm) muduo_stops (buffer c @ concat datas)))"
  using assms
proof (induction datas arbitrary: c)
  case Nil
  then show ?case by (simp add: muduo.drain_None)
next
  case (Cons d ds)
  let ?drain = "drain (muduo_take pb sm) muduo_stops"
  obtain items rest where dr: "?drain (buffer c @ d) = (items, rest)" by fastforce
  have one: "onMessage pb sm d c = c\<lparr>buffer := rest, shut := shut c \<or> (\<exists>i\<in>set items. muduo_stops i),
      calls_made := calls_made c @ muduo_calls items\<rparr>"
    using on_message_loop_drain [of pb sm "c\<lparr>buffer := buffer c @ d\<rparr>" items rest] dr
    by (simp add: onMessage_def)
  show ?case
  proof (cases "\<exists>i\<in>set items. muduo_stops i")
    case False
    then have none: "muduo_take pb sm rest = None"
      using muduo.drain_rest_None [of pb sm "buffer c @ d"] dr by simp
    have "?drain ((buffer c @ d) @ concat ds) = (items @ fst (?drain (rest @ concat ds)), snd (?drain (rest @ concat ds)))"
      using muduo.drain_append [of pb sm "buffer c @ d" "concat ds"] False dr by simp
    then show ?thesis using Cons.IH [of "onMessage pb sm d c"] none one by simp
  next
    case True
    then have last: "fst (?drain ((buffer c @ d) @ concat ds)) = items"
      using muduo.drain_append_final [of pb sm "buffer c @ d" "concat ds"] dr by simp
    let ?c = "onMessage pb sm d c"
    obtain as x where ax: "items = as @ [x]" "muduo_stops x" "\<forall>y\<in>set as. \<not> muduo_stops y"
      using muduo.drain_final_last [of pb sm "buffer c @ d"] True dr by auto
    have bad: "\<exists>item r. muduo_take pb sm (buffer ?c) = Some (item, r) \<and> muduo_stops item"
    proof -
      have "\<exists>item r. muduo_take pb sm (snd (?drain b)) = Some (item, r) \<and> muduo_stops item"
        if "\<exists>i\<in>set (fst (?drain b)). muduo_stops i" for b
        using that
      proof (induction b rule: muduo.drain_induct [of pb sm])
        case (None b)
        then show ?case by (simp add: muduo.drain_None)
      next
        case (Final b a r)
        then have "a = Reject HeaderParseError" by (simp add: muduo_stops_def)
        then have "r = b"
          using Final.hyps(1) by (auto simp: muduo_take_def resolve_request_def Let_def split: if_splits option.splits)
        then show ?case using Final.hyps by (simp add: muduo.drain_final)
      next
        case (Step b a r)
        then show ?case by (simp add: muduo.drain_step [OF Step.hyps])
      qed
      from this [of "buffer c @ d"] True dr one show ?thesis by simp
    qed
    have "calls_made (foldl (\<lambda>c data. onMessage pb sm data c) ?c ds) = calls_made ?c"
      using bad
    proof (induction ds arbitrary: c d)
      case Nil
      then show ?case by simp
    next
      case (Cons e es)
      then obtain item r where t: "muduo_take pb sm (buffer (onMessage pb sm d c)) = Some (item, r)" "muduo_stops item"
        by blast
      note stuck = onMessage_stuck [OF t, of e]
      have "\<exists>item r. muduo_take pb sm (buffer (onMessage pb sm e (onMessage pb sm d c))) = Some (item, r) \<and> muduo_stops item"
        unfolding stuck using muduo_take_stable [OF t(1), of e] t(2) by simp
      from Cons.IH [OF this] show ?case by (simp add: stuck)
    qed
    then show ?thesis using last one by simp
  qed
qed

section \<open>What the server answers\<close>

text \<open>
  The frames the muduo server accepts: no size limits apart from the 32-bit fields, and an
  unknown method is skipped.
\<close>

definition muduo_ok :: "protobuf \<Rightarrow> rpc_header \<times> bytes \<times> bytes \<Rightarrow> bool" where
  "muduo_ok pb m =
     (case m of (h, hs, args) \<Rightarrow>
        parse_header pb hs = Some h \<and> length hs < 2 ^ 32 \<and> unat (args_size h) = length args)"

lemma muduo_take_frame:
  assumes "muduo_ok pb (h, hs, args)"
  shows "muduo_take pb sm (request_frame hs args @ r) = Some (resolve_request pb sm h args, r)"
proof -
  have "unat (of_nat (length hs) :: u32) = length hs"
    using assms by (simp add: muduo_ok_def unat_of_nat)
  then show ?thesis using assms by (auto simp: muduo_take_def request_frame_def muduo_ok_def Let_def)
qed

lemma resolve_not_stop: "\<not> muduo_stops (resolve_request pb sm h args)"
  by (auto simp: resolve_request_def muduo_stops_def split: option.splits)

interpretation muduo_frames: framing "muduo_take pb sm" muduo_stops
  "\<lambda>(h, hs, args). request_frame hs args" "\<lambda>(h, hs, args). resolve_request pb sm h args"
  "muduo_ok pb" for pb sm
  by unfold_locales (auto simp: muduo_take_frame resolve_not_stop)

end
