(* ===== verification/SocketLoops.thy ===== *)
theory SocketLoops
  imports WireFormat
begin

text \<open>
  Blocking transfers. \<open>sendLocked\<close> and \<open>recvAll\<close> of channel.cc and \<open>WriteAll\<close> and
  \<open>ReadExact\<close> of uringtcpclient.cc repeat a system call that may transfer fewer bytes than
  asked. The loops are written once over the call; the locales \<open>writer\<close> and \<open>reader\<close> say
  what is asked of a call, and are interpreted for the BSD socket calls and for io_uring.
\<close>

section \<open>The loops\<close>

function send_loop :: "(bytes \<Rightarrow> 's \<Rightarrow> int \<times> 's) \<Rightarrow> bytes \<Rightarrow> 's \<Rightarrow> bool \<times> 's" where
  "send_loop xfer data s =
     (if data = [] then (True, s)
      else let (ret, s') = xfer data s in
           if ret \<le> 0 then (False, s') else send_loop xfer (drop (nat ret) data) s')"
  by pat_completeness auto
termination by (relation "measure (\<lambda>(x, d, s). length d)") auto

function recv_loop :: "(nat \<Rightarrow> 's \<Rightarrow> int \<times> bytes \<times> 's) \<Rightarrow> nat \<Rightarrow> bytes \<Rightarrow> 's \<Rightarrow> bool \<times> bytes \<times> 's" where
  "recv_loop xfer len received s =
     (if len = 0 then (True, received, s)
      else let (ret, chunk, s') = xfer len s in
           if ret \<le> 0 then (False, received, s')
           else recv_loop xfer (len - nat ret) (received @ chunk) s')"
  by pat_completeness auto
termination by (relation "measure (\<lambda>(x, n, a, s). n)") auto

declare send_loop.simps [simp del] recv_loop.simps [simp del]

locale writer =
  fixes xfer :: "bytes \<Rightarrow> 's \<Rightarrow> int \<times> 's" and sent :: "'s \<Rightarrow> bytes"
  assumes xfer_less: "xfer d s = (r, s') \<Longrightarrow> r \<le> int (length d)"
    and xfer_sent: "xfer d s = (r, s') \<Longrightarrow> sent s' = sent s @ take (nat r) d"
begin

lemma send_loop_sent:
  assumes "send_loop xfer d s = (ok, s')"
  shows "\<exists>k\<le>length d. sent s' = sent s @ take k d \<and> (ok \<longleftrightarrow> k = length d)"
  using assms
proof (induction d arbitrary: s rule: length_induct)
  case (1 d)
  show ?case
  proof (cases "d = []")
    case True
    then show ?thesis using 1(2) by (simp add: send_loop.simps)
  next
    case False
    obtain r s1 where x: "xfer d s = (r, s1)" by fastforce
    note X = xfer_less [OF x] xfer_sent [OF x]
    show ?thesis
    proof (cases "r \<le> 0")
      case True
      then show ?thesis using 1(2) x X False by (intro exI [of _ 0]) (simp add: send_loop.simps [of xfer d])
    next
      case pos: False
      then have l: "send_loop xfer (drop (nat r) d) s1 = (ok, s')"
        using 1(2) x False by (simp add: send_loop.simps [of xfer d])
      have "length (drop (nat r) d) < length d" using pos False by simp
      with 1(1) l obtain k where k: "k \<le> length (drop (nat r) d)"
        "sent s' = sent s1 @ take k (drop (nat r) d)" "ok \<longleftrightarrow> k = length (drop (nat r) d)" by blast
      have "nat r \<le> length d" using X(1) by simp
      then show ?thesis
        using k X(2) by (intro exI [of _ "nat r + k"]) (auto simp: take_add)
    qed
  qed
qed

end

text \<open>A call that makes progress whenever the peer is well behaved.\<close>

locale live_writer = writer +
  fixes good :: "nat \<Rightarrow> 's \<Rightarrow> bool"
  assumes progress: "good n s \<Longrightarrow> d \<noteq> [] \<Longrightarrow> length d \<le> n \<Longrightarrow> xfer d s = (r, s') \<Longrightarrow>
    0 < r \<and> good (n - 1) s'"
begin

lemma send_loop_succeeds: "good n s \<Longrightarrow> length d \<le> n \<Longrightarrow> fst (send_loop xfer d s)"
proof (induction d arbitrary: s n rule: length_induct)
  case (1 d)
  show ?case
  proof (cases "d = []")
    case False
    obtain r s1 where x: "xfer d s = (r, s1)" by fastforce
    note P = progress [OF 1(2) False 1(3) x]
    have "length (drop (nat r) d) < length d" "length (drop (nat r) d) \<le> n - 1"
      using P False 1(3) by (auto simp: Suc_le_eq)
    with 1(1) P have "fst (send_loop xfer (drop (nat r) d) s1)" by blast
    then show ?thesis using x P False by (simp add: send_loop.simps [of xfer d])
  qed (simp add: send_loop.simps)
qed

end

locale reader =
  fixes xfer :: "nat \<Rightarrow> 's \<Rightarrow> int \<times> bytes \<times> 's" and avail :: "'s \<Rightarrow> bytes"
  assumes xfer_avail: "xfer n s = (r, c, s') \<Longrightarrow> 0 < r \<Longrightarrow> length c = nat r \<and> nat r \<le> n \<and> avail s = c @ avail s'"
    and xfer_none: "xfer n s = (r, c, s') \<Longrightarrow> r \<le> 0 \<Longrightarrow> avail s' = avail s"
begin

lemma recv_loop_step:
  "n \<noteq> 0 \<Longrightarrow> xfer n s = (r, c, s') \<Longrightarrow>
     recv_loop xfer n acc s = (if r \<le> 0 then (False, acc, s') else recv_loop xfer (n - nat r) (acc @ c) s')"
  by (simp add: recv_loop.simps [of xfer n])

lemma recv_loop_avail:
  assumes "recv_loop xfer n acc s = (ok, data, s')"
  shows "\<exists>k\<le>n. k \<le> length (avail s) \<and> data = acc @ take k (avail s) \<and> avail s' = drop k (avail s) \<and>
    (ok \<longleftrightarrow> k = n)"
  using assms
proof (induction n arbitrary: s acc rule: less_induct)
  case (less n)
  show ?case
  proof (cases "n = 0")
    case True
    then show ?thesis using less.prems by (simp add: recv_loop.simps)
  next
    case False
    obtain r c s1 where x: "xfer n s = (r, c, s1)" by (cases "xfer n s") auto
    note S = recv_loop_step [OF False x, of acc]
    show ?thesis
    proof (cases "r \<le> 0")
      case True
      then show ?thesis using less.prems S xfer_none [OF x] False by (intro exI [of _ 0]) simp
    next
      case pos: False
      then have X: "length c = nat r" "nat r \<le> n" "avail s = c @ avail s1" using xfer_avail [OF x] by auto
      have "n - nat r < n" using pos False by simp
      moreover have "recv_loop xfer (n - nat r) (acc @ c) s1 = (ok, data, s')" using less.prems S pos by simp
      ultimately obtain k where k: "k \<le> n - nat r" "k \<le> length (avail s1)"
        "data = (acc @ c) @ take k (avail s1)" "avail s' = drop k (avail s1)" "ok \<longleftrightarrow> k = n - nat r"
        using less.IH by blast
      then show ?thesis
        using X by (intro exI [of _ "nat r + k"]) auto
    qed
  qed
qed

lemma recv_loop_ok:
  assumes "recv_loop xfer n [] s = (True, data, s')"
  shows "data = take n (avail s)" "avail s' = drop n (avail s)" "n \<le> length (avail s)"
  using recv_loop_avail [OF assms] by auto

end

locale live_reader = reader +
  fixes good :: "'s \<Rightarrow> bool"
  assumes progress: "good s \<Longrightarrow> avail s \<noteq> [] \<Longrightarrow> 0 < n \<Longrightarrow> xfer n s = (r, c, s') \<Longrightarrow> 0 < r \<and> good s'"
begin

lemma recv_loop_succeeds:
  "good s \<Longrightarrow> n \<le> length (avail s) \<Longrightarrow>
     \<exists>s'. recv_loop xfer n acc s = (True, acc @ take n (avail s), s') \<and> good s' \<and> avail s' = drop n (avail s)"
proof (induction n arbitrary: s acc rule: less_induct)
  case (less n)
  show ?case
  proof (cases "n = 0")
    case True
    then show ?thesis using less.prems by (simp add: recv_loop.simps)
  next
    case False
    obtain r c s1 where x: "xfer n s = (r, c, s1)" by (cases "xfer n s") auto
    have "avail s \<noteq> []" using less.prems False by auto
    note P = progress [OF less.prems(1) this _ x]
    have pos: "0 < r" "good s1" using P False by auto
    have X: "length c = nat r" "nat r \<le> n" "avail s = c @ avail s1" using xfer_avail [OF x pos(1)] by auto
    have "n - nat r < n" "n - nat r \<le> length (avail s1)" using pos False X less.prems by simp_all
    with less.IH pos(2) obtain s' where "recv_loop xfer (n - nat r) (acc @ c) s1 =
        (True, (acc @ c) @ take (n - nat r) (avail s1), s')" "good s'" "avail s' = drop (n - nat r) (avail s1)"
      by blast
    then show ?thesis using recv_loop_step [OF False x, of acc] pos X by simp
  qed
qed

end

section \<open>BSD sockets: \<open>sendLocked\<close> and \<open>recvAll\<close>\<close>

text \<open>
  A connected socket: the bytes the peer has sent and the call has not read, the bytes handed
  to the kernel, and the results the next calls will have (a positive one bounds the bytes
  transferred; when the list is exhausted calls fail).
\<close>

record sock =
  incoming :: bytes
  outgoing :: bytes
  results :: "int list"

definition next_result :: "sock \<Rightarrow> int \<times> sock" where
  "next_result s = (case results s of [] \<Rightarrow> (-1, s) | r # rs \<Rightarrow> (r, s\<lparr>results := rs\<rparr>))"

definition sys_send :: "bytes \<Rightarrow> sock \<Rightarrow> int \<times> sock" where
  "sys_send data s =
     (let (r, s1) = next_result s in
      if r \<le> 0 then (r, s1)
      else let n = min (nat r) (length data) in (int n, s1\<lparr>outgoing := outgoing s1 @ take n data\<rparr>))"

definition sys_recv :: "nat \<Rightarrow> sock \<Rightarrow> int \<times> bytes \<times> sock" where
  "sys_recv len s =
     (let (r, s1) = next_result s in
      if r \<le> 0 then (r, [], s1)
      else let n = min (nat r) (min len (length (incoming s1)))
           in (int n, take n (incoming s1), s1\<lparr>incoming := drop n (incoming s1)\<rparr>))"

definition sendLocked :: "bytes \<Rightarrow> sock \<Rightarrow> bool \<times> sock" where
  "sendLocked data s = send_loop sys_send data s"

definition recvAll :: "nat \<Rightarrow> sock \<Rightarrow> bool \<times> bytes \<times> sock" where
  "recvAll len s = recv_loop sys_recv len [] s"

definition plenty :: "nat \<Rightarrow> sock \<Rightarrow> bool" where
  "plenty n s \<longleftrightarrow> (\<forall>r\<in>set (results s). 0 < r) \<and> n \<le> length (results s)"

lemma next_result_plenty:
  "plenty n s \<Longrightarrow> 0 < n \<Longrightarrow> next_result s = (r, s') \<Longrightarrow>
     0 < r \<and> plenty (n - 1) s' \<and> incoming s' = incoming s \<and> outgoing s' = outgoing s"
  by (cases "results s") (auto simp: plenty_def next_result_def)

lemma next_result_same: "next_result s = (r, s') \<Longrightarrow> incoming s' = incoming s \<and> outgoing s' = outgoing s"
  by (auto simp: next_result_def split: list.splits)

interpretation posix_writer: live_writer sys_send outgoing plenty
proof (unfold_locales, goal_cases)
  case (1 d s r s')
  then show ?case by (auto simp: sys_send_def Let_def split: prod.splits if_splits)
next
  case (2 d s r s')
  then show ?case
    by (auto simp: sys_send_def Let_def min_def dest!: next_result_same split: prod.splits if_splits)
next
  case (3 n s d r s')
  obtain r1 s1 where x: "next_result s = (r1, s1)" by fastforce
  have "0 < n" using 3(2,3) by (cases n) auto
  from next_result_plenty [OF 3(1) this x] 3(2,4) x show ?case
    by (auto simp: sys_send_def Let_def plenty_def)
qed

definition ready :: "sock \<Rightarrow> bool" where
  "ready s \<longleftrightarrow> plenty (length (incoming s)) s"

interpretation posix_reader: live_reader sys_recv incoming ready
proof (unfold_locales, goal_cases)
  case (1 n s r c s')
  then show ?case
    by (auto simp: sys_recv_def Let_def dest!: next_result_same split: prod.splits if_splits)
next
  case (2 n s r c s')
  then show ?case
    by (auto simp: sys_recv_def Let_def dest!: next_result_same split: prod.splits if_splits)
next
  case (3 s n r c s')
  obtain r1 s1 where x: "next_result s = (r1, s1)" by fastforce
  have ne: "0 < length (incoming s)" using 3(2) by simp
  note N = next_result_plenty [OF 3(1) [unfolded ready_def] ne x]
  let ?k = "min (nat r1) (min n (length (incoming s)))"
  have k: "0 < ?k" using N 3(3) ne by simp
  have "r = int ?k" "s' = s1\<lparr>incoming := drop ?k (incoming s1)\<rparr>"
    using 3(4) x N by (auto simp: sys_recv_def Let_def)
  moreover have "length (incoming s) - ?k \<le> length (incoming s) - 1"
    using k by (intro diff_le_mono2) linarith
  ultimately show ?case using N k by (auto simp: ready_def plenty_def)
qed

section \<open>The client's receive thread\<close>

text \<open>One frame: \<open>None\<close> when a read fails or the size is too small.\<close>

definition recv_frame :: "sock \<Rightarrow> (u64 \<times> bytes) option \<times> sock" where
  "recv_frame s =
     (let (ok, b, s1) = recvAll 4 s in
      if \<not> ok then (None, s1)
      else let size = rd32 b in
      if size < 8 then (None, s1)
      else let (ok, b, s2) = recvAll 8 s1 in
      if \<not> ok then (None, s2)
      else let id = rd64 b; body_len = unat size - 8 in
      if body_len = 0 then (Some (id, []), s2)
      else let (ok, body, s3) = recvAll body_len s2 in
      if \<not> ok then (None, s3) else (Some (id, body), s3))"

lemma recvAll_length: "recvAll n s = (True, b, s') \<Longrightarrow> length (incoming s') + n = length (incoming s)"
  unfolding recvAll_def using posix_reader.recv_loop_ok by fastforce

lemma recvAll_shrinks: "recvAll n s = (ok, b, s') \<Longrightarrow> length (incoming s') \<le> length (incoming s)"
  unfolding recvAll_def using posix_reader.recv_loop_avail by fastforce

lemma recv_frame_shrinks: "recv_frame s = (Some x, s') \<Longrightarrow> length (incoming s') < length (incoming s)"
  by (auto simp: recv_frame_def Let_def dest!: recvAll_length split: prod.splits if_splits)

text \<open>The frames \<open>recvLoop\<close> dispatches, in order, until it leaves its loop.\<close>

function recvLoop :: "sock \<Rightarrow> (u64 \<times> bytes) list \<times> sock" where
  "recvLoop s =
     (case recv_frame s of
        (None, s') \<Rightarrow> ([], s')
      | (Some f, s') \<Rightarrow> (case recvLoop s' of (fs, t) \<Rightarrow> (f # fs, t)))"
  by auto
termination
  by (relation "measure (\<lambda>s. length (incoming s))") (use recv_frame_shrinks in \<open>auto simp: eq_commute\<close>)

declare recvLoop.simps [simp del]

primrec response_of :: "response_item \<Rightarrow> (u64 \<times> bytes) list" where
  "response_of BadFrame = []"
| "response_of (Response i b) = [(i, b)]"

lemma recvAll_ok:
  "recvAll n s = (True, b, s') \<Longrightarrow> b = take n (incoming s) \<and> incoming s' = drop n (incoming s) \<and> n \<le> length (incoming s)"
  unfolding recvAll_def using posix_reader.recv_loop_ok by blast

lemma recvAll_ready:
  assumes "ready s" and "recvAll n s = (ok, b, s')"
  shows "ok = (n \<le> length (incoming s))" and "ok \<Longrightarrow> ready s'"
proof -
  have "n \<le> length (incoming s) \<Longrightarrow> ok \<and> ready s'"
    using posix_reader.recv_loop_succeeds [OF assms(1), of n "[]"] assms(2) unfolding recvAll_def by auto
  moreover have "ok \<Longrightarrow> n \<le> length (incoming s)" using recvAll_ok [of n s b s'] assms(2) by simp
  ultimately show "ok = (n \<le> length (incoming s))" "ok \<Longrightarrow> ready s'" by auto
qed

lemma rd_take [simp]: "rd32 (take 4 b) = rd32 b" "rd64 (take 8 b) = rd64 b"
  by (simp_all add: rd32_def rd64_def)

lemma recv_frame_take:
  assumes "recv_frame s = (Some (i, b), s')"
  shows "take_response (incoming s) = Some (Response i b, incoming s')"
proof -
  obtain b1 s1 where 1: "recvAll 4 s = (True, b1, s1)"
    using assms by (auto simp: recv_frame_def Let_def split: prod.splits if_splits)
  note r1 = recvAll_ok [OF 1]
  have size: "\<not> rd32 b1 < 8" using assms 1 by (auto simp: recv_frame_def Let_def split: if_splits)
  obtain b2 s2 where 2: "recvAll 8 s1 = (True, b2, s2)"
    using assms 1 size by (auto simp: recv_frame_def Let_def split: prod.splits if_splits)
  note r2 = recvAll_ok [OF 2]
  have sz: "8 \<le> unat (rd32 (incoming s))" using size r1 by (simp add: word_less_nat_alt)
  have l12: "12 \<le> length (incoming s)" using recvAll_length [OF 1] recvAll_length [OF 2] by simp
  show ?thesis
  proof (cases "unat (rd32 b1) - 8 = 0")
    case True
    then have "i = rd64 b2" "b = []" "s' = s2" using assms 1 2 size by (auto simp: recv_frame_def Let_def)
    then show ?thesis using True r1 r2 sz size l12 by (simp add: take_response_def Let_def word_less_nat_alt)
  next
    case False
    then obtain b3 s3 where 3: "recvAll (unat (rd32 b1) - 8) s2 = (True, b3, s3)"
      using assms 1 2 size by (auto simp: recv_frame_def Let_def split: prod.splits if_splits)
    then have "i = rd64 b2" "b = b3" "s' = s3" using False assms 1 2 size by (auto simp: recv_frame_def Let_def)
    moreover have "4 + unat (rd32 (incoming s)) \<le> length (incoming s)"
      using recvAll_length [OF 1] recvAll_length [OF 2] recvAll_length [OF 3] sz r1 by simp
    ultimately show ?thesis using recvAll_ok [OF 3] False r1 r2 sz size l12
      by (simp add: take_response_def Let_def word_less_nat_alt)
  qed
qed

lemma recv_frame_ready:
  assumes "ready s" and "recv_frame s = (f, s')"
  shows "f = None \<Longrightarrow> take_response (incoming s) = None \<or> (\<exists>r. take_response (incoming s) = Some (BadFrame, r))"
    and "f \<noteq> None \<Longrightarrow> ready s'"
proof -
  obtain ok1 b1 s1 where 1: "recvAll 4 s = (ok1, b1, s1)" by (cases "recvAll 4 s") auto
  obtain ok2 b2 s2 where 2: "recvAll 8 s1 = (ok2, b2, s2)" by (cases "recvAll 8 s1") auto
  obtain ok3 b3 s3 where 3: "recvAll (unat (rd32 b1) - 8) s2 = (ok3, b3, s3)"
    by (cases "recvAll (unat (rd32 b1) - 8) s2") auto
  note R1 = recvAll_ready [OF assms(1) 1]
  have f: "(f, s') =
      (if \<not> ok1 then (None, s1) else if rd32 b1 < 8 then (None, s1) else if \<not> ok2 then (None, s2)
       else if unat (rd32 b1) - 8 = 0 then (Some (rd64 b2, []), s2)
       else if \<not> ok3 then (None, s3) else (Some (rd64 b2, b3), s3))"
    unfolding assms(2) [symmetric] using 1 2 3 by (simp add: recv_frame_def Let_def)
  show "f \<noteq> None \<Longrightarrow> ready s'"
    using f R1(2) recvAll_ready(2) [OF _ 2] recvAll_ready(2) [OF _ 3] by (auto split: if_splits)
  assume none: "f = None"
  show "take_response (incoming s) = None \<or> (\<exists>r. take_response (incoming s) = Some (BadFrame, r))"
  proof (cases ok1)
    case False
    then show ?thesis using R1 by (simp add: take_response_def)
  next
    case True
    note r1 = recvAll_ok [OF 1 [unfolded True [THEN eqTrueI]]]
    note R2 = recvAll_ready [OF R1(2) [OF True] 2]
    show ?thesis
    proof (cases "rd32 b1 < 8")
      case True
      then show ?thesis using r1 by (simp add: take_response_def Let_def)
    next
      case big: False
      have sz: "8 \<le> unat (rd32 (incoming s))" using big r1 by (simp add: word_less_nat_alt)
      have "length (incoming s) < 4 + unat (rd32 (incoming s))"
      proof (cases ok2)
        case False
        then show ?thesis using R2(1) r1 sz by simp
      next
        case ok2: True
        note r2 = recvAll_ok [OF 2 [unfolded ok2 [THEN eqTrueI]]]
        have "unat (rd32 b1) - 8 \<noteq> 0" "\<not> ok3" using f none \<open>ok1\<close> big ok2 by (auto split: if_splits)
        then show ?thesis using recvAll_ready(1) [OF R2(2) [OF ok2] 3] r1 r2 sz by simp
      qed
      then show ?thesis using r1 sz by (simp add: take_response_def Let_def)
    qed
  qed
qed

lemma recvLoop_prefix:
  "recvLoop s = (fs, s') \<Longrightarrow>
     \<exists>more. concat (map response_of (fst (drain take_response is_bad_frame (incoming s)))) = fs @ more"
proof (induction s arbitrary: fs s' rule: recvLoop.induct)
  case (1 s)
  show ?case
  proof (cases "recv_frame s")
    case (Pair f s1)
    show ?thesis
    proof (cases f)
      case None
      then show ?thesis using 1(2) Pair by (simp add: recvLoop.simps [of s])
    next
      case (Some ib)
      obtain i b where ib: "ib = (i, b)" by fastforce
      obtain gs t where g: "recvLoop s1 = (gs, t)" by fastforce
      have fs: "fs = (i, b) # gs" using 1(2) Pair Some ib g by (simp add: recvLoop.simps [of s])
      from 1(1) [OF _ Some g] Pair obtain more where
        "concat (map response_of (fst (drain take_response is_bad_frame (incoming s1)))) = gs @ more"
        by auto
      moreover have "drain take_response is_bad_frame (incoming s) =
          (Response i b # fst (drain take_response is_bad_frame (incoming s1)),
           snd (drain take_response is_bad_frame (incoming s1)))"
        using recv_frame_take [of s i b s1] Pair Some ib
        by (intro responses.drain_step) (simp_all add: is_bad_frame_def)
      ultimately show ?thesis by (simp add: fs)
    qed
  qed
qed

lemma recvLoop_ready:
  "ready s \<Longrightarrow> recvLoop s = (fs, s') \<Longrightarrow>
     concat (map response_of (fst (drain take_response is_bad_frame (incoming s)))) = fs"
proof (induction s arbitrary: fs s' rule: recvLoop.induct)
  case (1 s)
  obtain f s1 where f: "recv_frame s = (f, s1)" by fastforce
  note R = recv_frame_ready [OF 1(2) f]
  show ?case
  proof (cases f)
    case None
    then have "fs = []" using 1(3) f by (simp add: recvLoop.simps [of s])
    moreover have "concat (map response_of (fst (drain take_response is_bad_frame (incoming s)))) = []"
      using R(1) [OF None]
      by (auto simp: responses.drain_None responses.drain_final is_bad_frame_def)
    ultimately show ?thesis by simp
  next
    case (Some ib)
    obtain i b where ib: "ib = (i, b)" by fastforce
    obtain gs t where g: "recvLoop s1 = (gs, t)" by fastforce
    have fs: "fs = (i, b) # gs" using 1(3) f Some ib g by (simp add: recvLoop.simps [of s])
    have "ready s1" using R(2) Some by simp
    from 1(1) [OF f [symmetric] Some this g]
    have "concat (map response_of (fst (drain take_response is_bad_frame (incoming s1)))) = gs" .
    moreover have "drain take_response is_bad_frame (incoming s) =
        (Response i b # fst (drain take_response is_bad_frame (incoming s1)),
         snd (drain take_response is_bad_frame (incoming s1)))"
      using recv_frame_take [of s i b s1] f Some ib
      by (intro responses.drain_step) (simp_all add: is_bad_frame_def)
    ultimately show ?thesis by (simp add: fs)
  qed
qed

lemma recvLoop_reads:
  assumes "ready s" and "incoming s = concat (map (\<lambda>(rid, body). response_frame rid body) rs)"
    and "\<forall>(rid, body)\<in>set rs. body_fits body"
  shows "fst (recvLoop s) = rs"
proof -
  obtain fs s' where l: "recvLoop s = (fs, s')" by fastforce
  have "drain take_response is_bad_frame (incoming s) = (map (\<lambda>(rid, body). Response rid body) rs, [])"
    using responses.drain_enc_append [of rs "[]"] assms(2,3)
    by (simp add: responses.drain_None take_response_def)
  moreover have "concat (map response_of (map (\<lambda>(rid, body). Response rid body) rs)) = rs"
    by (induction rs) auto
  ultimately show ?thesis using recvLoop_ready [OF assms(1) l] l by simp
qed

section \<open>io_uring: \<open>UringTcpClient\<close>\<close>

text \<open>The error texts, without the part that \<open>strerror\<close> writes.\<close>

datatype io_error =
    RingNotReady
  | SocketError
  | InvalidIp
  | NotConnected
  | GetSqeError string
  | SubmitError string int
  | WaitError string int
  | OpError string int
  | ClosedByPeer string
  | EmptyResponse

text \<open>What one operation meets: the answer of \<open>io_uring_get_sqe\<close>, the results of submit and wait.\<close>

record uring_io =
  io_sqe :: bool
  io_submit :: int
  io_wait :: int

record uring_client =
  m_fd :: int
  m_ringReady :: bool
  u_sock :: sock
  u_io :: "uring_io list"
  u_error :: "io_error option"
  u_closed :: "int list"

definition next_io :: "uring_client \<Rightarrow> uring_io \<times> uring_client" where
  "next_io c =
     (case u_io c of
        [] \<Rightarrow> (\<lparr>io_sqe = False, io_submit = 0, io_wait = 0\<rparr>, c)
      | x # xs \<Rightarrow> (x, c\<lparr>u_io := xs\<rparr>))"

text \<open>\<open>waitUringResult\<close>, for a completion with result \<open>res\<close>.\<close>

definition waitUringResult :: "string \<Rightarrow> uring_io \<Rightarrow> int \<Rightarrow> (io_error, int) sum" where
  "waitUringResult op x res =
     (if io_submit x < 0 then Inl (SubmitError op (- io_submit x))
      else if io_wait x < 0 then Inl (WaitError op (- io_wait x))
      else if res < 0 then Inl (OpError op (- res))
      else Inr res)"

definition u_fail :: "io_error \<Rightarrow> uring_client \<Rightarrow> uring_client" where
  "u_fail e c = c\<lparr>u_error := Some e\<rparr>"

text \<open>One send and one receive: the loop bodies of \<open>WriteAll\<close> and \<open>ReadExact\<close>.\<close>

definition uring_send :: "bytes \<Rightarrow> uring_client \<Rightarrow> int \<times> uring_client" where
  "uring_send data c =
     (let (x, c1) = next_io c in
      if \<not> io_sqe x then (-1, u_fail (GetSqeError ''send'') c1)
      else if io_submit x < 0 \<or> io_wait x < 0
      then (-1, (case waitUringResult ''send'' x 0 of Inl e \<Rightarrow> u_fail e c1 | Inr _ \<Rightarrow> c1))
      else let (r, s1) = sys_send data (u_sock c1); c2 = c1\<lparr>u_sock := s1\<rparr> in
           (case waitUringResult ''send'' x r of
              Inl e \<Rightarrow> (-1, u_fail e c2)
            | Inr n \<Rightarrow> if n = 0 then (0, u_fail (ClosedByPeer ''send'') c2) else (n, c2)))"

definition uring_recv :: "nat \<Rightarrow> uring_client \<Rightarrow> int \<times> bytes \<times> uring_client" where
  "uring_recv len c =
     (let (x, c1) = next_io c in
      if \<not> io_sqe x then (-1, [], u_fail (GetSqeError ''recv'') c1)
      else if io_submit x < 0 \<or> io_wait x < 0
      then (-1, [], (case waitUringResult ''recv'' x 0 of Inl e \<Rightarrow> u_fail e c1 | Inr _ \<Rightarrow> c1))
      else let (r, b, s1) = sys_recv len (u_sock c1); c2 = c1\<lparr>u_sock := s1\<rparr> in
           (case waitUringResult ''recv'' x r of
              Inl e \<Rightarrow> (-1, [], u_fail e c2)
            | Inr n \<Rightarrow> if n = 0 then (0, [], u_fail (ClosedByPeer ''recv'') c2) else (n, b, c2)))"

definition WriteAll :: "bytes \<Rightarrow> uring_client \<Rightarrow> bool \<times> uring_client" where
  "WriteAll data c =
     (if m_fd c = -1 then (False, u_fail NotConnected c) else send_loop uring_send data c)"

definition ReadExact :: "nat \<Rightarrow> uring_client \<Rightarrow> bool \<times> bytes \<times> uring_client" where
  "ReadExact len c =
     (if m_fd c = -1 then (False, [], u_fail NotConnected c) else recv_loop uring_recv len [] c)"

definition u_Close :: "uring_client \<Rightarrow> uring_client" where
  "u_Close c = (if m_fd c \<noteq> -1 then c\<lparr>u_closed := u_closed c @ [m_fd c], m_fd := -1\<rparr> else c)"

text \<open>
  \<open>Connect\<close>: \<open>newfd\<close> is the result of \<open>socket\<close>, \<open>ip_ok\<close> that of \<open>inet_pton\<close>, \<open>res\<close>
  that of the connect operation.
\<close>

definition Connect :: "int \<Rightarrow> bool \<Rightarrow> int \<Rightarrow> uring_client \<Rightarrow> bool \<times> uring_client" where
  "Connect newfd ip_ok res c =
     (if \<not> m_ringReady c then (False, u_fail RingNotReady c)
      else let c1 = (if m_fd c \<noteq> -1 then u_Close c else c); c2 = c1\<lparr>m_fd := newfd\<rparr> in
      if newfd = -1 then (False, u_fail SocketError c2)
      else if \<not> ip_ok then (False, u_Close (u_fail InvalidIp c2))
      else let (x, c3) = next_io c2 in
      if \<not> io_sqe x then (False, u_Close (u_fail (GetSqeError ''connect'') c3))
      else (case waitUringResult ''connect'' x res of
              Inl e \<Rightarrow> (False, u_Close (u_fail e c3))
            | Inr _ \<Rightarrow> (True, c3)))"

lemma next_io_same: "next_io c = (x, c') \<Longrightarrow> u_sock c' = u_sock c \<and> m_fd c' = m_fd c"
  by (auto simp: next_io_def split: list.splits)

interpretation uring_writer: writer uring_send "\<lambda>c. outgoing (u_sock c)"
proof (unfold_locales, goal_cases)
  case (1 d c r c')
  then show ?case
    using posix_writer.xfer_less
    by (fastforce simp: uring_send_def waitUringResult_def Let_def split: prod.splits if_splits sum.splits)
next
  case (2 d c r c')
  obtain x c1 where n: "next_io c = (x, c1)" by fastforce
  obtain r1 s1 where x: "sys_send d (u_sock c1) = (r1, s1)" by fastforce
  note S = posix_writer.xfer_sent [OF x] and same = next_io_same [OF n]
  show ?case
    using 2 n x S same
    by (auto simp: uring_send_def waitUringResult_def u_fail_def Let_def split: if_splits)
qed

interpretation uring_reader: reader uring_recv "\<lambda>c. incoming (u_sock c)"
proof (unfold_locales, goal_cases)
  case (1 n c r b c')
  obtain x c1 where nx: "next_io c = (x, c1)" by fastforce
  obtain r1 b1 s1 where x: "sys_recv n (u_sock c1) = (r1, b1, s1)" by (cases "sys_recv n (u_sock c1)") auto
  note S = posix_reader.xfer_avail [OF x] and same = next_io_same [OF nx]
  show ?case using 1 nx x S same
    by (auto simp: uring_recv_def waitUringResult_def u_fail_def Let_def split: if_splits)
next
  case (2 n c r b c')
  obtain x c1 where nx: "next_io c = (x, c1)" by fastforce
  obtain r1 b1 s1 where x: "sys_recv n (u_sock c1) = (r1, b1, s1)" by (cases "sys_recv n (u_sock c1)") auto
  note S = posix_reader.xfer_none [OF x] and same = next_io_same [OF nx]
  show ?case using 2 nx x S same
    by (auto simp: uring_recv_def waitUringResult_def u_fail_def Let_def split: if_splits)
qed

text \<open>\<open>ReadSome\<close> reads 4096 bytes at a time until the peer closes.\<close>

fun read_some :: "nat \<Rightarrow> bytes \<Rightarrow> uring_client \<Rightarrow> (bool \<times> bytes \<times> uring_client) option" where
  "read_some 0 acc c = None"
| "read_some (Suc fuel) acc c =
     (let (x, c1) = next_io c in
      if \<not> io_sqe x then Some (False, acc, u_fail (GetSqeError ''recv'') c1)
      else if io_submit x < 0 \<or> io_wait x < 0
      then Some (False, acc, (case waitUringResult ''recv'' x 0 of Inl e \<Rightarrow> u_fail e c1 | Inr _ \<Rightarrow> c1))
      else let (r, b, s1) = sys_recv 4096 (u_sock c1); c2 = c1\<lparr>u_sock := s1\<rparr> in
           (case waitUringResult ''recv'' x r of
              Inl e \<Rightarrow> Some (False, acc, u_fail e c2)
            | Inr n \<Rightarrow>
                if n = 0 then (if acc = [] then Some (False, acc, u_fail EmptyResponse c2) else Some (True, acc, c2))
                else read_some fuel (acc @ b) c2))"

text \<open>One round per byte and one more suffice: every round but the last takes a byte off.\<close>

definition ReadSome :: "uring_client \<Rightarrow> (bool \<times> bytes \<times> uring_client) option" where
  "ReadSome c =
     (if m_fd c = -1 then Some (False, [], u_fail NotConnected c)
      else read_some (Suc (length (incoming (u_sock c)))) [] c)"

lemma sys_recv_prefix:
  "sys_recv n s = (r, b, s') \<Longrightarrow> incoming s = b @ incoming s' \<and> (0 < r \<longleftrightarrow> b \<noteq> [])"
  by (auto simp: sys_recv_def Let_def min_def dest!: next_result_same split: prod.splits if_splits)

lemma read_some_total:
  "length (incoming (u_sock c)) < fuel \<Longrightarrow>
     \<exists>ok b c'. read_some fuel acc c = Some (ok, acc @ b, c') \<and> incoming (u_sock c) = b @ incoming (u_sock c')"
proof (induction fuel arbitrary: acc c)
  case (Suc fuel)
  obtain x c1 where nx: "next_io c = (x, c1)" by fastforce
  then have c1: "u_sock c1 = u_sock c" using next_io_same by simp
  obtain r b s1 where rv: "sys_recv 4096 (u_sock c1) = (r, b, s1)" by (cases "sys_recv 4096 (u_sock c1)") auto
  note pre = sys_recv_prefix [OF rv]
  let ?c2 = "c1\<lparr>u_sock := s1\<rparr>"
  show ?case
  proof (cases "io_sqe x \<and> 0 \<le> io_submit x \<and> 0 \<le> io_wait x \<and> 0 < r")
    case True
    have "0 < length b" using pre True by simp
    moreover have "length (incoming (u_sock c)) = length b + length (incoming s1)" using pre c1 by simp
    ultimately have "length (incoming s1) < fuel" using Suc.prems by linarith
    then have "length (incoming (u_sock ?c2)) < fuel" by simp
    from Suc.IH [OF this, of "acc @ b"] obtain ok d c' where
      "read_some fuel (acc @ b) ?c2 = Some (ok, (acc @ b) @ d, c')" "incoming (u_sock ?c2) = d @ incoming (u_sock c')"
      by blast
    then show ?thesis using True nx rv pre c1 by (auto simp: waitUringResult_def)
  next
    case False
    consider "\<not> io_sqe x \<or> io_submit x < 0 \<or> io_wait x < 0"
      | "io_sqe x" "\<not> io_submit x < 0" "\<not> io_wait x < 0" "r \<le> 0"
      using False by linarith
    then show ?thesis
    proof cases
      case 1
      then show ?thesis using nx c1 by (auto simp: waitUringResult_def u_fail_def)
    next
      case 2
      then have "b = []" "incoming s1 = incoming (u_sock c)" using pre c1 by auto
      then show ?thesis using 2 nx rv by (cases "r = 0") (auto simp: waitUringResult_def u_fail_def Let_def)
    qed
  qed
qed simp

text \<open>\<open>ReadSome\<close> returns, with bytes off the front of what the peer sent.\<close>

lemma ReadSome_returns:
  "\<exists>ok b c'. ReadSome c = Some (ok, b, c') \<and> incoming (u_sock c) = b @ incoming (u_sock c')"
  using read_some_total [of c "Suc (length (incoming (u_sock c)))" "[]"] by (auto simp: ReadSome_def u_fail_def)

end
