(* ===== verification/EtcdCodec.thy ===== *)
theory EtcdCodec
  imports KimPrelude "HOL-Library.List_Lexorder" "HOL-Library.Sublist"
begin

unbundle bit_operations_syntax

text \<open>
  The encodings of etcdclient.cc: the base64 codec of etcd's JSON gateway, the end of a
  prefix scan, and \<open>std::stoll\<close> as \<open>jint\<close> uses it. \<open>unsigned\<close> and \<open>int\<close> are
  32 bits wide.
\<close>

section \<open>base64\<close>

definition kB64Tab :: bytes where
  "kB64Tab = str ''ABCDEFGHIJKLMNOPQRSTUVWXYZabcdefghijklmnopqrstuvwxyz0123456789+/''"

definition sextet :: "u32 \<Rightarrow> nat \<Rightarrow> nat" where
  "sextet n i = unat (drop_bit i n AND 0x3f)"

fun b64Encode :: "bytes \<Rightarrow> bytes" where
  "b64Encode (a # b # c # rest) =
     (let n = (push_bit 16 (ucast a) OR push_bit 8 (ucast b) OR ucast c :: u32)
      in kB64Tab ! sextet n 18 # kB64Tab ! sextet n 12 # kB64Tab ! sextet n 6 # kB64Tab ! sextet n 0
         # b64Encode rest)"
| "b64Encode [a, b] =
     (let n = (push_bit 16 (ucast a) OR push_bit 8 (ucast b) :: u32)
      in [kB64Tab ! sextet n 18, kB64Tab ! sextet n 12, kB64Tab ! sextet n 6, 0x3d])"
| "b64Encode [a] =
     (let n = (push_bit 16 (ucast a) :: u32)
      in [kB64Tab ! sextet n 18, kB64Tab ! sextet n 12, 0x3d, 0x3d])"
| "b64Encode [] = []"

definition b64Val :: "byte \<Rightarrow> int" where
  "b64Val c =
     (if 0x41 \<le> c \<and> c \<le> 0x5a then uint c - 0x41
      else if 0x61 \<le> c \<and> c \<le> 0x7a then uint c - 0x61 + 26
      else if 0x30 \<le> c \<and> c \<le> 0x39 then uint c - 0x30 + 52
      else if c = 0x2b then 62
      else if c = 0x2f then 63
      else -1)"

text \<open>
  One round of the loop of \<open>b64Decode\<close>. \<open>val\<close> is a signed \<open>int\<close>: the left shift drops
  the high bits (C++20), the right shift is arithmetic.
\<close>

definition b64_step :: "bytes \<times> u32 \<times> int \<Rightarrow> byte \<Rightarrow> bytes \<times> u32 \<times> int" where
  "b64_step s c =
     (case s of (out, val, bits) \<Rightarrow>
        if c = 0x3d \<or> c = 0x0a \<or> c = 0x0d then s
        else let d = b64Val c in
        if d < 0 then s
        else let val' = push_bit 6 val OR word_of_int d; bits' = bits + 6 in
        if 0 \<le> bits' then (out @ [ucast (signed_drop_bit (nat bits') val' AND 0xff)], val', bits' - 8)
        else (out, val', bits'))"

definition b64Decode :: "bytes \<Rightarrow> bytes" where
  "b64Decode input = fst (foldl b64_step ([], 0, -8) input)"

lemma sextet_less: "sextet n i < 64"
proof -
  have "drop_bit i n AND 0x3f \<le> (0x3f :: u32)" by (rule word_and_le1)
  then have "sextet n i \<le> unat (0x3f :: u32)" unfolding sextet_def by (simp only: word_le_nat_alt)
  then show ?thesis by simp
qed

lemma length_kB64Tab: "length kB64Tab = 64"
  by (simp add: kB64Tab_def)

lemma b64Val_table: "map b64Val kB64Tab = map int [0..<64]"
  by (simp add: kB64Tab_def b64Val_def upt_rec)

lemma b64_no_skip: "c \<in> set kB64Tab \<Longrightarrow> c \<noteq> 0x3d \<and> c \<noteq> 0x0a \<and> c \<noteq> 0x0d"
  by (auto simp: kB64Tab_def)

lemma b64Val_tab:
  assumes "k < 64"
  shows "b64Val (kB64Tab ! k) = int k" "kB64Tab ! k \<noteq> 0x3d" "kB64Tab ! k \<noteq> 0x0a" "kB64Tab ! k \<noteq> 0x0d"
proof -
  have "map b64Val kB64Tab ! k = map int [0..<64] ! k" by (simp only: b64Val_table)
  then show "b64Val (kB64Tab ! k) = int k" using assms by (simp add: length_kB64Tab)
  have "kB64Tab ! k \<in> set kB64Tab" using assms by (simp add: length_kB64Tab)
  from b64_no_skip [OF this]
  show "kB64Tab ! k \<noteq> 0x3d" "kB64Tab ! k \<noteq> 0x0a" "kB64Tab ! k \<noteq> 0x0d" by simp_all
qed

text \<open>A character of the table is a digit; the padding is skipped.\<close>

lemma b64_step_digit:
  "b64_step (out, val, bits) (kB64Tab ! sextet n i) =
     (let val' = push_bit 6 val OR (drop_bit i n AND 0x3f); bits' = bits + 6 in
      if 0 \<le> bits' then (out @ [ucast (signed_drop_bit (nat bits') val' AND 0xff)], val', bits' - 8)
      else (out, val', bits'))"
proof -
  have "word_of_int (int (sextet n i)) = (drop_bit i n AND 0x3f :: u32)" by (simp add: sextet_def)
  then show ?thesis
    using b64Val_tab [OF sextet_less, of n i] by (simp add: b64_step_def)
qed

lemma b64_step_pad: "b64_step s 0x3d = s"
  by (simp add: b64_step_def split: prod.split)

lemma nat_less_8: "(i::nat) < 8 \<longleftrightarrow> i = 0 \<or> i = 1 \<or> i = 2 \<or> i = 3 \<or> i = 4 \<or> i = 5 \<or> i = 6 \<or> i = 7"
  by auto

text \<open>The three bytes that four digits give back, for any leftover \<open>v\<close> of earlier digits.\<close>

definition digit :: "u32 \<Rightarrow> u32 \<Rightarrow> nat \<Rightarrow> u32" where
  "digit v n i = push_bit 6 v OR (drop_bit i n AND 0x3f)"

lemma bit_3f: "bit (0x3f :: u32) i \<longleftrightarrow> i < 6"
proof -
  have "bit (mask 6 :: u32) i \<longleftrightarrow> i < 6" by (auto simp: bit_mask_iff)
  then show ?thesis by (simp add: mask_eq_exp_minus_1)
qed

lemma bit_ff: "bit (0xff :: u32) i \<longleftrightarrow> i < 8"
proof -
  have "bit (mask 8 :: u32) i \<longleftrightarrow> i < 8" by (auto simp: bit_mask_iff)
  then show ?thesis by (simp add: mask_eq_exp_minus_1)
qed

lemma bit_digit: "i < 32 \<Longrightarrow> bit (digit v n k) i = (if i < 6 then bit n (k + i) else bit v (i - 6))"
  by (cases "i < 6") (simp_all only: digit_def bit_or_iff bit_and_iff bit_3f bit_drop_bit_eq bit_push_bit_iff, auto)

lemma bit_low: "i + k < 32 \<Longrightarrow> i < 8 \<Longrightarrow>
    bit (ucast (signed_drop_bit k (w :: u32) AND 0xff) :: byte) i = bit w (i + k)"
  by (simp only: bit_ucast_iff bit_and_iff bit_ff bit_signed_drop_bit_iff) (auto simp: add.commute)

lemma bit_low0: "i < 8 \<Longrightarrow> bit (ucast ((w :: u32) AND 0xff) :: byte) i = bit w i"
  by (simp only: bit_ucast_iff bit_and_iff bit_ff) auto

lemma digits_bytes:
  fixes n v :: u32
  defines "d1 \<equiv> digit v n 18" defines "d2 \<equiv> digit d1 n 12"
  defines "d3 \<equiv> digit d2 n 6" defines "d4 \<equiv> digit d3 n 0"
  shows "ucast (signed_drop_bit 4 d2 AND 0xff) = (ucast (drop_bit 16 n) :: byte)"
    and "ucast (signed_drop_bit 2 d3 AND 0xff) = (ucast (drop_bit 8 n) :: byte)"
    and "ucast (d4 AND 0xff) = (ucast n :: byte)"
proof -
  show "ucast (signed_drop_bit 4 d2 AND 0xff) = (ucast (drop_bit 16 n) :: byte)"
  proof (rule bit_word_eqI)
    fix i assume "i < LENGTH(8)"
    then show "bit (ucast (signed_drop_bit 4 d2 AND 0xff) :: byte) i = bit (ucast (drop_bit 16 n) :: byte) i"
      by (auto simp: bit_low bit_digit d2_def d1_def bit_simps nat_less_8)
  qed
  show "ucast (signed_drop_bit 2 d3 AND 0xff) = (ucast (drop_bit 8 n) :: byte)"
  proof (rule bit_word_eqI)
    fix i assume "i < LENGTH(8)"
    then show "bit (ucast (signed_drop_bit 2 d3 AND 0xff) :: byte) i = bit (ucast (drop_bit 8 n) :: byte) i"
      by (auto simp: bit_low bit_digit d3_def d2_def d1_def bit_simps nat_less_8)
  qed
  show "ucast (d4 AND 0xff) = (ucast n :: byte)"
  proof (rule bit_word_eqI)
    fix i assume i: "i < LENGTH(8)"
    then have "bit (ucast (d4 AND 0xff) :: byte) i = bit d4 i" by (intro bit_low0) simp
    then show "bit (ucast (d4 AND 0xff) :: byte) i = bit (ucast n :: byte) i"
      using i by (auto simp: bit_digit d4_def d3_def bit_simps nat_less_8 numeral_2_eq_2)
  qed
qed

lemma group_bytes:
  fixes a b c :: byte
  defines "n \<equiv> (push_bit 16 (ucast a) OR push_bit 8 (ucast b) OR ucast c :: u32)"
  shows "(ucast (drop_bit 16 n) :: byte) = a" "(ucast (drop_bit 8 n) :: byte) = b" "(ucast n :: byte) = c"
proof -
  have big: "\<not> bit (x :: byte) i" if "8 \<le> i" for x i
    using bit_imp_le_length [of x i] that by fastforce
  show "(ucast (drop_bit 16 n) :: byte) = a"
    by (rule bit_word_eqI) (auto simp: n_def bit_simps big)
  show "(ucast (drop_bit 8 n) :: byte) = b"
    by (rule bit_word_eqI) (auto simp: n_def bit_simps big)
  show "(ucast n :: byte) = c"
    by (rule bit_word_eqI) (auto simp: n_def bit_simps)
qed

lemma b64_digits:
  "b64_step (out, v, -8) (kB64Tab ! sextet n 18) = (out, digit v n 18, -2)"
  "b64_step (out, v, -2) (kB64Tab ! sextet n 12) =
     (out @ [ucast (signed_drop_bit 4 (digit v n 12) AND 0xff)], digit v n 12, -4)"
  "b64_step (out, v, -4) (kB64Tab ! sextet n 6) =
     (out @ [ucast (signed_drop_bit 2 (digit v n 6) AND 0xff)], digit v n 6, -6)"
  "b64_step (out, v, -6) (kB64Tab ! sextet n 0) = (out @ [ucast (digit v n 0 AND 0xff)], digit v n 0, -8)"
  by (simp_all add: b64_step_digit digit_def Let_def)

lemma b64_roundtrip_from:
  "\<exists>v' bits'. foldl b64_step (out, v, -8) (b64Encode x) = (out @ x, v', bits')"
proof (induction x arbitrary: out v rule: b64Encode.induct)
  case (1 a b c rest)
  define n where "n = (push_bit 16 (ucast a) OR push_bit 8 (ucast b) OR ucast c :: u32)"
  let ?v = "digit (digit (digit (digit v n 18) n 12) n 6) n 0"
  have enc: "b64Encode (a # b # c # rest) = kB64Tab ! sextet n 18 # kB64Tab ! sextet n 12 #
      kB64Tab ! sextet n 6 # kB64Tab ! sextet n 0 # b64Encode rest"
    by (simp add: n_def Let_def)
  have "foldl b64_step (out, v, -8) (b64Encode (a # b # c # rest)) =
      foldl b64_step (out @ [a, b, c], ?v, -8) (b64Encode rest)"
    unfolding enc by (simp add: b64_digits digits_bytes group_bytes [of a b c, folded n_def])
  with 1 [of n "out @ [a, b, c]" ?v] show ?case by (simp add: n_def)
next
  case (2 a b)
  define n where "n = (push_bit 16 (ucast a) OR push_bit 8 (ucast b) :: u32)"
  have enc: "b64Encode [a, b] = [kB64Tab ! sextet n 18, kB64Tab ! sextet n 12, kB64Tab ! sextet n 6, 0x3d]"
    by (simp add: n_def Let_def)
  have "ucast (drop_bit 16 n) = a" "ucast (drop_bit 8 n) = b"
    using group_bytes(1,2) [of a b 0] by (simp_all add: n_def)
  then show ?case unfolding enc by (simp add: b64_digits b64_step_pad digits_bytes)
next
  case (3 a)
  define n where "n = (push_bit 16 (ucast a) :: u32)"
  have enc: "b64Encode [a] = [kB64Tab ! sextet n 18, kB64Tab ! sextet n 12, 0x3d, 0x3d]"
    by (simp add: n_def Let_def)
  have "ucast (drop_bit 16 n) = a" using group_bytes(1) [of a 0 0] by (simp add: n_def)
  then show ?case unfolding enc by (simp add: b64_digits b64_step_pad digits_bytes)
qed simp

lemma b64_encode_length: "length (b64Encode x) = 4 * ((length x + 2) div 3)"
proof (induction x rule: b64Encode.induct)
  case (1 a b c rest)
  have "(length (a # b # c # rest) + 2) div 3 = Suc ((length rest + 2) div 3)" by simp
  then show ?case using 1 by (simp add: Let_def)
qed (simp_all add: Let_def)

lemma b64_step_nl: "b64_step s 0x0a = s" "b64_step s 0x0d = s"
  by (simp_all add: b64_step_def split: prod.split)

section \<open>The end of a prefix scan\<close>

text \<open>The loop from the last byte down; \<open>i\<close> is the number of bytes not looked at yet.\<close>

primrec prefixEnd_loop :: "bytes \<Rightarrow> nat \<Rightarrow> bytes" where
  "prefixEnd_loop p 0 = [0]"
| "prefixEnd_loop p (Suc i) =
     (if p ! i < 0xff then take (Suc i) (p[i := p ! i + 1]) else prefixEnd_loop p i)"

definition prefixEnd :: "bytes \<Rightarrow> bytes" where
  "prefixEnd p = prefixEnd_loop p (length p)"

text \<open>
  The keys etcd returns for \<open>key\<close> and \<open>range_end\<close> (documented in its API: the interval
  \<open>[key, range_end)\<close> of the byte-wise order; a \<open>range_end\<close> of one zero byte means all keys
  from \<open>key\<close> on).
\<close>

definition in_range :: "bytes \<Rightarrow> bytes \<Rightarrow> bytes \<Rightarrow> bool" where
  "in_range key range_end k \<longleftrightarrow> key \<le> k \<and> (range_end = [0] \<or> k < range_end)"

lemma byte_max: "(c :: byte) \<le> 0xff"
proof -
  have "c \<le> - 1" by simp
  also have "- 1 = (0xff :: byte)" by simp
  finally show ?thesis .
qed

lemma byte_top: "\<not> (c :: byte) < 0xff \<longleftrightarrow> c = 0xff"
  using byte_max [of c] by auto

lemma byte_inc: "(c :: byte) < 0xff \<Longrightarrow> x < c + 1 \<longleftrightarrow> x \<le> c"
proof -
  assume c: "c < 0xff"
  then have "unat (1 + c) = Suc (unat c)"
    by (intro unatSuc) (metis add_eq_0_iff byte_max linorder_not_less word_order.extremum_unique)
  then show ?thesis by (simp add: word_less_nat_alt word_le_nat_alt add.commute less_Suc_eq_le)
qed

lemma list_le_Cons: "x # xs \<le> y # ys \<longleftrightarrow> x < y \<or> x = (y :: byte) \<and> xs \<le> ys"
  by simp

lemma prefix_le: "prefix p k \<Longrightarrow> p \<le> (k :: bytes)"
proof (induction p arbitrary: k)
  case (Cons c p)
  then show ?case by (cases k) auto
qed simp

lemma all_ff_range: "\<forall>c\<in>set p. c = 0xff \<Longrightarrow> p \<le> k \<longleftrightarrow> prefix p (k :: bytes)"
proof (induction p arbitrary: k)
  case (Cons c p)
  then show ?case using byte_max by (cases k) (auto simp: less_le_not_le)
qed simp

lemma bump_range: "(c :: byte) < 0xff \<Longrightarrow> p @ c # r \<le> k \<and> k < p @ [c + 1] \<Longrightarrow> prefix (p @ [c]) k"
proof (induction p arbitrary: k)
  case Nil
  then show ?case by (cases k) (auto simp: byte_inc)
next
  case (Cons x p)
  then show ?case by (cases k) auto
qed

lemma list_append_less: "p @ xs < p @ (ys :: bytes) \<longleftrightarrow> xs < ys"
  by (induction p) simp_all

lemma list_append_le: "p @ xs \<le> p @ (ys :: bytes) \<longleftrightarrow> xs \<le> ys"
  by (induction p) simp_all

text \<open>The result of the loop, by the position of the last byte below \<open>0xff\<close>.\<close>

lemma prefixEnd_cases:
  obtains "\<forall>c\<in>set p. c = 0xff" "prefixEnd p = [0]"
  | q c r where "p = q @ c # r" "c < 0xff" "\<forall>x\<in>set r. x = 0xff" "prefixEnd p = q @ [c + 1]"
proof -
  have "(\<forall>c\<in>set (take i p). c = 0xff) \<and> prefixEnd_loop p i = [0] \<or>
     (\<exists>q c r. take i p = q @ c # r \<and> c < 0xff \<and> (\<forall>x\<in>set r. x = 0xff) \<and> prefixEnd_loop p i = q @ [c + 1])"
    if "i \<le> length p" for i
    using that
  proof (induction i)
    case (Suc i)
    have tk: "take (Suc i) p = take i p @ [p ! i]" using Suc.prems by (simp add: take_Suc_conv_app_nth)
    show ?case
    proof (cases "p ! i < 0xff")
      case True
      have "take (Suc i) (p[i := p ! i + 1]) = take i p @ [p ! i + 1]"
        using Suc.prems by (simp add: take_Suc_conv_app_nth)
      with True tk show ?thesis by (intro disjI2 exI [of _ "take i p"] exI [of _ "p ! i"] exI [of _ "[]"]) simp
    next
      case False
      then have ff: "p ! i = 0xff" by (simp add: byte_top)
      have "i \<le> length p" using Suc.prems by simp
      from Suc.IH [OF this] show ?thesis
      proof
        assume "(\<forall>c\<in>set (take i p). c = 0xff) \<and> prefixEnd_loop p i = [0]"
        then show ?thesis using ff tk by (intro disjI1) auto
      next
        assume "\<exists>q c r. take i p = q @ c # r \<and> c < 0xff \<and> (\<forall>x\<in>set r. x = 0xff) \<and> prefixEnd_loop p i = q @ [c + 1]"
        then obtain q c r where *: "take i p = q @ c # r" "c < 0xff" "\<forall>x\<in>set r. x = 0xff"
          "prefixEnd_loop p i = q @ [c + 1]" by blast
        show ?thesis
          by (intro disjI2 exI [of _ q] exI [of _ c] exI [of _ "r @ [0xff]"]) (use * ff tk in auto)
      qed
    qed
  qed simp
  from this [OF order_refl] that show thesis unfolding prefixEnd_def by auto
qed

lemma prefixEnd_range: "in_range p (prefixEnd p) k \<longleftrightarrow> prefix p k"
proof (cases p rule: prefixEnd_cases)
  case 1
  then show ?thesis by (simp add: in_range_def all_ff_range)
next
  case (2 q c r)
  have ne: "q @ [c + 1] \<noteq> [0]"
  proof
    assume "q @ [c + 1] = [0]"
    then have "c + 1 = 0" by (cases q) auto
    then show False using 2(2) by (simp add: add_eq_0_iff2)
  qed
  have "in_range p (prefixEnd p) k \<longleftrightarrow> p \<le> k \<and> k < q @ [c + 1]" unfolding in_range_def 2(4) using ne by blast
  also have "\<dots> \<longleftrightarrow> prefix p k"
  proof
    assume a: "p \<le> k \<and> k < q @ [c + 1]"
    then have "prefix (q @ [c]) k" using 2(1,2) by (intro bump_range) auto
    then obtain t where t: "k = q @ c # t" by (auto simp: prefix_def)
    then have "r \<le> t" using a 2(1) by (simp add: list_append_le)
    then show "prefix p k" using all_ff_range [OF 2(3)] t 2(1) by (simp add: prefix_def)
  next
    assume "prefix p k"
    then obtain t where "k = q @ c # r @ t" using 2(1) by (auto simp: prefix_def)
    then show "p \<le> k \<and> k < q @ [c + 1]"
      using prefix_le [OF \<open>prefix p k\<close>] 2(2) by (simp add: list_append_less byte_inc)
  qed
  finally show ?thesis .
qed

section \<open>\<open>std::stoll\<close>\<close>

definition is_space :: "byte \<Rightarrow> bool" where
  "is_space c \<longleftrightarrow> c = 0x20 \<or> 0x09 \<le> c \<and> c \<le> 0x0d"

definition is_digit :: "byte \<Rightarrow> bool" where
  "is_digit c \<longleftrightarrow> 0x30 \<le> c \<and> c \<le> 0x39"

definition digits_value :: "bytes \<Rightarrow> int" where
  "digits_value ds = foldl (\<lambda>v c. 10 * v + (uint c - 0x30)) 0 ds"

text \<open>\<open>None\<close>: no digits (\<open>invalid_argument\<close>) or not an \<open>int64_t\<close> (\<open>out_of_range\<close>).\<close>

definition stoll :: "bytes \<Rightarrow> int option" where
  "stoll s =
     (let s1 = dropWhile is_space s;
          (neg, s2) = (case s1 of
                         c # r \<Rightarrow> if c = 0x2d then (True, r) else if c = 0x2b then (False, r) else (False, s1)
                       | [] \<Rightarrow> (False, []));
          ds = takeWhile is_digit s2;
          v = (if neg then - digits_value ds else digits_value ds)
      in if ds = [] then None
         else if v < - (2 ^ 63) \<or> 2 ^ 63 \<le> v then None
         else Some v)"

end
