(* ===== verification/EtcdClient.thy ===== *)
theory EtcdClient
  imports EtcdCodec WireFormat
begin

text \<open>
  \<open>EtcdClient\<close> (etcdclient.cc): the requests it sends to etcd's JSON gateway and how it
  reads the answers. libcurl and the JSON parser are libraries: an exchange is a list of answers
  to come (an empty one stands for a failed request) and a log of what was sent, and parsing is
  a parameter \<open>jp\<close> (\<open>None\<close> for a parse exception). The accessors of a parsed value are
  those of nlohmann::json: \<open>find\<close> fails on a value that is no object, \<open>value\<close> throws on
  one and on a member of another type.
\<close>

section \<open>Numbers in text\<close>

function dec_digits :: "nat \<Rightarrow> bytes" where
  "dec_digits n = (if n < 10 then [of_nat n + 0x30] else dec_digits (n div 10) @ [of_nat (n mod 10) + 0x30])"
  by auto
termination by (relation "measure id") auto

declare dec_digits.simps [simp del]

definition to_string :: "int \<Rightarrow> bytes" where
  "to_string i = (if i < 0 then 0x2d # dec_digits (nat (- i)) else dec_digits (nat i))"

lemma digit_value: "n < 10 \<Longrightarrow> uint (of_nat n + 0x30 :: byte) = int n + 0x30"
proof -
  assume n: "n < 10"
  have "unat (of_nat (n + 48) :: byte) = n + 48" using n by (simp only: unat_of_nat) simp
  then have "uint (of_nat (n + 48) :: byte) = int (n + 48)" by (simp only: uint_nat)
  then show ?thesis by (simp add: add.commute)
qed

lemma is_digit_of_nat: "n < 10 \<Longrightarrow> is_digit (of_nat n + 0x30)"
  using digit_value [of n] by (simp add: is_digit_def word_le_def)

lemma dec_digits_ne: "dec_digits n \<noteq> []"
  by (subst dec_digits.simps) simp

lemma dec_digits_digit: "\<forall>c\<in>set (dec_digits n). is_digit c"
proof (induction n rule: dec_digits.induct)
  case (1 n)
  then show ?case by (subst dec_digits.simps) (auto simp: is_digit_of_nat)
qed

lemma digits_value_snoc: "digits_value (ds @ [c]) = 10 * digits_value ds + (uint c - 0x30)"
  by (simp add: digits_value_def)

lemma dec_digits_value: "digits_value (dec_digits n) = int n"
proof (induction n rule: dec_digits.induct)
  case (1 n)
  show ?case
  proof (cases "n < 10")
    case True
    then show ?thesis by (subst dec_digits.simps) (simp add: digits_value_def digit_value)
  next
    case False
    have "10 * int (n div 10) + int (n mod 10) = int n" by presburger
    with False 1 show ?thesis
      by (subst dec_digits.simps) (simp add: digits_value_snoc digit_value)
  qed
qed

lemma digit_not_space: "is_digit c \<Longrightarrow> \<not> is_space c \<and> c \<noteq> 0x2d \<and> c \<noteq> 0x2b"
  by (auto simp: is_digit_def is_space_def word_le_nat_alt)

lemma stoll_to_string:
  assumes "- (2 ^ 63) \<le> i" and "i < 2 ^ 63"
  shows "stoll (to_string i) = Some i"
proof -
  have tw: "takeWhile is_digit (dec_digits n) = dec_digits n" for n
    using dec_digits_digit by (simp add: takeWhile_eq_all_conv)
  obtain d ds where d: "dec_digits (nat i) = d # ds" using dec_digits_ne by (cases "dec_digits (nat i)") auto
  then have dig: "\<not> is_space d" "d \<noteq> 0x2d" "d \<noteq> 0x2b"
    using dec_digits_digit [of "nat i"] digit_not_space by auto
  show ?thesis
  proof (cases "i < 0")
    case True
    have "\<not> is_space 0x2d" by (simp add: is_space_def)
    then show ?thesis
      using True assms dec_digits_ne [of "nat (- i)"]
      by (simp add: stoll_def to_string_def tw dec_digits_value Let_def)
  next
    case False
    then have "dropWhile is_space (dec_digits (nat i)) = dec_digits (nat i)" using d dig by simp
    then show ?thesis
      using False assms dec_digits_ne [of "nat i"] d dig tw [of "nat i"] dec_digits_value [of "nat i"]
      by (simp add: stoll_def to_string_def Let_def)
  qed
qed

section \<open>JSON values\<close>

datatype json =
    JNull
  | JBool bool
  | JNumber int
  | JString bytes
  | JArray "json list"
  | JObject "(bytes \<times> json) list"

definition json_find :: "json \<Rightarrow> bytes \<Rightarrow> json option" where
  "json_find j field = (case j of JObject kvs \<Rightarrow> map_of kvs field | _ \<Rightarrow> None)"

text \<open>\<open>j.value(field, def)\<close> for strings; \<open>None\<close> is the exception.\<close>

definition json_value :: "json \<Rightarrow> bytes \<Rightarrow> bytes \<Rightarrow> bytes option" where
  "json_value j field dflt =
     (case j of
        JObject kvs \<Rightarrow>
          (case map_of kvs field of
             None \<Rightarrow> Some dflt
           | Some (JString s) \<Rightarrow> Some s
           | Some _ \<Rightarrow> None)
      | _ \<Rightarrow> None)"

definition jint :: "json \<Rightarrow> bytes \<Rightarrow> int \<Rightarrow> int" where
  "jint j field dflt =
     (case json_find j field of
        None \<Rightarrow> dflt
      | Some (JString s) \<Rightarrow> (case stoll s of Some v \<Rightarrow> v | None \<Rightarrow> dflt)
      | Some (JNumber v) \<Rightarrow> v
      | Some _ \<Rightarrow> dflt)"

type_synonym json_parser = "bytes \<Rightarrow> json option"

section \<open>Requests\<close>

record http =
  answers :: "bytes list"
  posted :: "(bytes \<times> bytes) list"

definition httpPost :: "bytes \<Rightarrow> bytes \<Rightarrow> http \<Rightarrow> bytes \<times> http" where
  "httpPost path body h =
     (case answers h of
        [] \<Rightarrow> ([], h\<lparr>posted := posted h @ [(path, body)]\<rparr>)
      | r # rs \<Rightarrow> (r, \<lparr>answers = rs, posted = posted h @ [(path, body)]\<rparr>))"

definition lease_body :: "int \<Rightarrow> bytes" where
  "lease_body ttlSec = str ''{\"TTL\":'' @ to_string ttlSec @ str '',\"ID\":0}''"

definition LeaseGrant :: "json_parser \<Rightarrow> int \<Rightarrow> http \<Rightarrow> int \<times> http" where
  "LeaseGrant jp ttlSec h =
     (let (resp, h') = httpPost (str ''/v3/lease/grant'') (lease_body ttlSec) h in
      (if resp = [] then -1
       else (case jp resp of Some j \<Rightarrow> jint j (str ''ID'') (-1) | None \<Rightarrow> -1), h'))"

text \<open>\<open>Start(ip, port)\<close> probes the server with a short lease.\<close>

definition etcd_Start :: "json_parser \<Rightarrow> http \<Rightarrow> bool \<times> http" where
  "etcd_Start jp h = (let (probe, h') = LeaseGrant jp 2 h in (0 < probe, h'))"

definition put_body :: "bytes \<Rightarrow> bytes \<Rightarrow> int \<Rightarrow> bytes" where
  "put_body key val leaseId =
     str ''{\"key\":\"'' @ b64Encode key @ str ''\",\"value\":\"'' @ b64Encode val @ str ''\"'' @
     (if 0 < leaseId then str '',\"lease\":'' @ to_string leaseId else []) @ str ''}''"

definition Put :: "json_parser \<Rightarrow> bytes \<Rightarrow> bytes \<Rightarrow> int \<Rightarrow> http \<Rightarrow> bool \<times> http" where
  "Put jp key val leaseId h =
     (let (resp, h') = httpPost (str ''/v3/kv/put'') (put_body key val leaseId) h in
      (resp \<noteq> [] \<and>
       (case jp resp of
          Some j \<Rightarrow> json_find j (str ''error'') = None \<and> json_find j (str ''header'') \<noteq> None
        | None \<Rightarrow> False), h'))"

record key_value =
  kv_key :: bytes
  kv_value :: bytes

text \<open>The entries of \<open>kvs\<close>; \<open>None\<close> when one throws.\<close>

primrec read_kvs :: "json list \<Rightarrow> key_value list option" where
  "read_kvs [] = Some []"
| "read_kvs (kv # kvs) =
     (case (json_value kv (str ''key'') [], json_value kv (str ''value'') []) of
        (Some k, Some v) \<Rightarrow>
          map_option (\<lambda>es. \<lparr>kv_key = b64Decode k, kv_value = b64Decode v\<rparr> # es) (read_kvs kvs)
      | _ \<Rightarrow> None)"

definition range_body :: "bytes \<Rightarrow> bytes" where
  "range_body pfx =
     str ''{\"key\":\"'' @ b64Encode pfx @ str ''\",\"range_end\":\"'' @
     b64Encode (prefixEnd pfx) @ str ''\"}''"

text \<open>
  The result of \<open>RangePrefix\<close>, with the values of \<open>*out\<close> and \<open>*revision\<close> when it
  returns \<open>true\<close>; \<open>rev0\<close> is what \<open>*revision\<close> held before.
\<close>

definition RangePrefix :: "json_parser \<Rightarrow> bytes \<Rightarrow> int \<Rightarrow> http \<Rightarrow> (key_value list \<times> int) option \<times> http" where
  "RangePrefix jp pfx rev0 h =
     (let (resp, h') = httpPost (str ''/v3/kv/range'') (range_body pfx) h in
      (if resp = [] then None
       else (case jp resp of
          None \<Rightarrow> None
        | Some j \<Rightarrow>
            if json_find j (str ''error'') \<noteq> None then None
            else let revision = (case json_find j (str ''header'') of
                                   Some hit \<Rightarrow> jint hit (str ''revision'') 0
                                 | None \<Rightarrow> rev0) in
                 (case json_find j (str ''kvs'') of
                    Some (JArray kvs) \<Rightarrow> map_option (\<lambda>es. (es, revision)) (read_kvs kvs)
                  | _ \<Rightarrow> Some ([], revision))), h'))"

section \<open>Keeping the lease alive\<close>

definition keepalive_interval :: "int \<Rightarrow> int" where
  "keepalive_interval ttlSec = (let interval = ttlSec div 3 in if interval < 1 then 1 else interval)"

definition keepalive_body :: "int \<Rightarrow> bytes" where
  "keepalive_body leaseId = str ''{\"ID\":'' @ to_string leaseId @ str ''}''"

text \<open>
  The loop: one entry per wait, \<open>True\<close> when it ended because of \<open>m_stop\<close>. Each other
  wait is followed by one renewal, whatever the server answers; the second component counts the
  answers that report an expired lease (they are only logged).
\<close>

fun keepAliveLoop :: "json_parser \<Rightarrow> int \<Rightarrow> bool list \<Rightarrow> http \<Rightarrow> nat \<Rightarrow> http \<times> nat" where
  "keepAliveLoop jp leaseId [] h expired = (h, expired)"
| "keepAliveLoop jp leaseId (True # ws) h expired = (h, expired)"
| "keepAliveLoop jp leaseId (False # ws) h expired =
     (let (resp, h') = httpPost (str ''/v3/lease/keepalive'') (keepalive_body leaseId) h;
          gone = (resp \<noteq> [] \<and>
                  (case jp resp of
                     Some j \<Rightarrow>
                       jint (case json_find j (str ''result'') of Some r \<Rightarrow> r | None \<Rightarrow> j) (str ''TTL'') (-1) = 0
                   | None \<Rightarrow> False))
      in keepAliveLoop jp leaseId ws h' (if gone then expired + 1 else expired))"

lemma keepAliveLoop_posts:
  "posted (fst (keepAliveLoop jp leaseId ws h n)) =
     posted h @ replicate (length (takeWhile Not ws)) (str ''/v3/lease/keepalive'', keepalive_body leaseId)"
proof (induction jp leaseId ws h n rule: keepAliveLoop.induct)
  case (3 jp leaseId ws h expired)
  obtain resp h' where p: "httpPost (str ''/v3/lease/keepalive'') (keepalive_body leaseId) h = (resp, h')"
    by fastforce
  then have "posted h' = posted h @ [(str ''/v3/lease/keepalive'', keepalive_body leaseId)]"
    by (auto simp: httpPost_def split: list.splits)
  then show ?case using 3 [OF p [symmetric] refl refl] p by (simp add: Let_def)
qed simp_all

section \<open>Registration of a server\<close>

text \<open>\<open>snprintf(addr, 64, "%s:%d", ip, port)\<close>: at most 63 characters.\<close>

definition instance_addr :: "bytes \<Rightarrow> 16 word \<Rightarrow> bytes" where
  "instance_addr ip port = take 63 (ip @ str '':'' @ to_string (uint port))"

definition instance_key :: "bytes \<Rightarrow> bytes \<Rightarrow> bytes \<Rightarrow> bytes" where
  "instance_key service method addr = str ''/'' @ service @ str ''/'' @ method @ str ''/'' @ addr"

definition instance_keys :: "service_map \<Rightarrow> bytes \<Rightarrow> bytes list" where
  "instance_keys sm addr =
     concat (map (\<lambda>(s, info). map (\<lambda>(m, md). instance_key s m addr) (m_methodMap info)) sm)"

text \<open>\<open>None\<close> is \<open>exit(EXIT_FAILURE)\<close>.\<close>

primrec put_all :: "json_parser \<Rightarrow> bytes list \<Rightarrow> bytes \<Rightarrow> int \<Rightarrow> http \<Rightarrow> http option" where
  "put_all jp [] addr lease h = Some h"
| "put_all jp (k # ks) addr lease h =
     (let (ok, h') = Put jp k addr lease h in if ok then put_all jp ks addr lease h' else None)"

definition kLeaseTtl :: int where "kLeaseTtl = 10"

definition registerServiceToEtcd :: "json_parser \<Rightarrow> service_map \<Rightarrow> bytes \<Rightarrow> 16 word \<Rightarrow> http \<Rightarrow> http option" where
  "registerServiceToEtcd jp sm ip port h =
     (let (started, h1) = etcd_Start jp h in
      if \<not> started then None
      else let (lease, h2) = LeaseGrant jp kLeaseTtl h1 in
      if lease \<le> 0 then None
      else put_all jp (instance_keys sm (instance_addr ip port)) (instance_addr ip port) lease h2)"

lemma posted_httpPost: "posted (snd (httpPost path body h)) = posted h @ [(path, body)]"
  by (simp add: httpPost_def split: list.split)

lemma put_all_posts:
  "put_all jp ks addr lease h = Some h' \<Longrightarrow>
     posted h' = posted h @ map (\<lambda>k. (str ''/v3/kv/put'', put_body k addr lease)) ks"
proof (induction ks arbitrary: h)
  case (Cons k ks)
  obtain ok h1 where p: "Put jp k addr lease h = (ok, h1)" by fastforce
  then have "posted h1 = posted h @ [(str ''/v3/kv/put'', put_body k addr lease)]"
    using posted_httpPost [of "str ''/v3/kv/put''" "put_body k addr lease" h]
    by (auto simp: Put_def split: prod.splits)
  moreover have "put_all jp ks addr lease h1 = Some h'" using Cons.prems p by (auto split: if_splits)
  ultimately show ?case using Cons.IH by simp
qed simp

end
