(* ===== verification/EtcdWatch.thy ===== *)
theory EtcdWatch
  imports EtcdClient
begin

text \<open>
  The watch of etcdclient.cc: the line buffer of \<open>watchWrite\<close>, \<open>parseWatchLine\<close>, and the
  reconnecting loop of \<open>WatchPrefixBlocking\<close>. One run of \<open>curl_easy_perform\<close> is the list
  of chunks it hands to \<open>watchWrite\<close>. An exception of \<open>ev.value\<close> leaves the callback
  through libcurl: \<open>aborted\<close> records it and nothing happens afterwards.
\<close>

section \<open>State and operations\<close>

datatype event_type = PutEvent | DeleteEvent

record watch_event =
  we_type :: event_type
  we_key :: bytes
  we_value :: bytes

record watch_ctx =
  wbuf :: bytes
  delivered :: "watch_event list"
  lastRevision :: int
  aborted :: bool

text \<open>\<open>None\<close>: the event throws.\<close>

definition watch_event_of :: "json \<Rightarrow> watch_event option" where
  "watch_event_of ev =
     (case json_value ev (str ''type'') [] of
        None \<Rightarrow> None
      | Some ty \<Rightarrow>
          let t = (if ty = str ''DELETE'' then DeleteEvent else PutEvent) in
          (case json_find ev (str ''kv'') of
             None \<Rightarrow> Some \<lparr>we_type = t, we_key = [], we_value = []\<rparr>
           | Some kv \<Rightarrow>
               (case (json_value kv (str ''key'') [], json_value kv (str ''value'') []) of
                  (Some k, Some v) \<Rightarrow> Some \<lparr>we_type = t, we_key = b64Decode k, we_value = b64Decode v\<rparr>
                | _ \<Rightarrow> None)))"

primrec deliver_events :: "json list \<Rightarrow> watch_ctx \<Rightarrow> watch_ctx" where
  "deliver_events [] ctx = ctx"
| "deliver_events (ev # evs) ctx =
     (case watch_event_of ev of
        None \<Rightarrow> ctx\<lparr>aborted := True\<rparr>
      | Some we \<Rightarrow> deliver_events evs (ctx\<lparr>delivered := delivered ctx @ [we]\<rparr>))"

definition parseWatchLine :: "json_parser \<Rightarrow> bytes \<Rightarrow> watch_ctx \<Rightarrow> watch_ctx" where
  "parseWatchLine jp line ctx =
     (case jp line of
        None \<Rightarrow> ctx
      | Some root \<Rightarrow>
          (case json_find root (str ''result'') of
             None \<Rightarrow> ctx
           | Some result \<Rightarrow>
               (case json_find result (str ''events'') of
                  Some (JArray evs) \<Rightarrow>
                    let ctx1 = deliver_events evs ctx in
                    if aborted ctx1 then ctx1
                    else (case json_find result (str ''header'') of
                            None \<Rightarrow> ctx1
                          | Some hit \<Rightarrow>
                              let rev = jint hit (str ''revision'') 0
                              in if lastRevision ctx1 < rev then ctx1\<lparr>lastRevision := rev\<rparr> else ctx1)
                | _ \<Rightarrow> ctx)))"

definition take_line :: "bytes \<Rightarrow> (bytes \<times> bytes) option" where
  "take_line b =
     (if 0x0a \<in> set b then Some (takeWhile (\<lambda>c. c \<noteq> 0x0a) b, tl (dropWhile (\<lambda>c. c \<noteq> 0x0a) b)) else None)"

definition handle_line :: "json_parser \<Rightarrow> watch_ctx \<Rightarrow> bytes \<Rightarrow> watch_ctx" where
  "handle_line jp ctx line =
     (if aborted ctx \<or> line = [] then ctx else parseWatchLine jp line ctx)"

text \<open>The number of bytes taken, as libcurl wants it, and the new context.\<close>

definition watchWrite :: "json_parser \<Rightarrow> bool \<Rightarrow> bytes \<Rightarrow> watch_ctx \<Rightarrow> nat \<times> watch_ctx" where
  "watchWrite jp stop chunk ctx =
     (if stop then (0, ctx)
      else (case drain take_line (\<lambda>_. False) (wbuf ctx @ chunk) of
              (lines, rest) \<Rightarrow> (length chunk, foldl (handle_line jp) (ctx\<lparr>wbuf := rest\<rparr>) lines)))"

text \<open>A watch session: the chunks that arrive, and whether \<open>stop\<close> is set afterwards.\<close>

type_synonym session = "bytes list \<times> bool"

definition watch_session :: "json_parser \<Rightarrow> int \<Rightarrow> bytes list \<Rightarrow> watch_event list \<Rightarrow> watch_ctx" where
  "watch_session jp resumeRev chunks evs =
     foldl (\<lambda>ctx chunk. snd (watchWrite jp False chunk ctx))
       \<lparr>wbuf = [], delivered = evs, lastRevision = resumeRev - 1, aborted = False\<rparr> chunks"

definition resume_after :: "int \<Rightarrow> watch_ctx \<Rightarrow> int" where
  "resume_after resumeRev ctx =
     (if resumeRev \<le> lastRevision ctx then lastRevision ctx + 1 else resumeRev)"

text \<open>The loop: the events delivered so far and the revision to continue from.\<close>

fun WatchPrefixBlocking :: "json_parser \<Rightarrow> int \<Rightarrow> watch_event list \<Rightarrow> session list \<Rightarrow> watch_event list \<times> int" where
  "WatchPrefixBlocking jp resumeRev evs [] = (evs, resumeRev)"
| "WatchPrefixBlocking jp resumeRev evs ((chunks, stop) # ss) =
     (let ctx = watch_session jp resumeRev chunks evs; rev = resume_after resumeRev ctx in
      if aborted ctx \<or> stop then (delivered ctx, rev)
      else WatchPrefixBlocking jp rev (delivered ctx) ss)"

section \<open>Lines do not depend on the chunks\<close>

lemma take_line_stable: "take_line b = Some (l, r) \<Longrightarrow> take_line (b @ c) = Some (l, r @ c)"
  by (auto simp: take_line_def takeWhile_append1 dropWhile_append1 tl_append split: if_splits list.split)

lemma take_line_shrinks: "take_line b = Some (l, r) \<Longrightarrow> length r < length b"
proof -
  assume t: "take_line b = Some (l, r)"
  then have nl: "0x0a \<in> set b" and r: "r = tl (dropWhile (\<lambda>c. c \<noteq> 0x0a) b)"
    by (auto simp: take_line_def split: if_splits)
  have "dropWhile (\<lambda>c. c \<noteq> 0x0a) b \<noteq> []" using nl by (auto simp: dropWhile_eq_Nil_conv)
  then have "length r < length (dropWhile (\<lambda>c. c \<noteq> 0x0a) b)" using r by (cases "dropWhile (\<lambda>c. c \<noteq> 0x0a) b") auto
  also have "\<dots> \<le> length b" by (rule length_dropWhile_le)
  finally show ?thesis .
qed

interpretation watch_lines: consumer take_line "\<lambda>_. False"
  by unfold_locales (erule take_line_stable, erule take_line_shrinks)

lemma take_line_frame: "0x0a \<notin> set l \<Longrightarrow> take_line (l @ [0x0a] @ r) = Some (l, r)"
proof -
  assume "0x0a \<notin> set l"
  then have "\<forall>c\<in>set l. c \<noteq> 0x0a" by auto
  then have "takeWhile (\<lambda>c. c \<noteq> 0x0a) (l @ [0x0a] @ r) = l"
    "dropWhile (\<lambda>c. c \<noteq> 0x0a) (l @ [0x0a] @ r) = 0x0a # r"
    by (simp_all add: takeWhile_append2 dropWhile_append2)
  then show ?thesis by (simp add: take_line_def)
qed

interpretation watch_text: framing take_line "\<lambda>_. False" "\<lambda>l. l @ [0x0a]" "\<lambda>l. l" "\<lambda>l. 0x0a \<notin> set l"
  by unfold_locales (simp_all add: take_line_frame [simplified])

text \<open>The fields a line leaves alone.\<close>

lemma deliver_events_wbuf: "deliver_events evs (ctx\<lparr>wbuf := b\<rparr>) = (deliver_events evs ctx)\<lparr>wbuf := b\<rparr>"
proof (induction evs arbitrary: ctx)
  case (Cons ev evs)
  have comm: "ctx\<lparr>wbuf := b, delivered := d\<rparr> = ctx\<lparr>delivered := d, wbuf := b\<rparr>" for d by simp
  have "deliver_events evs (ctx\<lparr>wbuf := b, delivered := d\<rparr>) =
      (deliver_events evs (ctx\<lparr>delivered := d\<rparr>))\<lparr>wbuf := b\<rparr>" for d
    unfolding comm by (rule Cons.IH)
  then show ?case by (simp split: option.split)
qed simp

lemma handle_line_wbuf: "handle_line jp (ctx\<lparr>wbuf := b\<rparr>) l = (handle_line jp ctx l)\<lparr>wbuf := b\<rparr>"
  by (auto simp: handle_line_def parseWatchLine_def deliver_events_wbuf Let_def
      split: option.splits json.splits)

lemma handle_lines_wbuf: "foldl (handle_line jp) (ctx\<lparr>wbuf := b\<rparr>) ls = (foldl (handle_line jp) ctx ls)\<lparr>wbuf := b\<rparr>"
  by (induction ls arbitrary: ctx) (simp_all add: handle_line_wbuf)

lemma handle_line_wbuf_same: "wbuf (handle_line jp ctx l) = wbuf ctx"
proof -
  have "handle_line jp (ctx\<lparr>wbuf := wbuf ctx\<rparr>) l = (handle_line jp ctx l)\<lparr>wbuf := wbuf ctx\<rparr>"
    by (rule handle_line_wbuf)
  then have "handle_line jp ctx l = (handle_line jp ctx l)\<lparr>wbuf := wbuf ctx\<rparr>" by simp
  then show ?thesis by (metis watch_ctx.select_convs(1) watch_ctx.surjective watch_ctx.update_convs(1))
qed

lemma handle_lines_wbuf_same: "wbuf (foldl (handle_line jp) ctx ls) = wbuf ctx"
  by (induction ls arbitrary: ctx) (simp_all add: handle_line_wbuf_same)

abbreviation lines_of :: "bytes \<Rightarrow> bytes list" where
  "lines_of b \<equiv> fst (drain take_line (\<lambda>_. False) b)"

abbreviation tail_of :: "bytes \<Rightarrow> bytes" where
  "tail_of b \<equiv> snd (drain take_line (\<lambda>_. False) b)"

lemma watchWrite_lines:
  "snd (watchWrite jp False chunk ctx) =
     (foldl (handle_line jp) ctx (lines_of (wbuf ctx @ chunk)))\<lparr>wbuf := tail_of (wbuf ctx @ chunk)\<rparr>"
  by (simp add: watchWrite_def handle_lines_wbuf split: prod.split)

lemma watch_chunks:
  assumes "take_line (wbuf ctx) = None"
  shows "foldl (\<lambda>ctx chunk. snd (watchWrite jp False chunk ctx)) ctx chunks =
     (foldl (handle_line jp) ctx (lines_of (wbuf ctx @ concat chunks)))
       \<lparr>wbuf := tail_of (wbuf ctx @ concat chunks)\<rparr>"
  using assms
proof (induction chunks arbitrary: ctx)
  case Nil
  then show ?case by (simp add: watch_lines.drain_None)
next
  case (Cons c cs)
  let ?ctx = "snd (watchWrite jp False c ctx)"
  have w: "wbuf ?ctx = tail_of (wbuf ctx @ c)" by (simp add: watchWrite_lines)
  have none: "take_line (wbuf ?ctx) = None" unfolding w by (rule watch_lines.drain_rest_None) simp
  have d: "drain take_line (\<lambda>_. False) (wbuf ctx @ c @ concat cs) =
      (lines_of (wbuf ctx @ c) @ lines_of (tail_of (wbuf ctx @ c) @ concat cs),
       tail_of (tail_of (wbuf ctx @ c) @ concat cs))"
    using watch_lines.drain_append [of "wbuf ctx @ c" "concat cs"] by simp
  show ?case
    using Cons.IH [OF none] by (simp add: w d) (simp add: watchWrite_lines handle_lines_wbuf)
qed

lemma watch_session_lines:
  "watch_session jp resumeRev chunks evs =
     (foldl (handle_line jp) \<lparr>wbuf = [], delivered = evs, lastRevision = resumeRev - 1, aborted = False\<rparr>
        (lines_of (concat chunks)))\<lparr>wbuf := tail_of (concat chunks)\<rparr>"
  unfolding watch_session_def by (subst watch_chunks) (simp_all add: take_line_def)


section \<open>Reconnecting loses nothing and repeats nothing\<close>

text \<open>How etcd prints a frame of events, and what is asked of the JSON parser about it.\<close>

definition event_json :: "watch_event \<Rightarrow> json" where
  "event_json we =
     JObject [(str ''type'', JString (case we_type we of PutEvent \<Rightarrow> str ''PUT'' | DeleteEvent \<Rightarrow> str ''DELETE'')),
              (str ''kv'', JObject [(str ''key'', JString (b64Encode (we_key we))),
                                  (str ''value'', JString (b64Encode (we_value we)))])]"

definition frame_json :: "int \<Rightarrow> watch_event list \<Rightarrow> json" where
  "frame_json r evs =
     JObject [(str ''result'', JObject [(str ''header'', JObject [(str ''revision'', JString (to_string r))]),
                                      (str ''events'', JArray (map event_json evs))])]"

type_synonym frame = "int \<times> watch_event list"

definition prints :: "json_parser \<Rightarrow> (frame \<Rightarrow> bytes) \<Rightarrow> frame list \<Rightarrow> bool" where
  "prints jp line h \<longleftrightarrow>
     (\<forall>(r, evs)\<in>set h. 0x0a \<notin> set (line (r, evs)) \<and> line (r, evs) \<noteq> [] \<and>
        - (2 ^ 63) \<le> r \<and> r < 2 ^ 63 \<and> jp (line (r, evs)) = Some (frame_json r evs))"

definition text_of :: "(frame \<Rightarrow> bytes) \<Rightarrow> frame list \<Rightarrow> bytes" where
  "text_of line fs = concat (map (\<lambda>f. line f @ [0x0a]) fs)"

lemma b64Decode_Encode: "b64Decode (b64Encode x) = x"
  using b64_roundtrip_from [of "[]" 0 x] unfolding b64Decode_def by (metis append_Nil fst_conv)

lemma watch_event_of_json: "watch_event_of (event_json we) = Some we"
  by (cases we; cases "we_type we")
    (simp_all add: watch_event_of_def event_json_def json_value_def json_find_def b64Decode_Encode Let_def)

lemma deliver_events_json:
  "deliver_events (map event_json evs) ctx = ctx\<lparr>delivered := delivered ctx @ evs\<rparr>"
  by (induction evs arbitrary: ctx) (simp_all add: watch_event_of_json)

lemma handle_frame:
  assumes "prints jp line h" and "(r, evs) \<in> set h" and "\<not> aborted ctx"
  shows "handle_line jp ctx (line (r, evs)) =
    ctx\<lparr>delivered := delivered ctx @ evs,
        lastRevision := if lastRevision ctx < r then r else lastRevision ctx\<rparr>"
proof -
  have "line (r, evs) \<noteq> []" "- (2 ^ 63) \<le> r" "r < 2 ^ 63" "jp (line (r, evs)) = Some (frame_json r evs)"
    using assms(1,2) unfolding prints_def by auto
  then show ?thesis
    using assms(3) stoll_to_string [of r]
    by (simp add: handle_line_def parseWatchLine_def frame_json_def json_find_def deliver_events_json
        jint_def Let_def)
qed

lemma lines_of_prefix:
  "prefix t (text_of line fs) \<Longrightarrow> \<forall>f\<in>set fs. 0x0a \<notin> set (line f) \<Longrightarrow>
     \<exists>k. lines_of t = map line (take k fs)"
proof (induction fs arbitrary: t)
  case Nil
  then have "take_line t = None" by (simp add: text_of_def take_line_def)
  then show ?case by (simp add: watch_lines.drain_None)
next
  case (Cons f fs)
  have nl: "0x0a \<notin> set (line f)" using Cons.prems(2) by simp
  from Cons.prems(1) have "prefix t (line f @ [0x0a] @ text_of line fs)" by (simp add: text_of_def)
  then consider "prefix t (line f)" | u where "t = (line f @ [0x0a]) @ u" "prefix u (text_of line fs)"
    by (auto simp: prefix_append prefix_Cons)
  then show ?case
  proof cases
    case 1
    then have "0x0a \<notin> set t" using nl by (auto simp: prefix_def)
    then have "take_line t = None" by (simp add: take_line_def)
    then have "lines_of t = map line (take 0 (f # fs))" by (simp add: watch_lines.drain_None)
    then show ?thesis by blast
  next
    case (2 u)
    with Cons.IH [of u] Cons.prems(2) obtain k where "lines_of u = map line (take k fs)" by auto
    moreover have "lines_of t = line f # lines_of u"
      using watch_lines.drain_step [OF take_line_frame [OF nl, of u]] 2 by simp
    ultimately have "lines_of t = map line (take (Suc k) (f # fs))" by simp
    then show ?thesis by blast
  qed
qed

lemma handle_frames:
  assumes "prints jp line h" and "set fs \<subseteq> set h" and "\<not> aborted ctx" and "sorted_wrt (<) (lastRevision ctx # map fst fs)"
  shows "foldl (handle_line jp) ctx (map line fs) =
    ctx\<lparr>delivered := delivered ctx @ concat (map snd fs), lastRevision := last (lastRevision ctx # map fst fs)\<rparr>"
  using assms(2-)
proof (induction fs arbitrary: ctx)
  case (Cons f fs)
  obtain r evs where f: "f = (r, evs)" by fastforce
  let ?ctx = "ctx\<lparr>delivered := delivered ctx @ evs, lastRevision := r\<rparr>"
  have "handle_line jp ctx (line f) = ?ctx"
    using handle_frame [OF assms(1), of r evs ctx] Cons.prems f by simp
  moreover have "foldl (handle_line jp) ?ctx (map line fs) =
      ?ctx\<lparr>delivered := delivered ?ctx @ concat (map snd fs), lastRevision := last (lastRevision ?ctx # map fst fs)\<rparr>"
    using Cons.prems f by (intro Cons.IH) auto
  ultimately show ?case by (simp add: f)
qed simp

lemma take_sorted_filter:
  assumes "sorted_wrt (<) (map fst (fs :: frame list))" and "k \<le> length fs" and "0 < k"
  shows "take k fs = filter (\<lambda>f. fst f < fst (fs ! (k - 1)) + 1) fs"
proof -
  have le: "fst (fs ! i) < fst (fs ! j)" if "i < j" "j < length fs" for i j
    using sorted_wrt_nth_less [OF assms(1), of i j] that by simp
  have "filter (\<lambda>f. fst f < fst (fs ! (k - 1)) + 1) (take k fs) = take k fs"
  proof (rule filter_True, rule ballI)
    fix f assume "f \<in> set (take k fs)"
    then obtain i where "i < k" "f = fs ! i" using assms(2) by (auto simp: in_set_conv_nth)
    then show "fst f < fst (fs ! (k - 1)) + 1"
    proof (cases "i = k - 1")
      case False
      with \<open>i < k\<close> have "i < k - 1" "k - 1 < length fs" using assms(2) by simp_all
      from le [OF this] \<open>f = fs ! i\<close> show ?thesis by simp
    qed (simp add: \<open>f = fs ! i\<close>)
  qed
  moreover have "filter (\<lambda>f. fst f < fst (fs ! (k - 1)) + 1) (drop k fs) = []"
  proof -
    have "\<not> fst (drop k fs ! i) < fst (fs ! (k - 1)) + 1" if "i < length (drop k fs)" for i
    proof -
      have "k - 1 < k + i" "k + i < length fs" using that assms by simp_all
      from le [OF this] assms(2) show ?thesis by simp
    qed
    then show ?thesis unfolding filter_empty_conv by (metis in_set_conv_nth)
  qed
  ultimately show ?thesis by (metis append_Nil2 append_take_drop_id filter_append)
qed

lemma watch_session_frames:
  fixes evs :: "watch_event list"
  assumes p: "prints jp line h" and h: "sorted_wrt (<) (map fst h)"
    and c: "prefix (concat chunks) (text_of line (filter (\<lambda>f. r \<le> fst f) h))"
  defines "ctx \<equiv> watch_session jp r chunks evs"
  shows "\<not> aborted ctx" and "r \<le> resume_after r ctx"
    and "delivered ctx = evs @ concat (map snd (filter (\<lambda>f. r \<le> fst f \<and> fst f < resume_after r ctx) h))"
proof -
  let ?fs = "filter (\<lambda>f. r \<le> fst f) h"
  let ?ctx0 = "\<lparr>wbuf = [], delivered = evs, lastRevision = r - 1, aborted = False\<rparr>"
  have "\<forall>f\<in>set ?fs. 0x0a \<notin> set (line f)" using p by (auto simp: prints_def)
  from lines_of_prefix [OF c this] obtain k0 where "lines_of (concat chunks) = map line (take k0 ?fs)" by blast
  moreover define k where "k = min k0 (length ?fs)"
  ultimately have k: "lines_of (concat chunks) = map line (take k ?fs)" "k \<le> length ?fs"
    by (simp_all add: min_def)
  have sorted: "sorted_wrt (<) (map fst ?fs)"
    using h by (induction h) auto
  have "sorted_wrt (<) (map fst (take k ?fs))"
    using sorted_wrt_take [OF sorted, of k] by (simp add: take_map)
  moreover have "\<forall>f\<in>set (take k ?fs). r - 1 < fst f" by (auto dest!: in_set_takeD)
  ultimately have s: "sorted_wrt (<) (lastRevision ?ctx0 # map fst (take k ?fs))" by simp
  have sub: "set (take k ?fs) \<subseteq> set h" by (auto dest!: in_set_takeD)
  have ctx: "ctx = (?ctx0\<lparr>delivered := evs @ concat (map snd (take k ?fs)),
      lastRevision := last ((r - 1) # map fst (take k ?fs))\<rparr>)\<lparr>wbuf := tail_of (concat chunks)\<rparr>"
    unfolding ctx_def watch_session_lines k(1) using handle_frames [OF p sub _ s] by simp
  show "\<not> aborted ctx" by (simp add: ctx)
  have "r \<le> resume_after r ctx \<and> take k ?fs = filter (\<lambda>f. fst f < resume_after r ctx) ?fs"
  proof (cases "k = 0")
    case True
    then have "resume_after r ctx = r" by (simp add: resume_after_def ctx)
    then show ?thesis using True by (auto simp: filter_empty_conv)
  next
    case False
    then have ne: "?fs \<noteq> []" "map fst (take k ?fs) \<noteq> []" using k(2) by auto
    have "last (map fst (take k ?fs)) = fst (?fs ! (k - 1))"
      using False k(2) ne by (simp add: last_conv_nth min_def)
    moreover have "r \<le> fst (?fs ! (k - 1))"
    proof -
      have "?fs ! (k - 1) \<in> set ?fs" using False k(2) by (intro nth_mem) simp
      then show ?thesis by simp
    qed
    ultimately have "resume_after r ctx = fst (?fs ! (k - 1)) + 1" "r \<le> fst (?fs ! (k - 1))"
      using ne by (simp_all add: resume_after_def ctx)
    then show ?thesis using take_sorted_filter [OF sorted k(2)] False by simp
  qed
  then show "r \<le> resume_after r ctx"
    and "delivered ctx = evs @ concat (map snd (filter (\<lambda>f. r \<le> fst f \<and> fst f < resume_after r ctx) h))"
    by (simp_all add: ctx conj_commute)
qed

text \<open>
  etcd serves a watch that starts at revision \<open>r\<close> with the frames of its history from \<open>r\<close>
  on; the connection may break at any byte.
\<close>

fun served :: "json_parser \<Rightarrow> (frame \<Rightarrow> bytes) \<Rightarrow> frame list \<Rightarrow> int \<Rightarrow> watch_event list \<Rightarrow> session list \<Rightarrow> bool" where
  "served jp line h r evs [] = True"
| "served jp line h r evs ((chunks, stop) # ss) =
     (prefix (concat chunks) (text_of line (filter (\<lambda>f. r \<le> fst f) h)) \<and>
      (let ctx = watch_session jp r chunks evs in
       stop \<or> served jp line h (resume_after r ctx) (delivered ctx) ss))"

lemma watch_resume:
  assumes "prints jp line h" and "sorted_wrt (<) (map fst h)" and "served jp line h r evs ss"
  shows "case WatchPrefixBlocking jp r evs ss of (evs', r') \<Rightarrow>
    r \<le> r' \<and> evs' = evs @ concat (map snd (filter (\<lambda>f. r \<le> fst f \<and> fst f < r') h))"
  using assms(3)
proof (induction ss arbitrary: r evs)
  case Nil
  have "filter (\<lambda>f. r \<le> fst f \<and> fst f < r) h = []" by (auto simp: filter_empty_conv)
  then have "concat (map snd (filter (\<lambda>f. r \<le> fst f \<and> fst f < r) h)) = []"
    by (simp only: list.map concat.simps)
  then show ?case by (simp only: WatchPrefixBlocking.simps prod.case append_Nil2 order_refl simp_thms)
next
  case (Cons sess ss)
  obtain chunks stop where s: "sess = (chunks, stop)" by fastforce
  let ?ctx = "watch_session jp r chunks evs" let ?r = "resume_after r ?ctx"
  have pre: "prefix (concat chunks) (text_of line (filter (\<lambda>f. r \<le> fst f) h))" using Cons.prems s by simp
  note S = watch_session_frames [OF assms(1,2) pre, of evs]
  show ?case
  proof (cases stop)
    case True
    then show ?thesis using S s by (simp add: Let_def)
  next
    case False
    obtain evs' r' where w: "WatchPrefixBlocking jp ?r (delivered ?ctx) ss = (evs', r')" by fastforce
    have "served jp line h ?r (delivered ?ctx) ss" using Cons.prems s False by (simp add: Let_def)
    from Cons.IH [OF this] w have IH: "?r \<le> r'"
      "evs' = delivered ?ctx @ concat (map snd (filter (\<lambda>f. ?r \<le> fst f \<and> fst f < r') h))" by simp_all
    have split: "filter (\<lambda>f. r \<le> fst f \<and> fst f < r') h =
        filter (\<lambda>f. r \<le> fst f \<and> fst f < ?r) h @ filter (\<lambda>f. ?r \<le> fst f \<and> fst f < r') h"
      using assms(2)
    proof (induction h)
      case (Cons f h)
      have "filter (\<lambda>f. r \<le> fst f \<and> fst f < ?r) h = []" if "?r \<le> fst f"
        using Cons.prems that by (auto simp: filter_empty_conv)
      then show ?case using Cons S(2) IH(1) by auto
    qed simp
    show ?thesis using S IH s False w split by (simp add: Let_def)
  qed
qed

end
