(* ===== verification/AddressCache.thy ===== *)
theory AddressCache
  imports EtcdWatch "HOL-Library.Multiset" "HOL-Library.AList"
begin

text \<open>
  rpcaddresscache.cc: the table of instances of every method, filled by one range scan,
  maintained by the watch, and read round robin.
\<close>

record method_entry =
  instances :: "bytes list"
  rr :: u64

record addr_cache =
  g_etcd :: "bool option"  \<comment> \<open>\<open>g_etcdOk\<close> once \<open>ensureEtcd\<close> has run\<close>
  g_entries :: "(bytes \<times> method_entry) list"

definition addr_init :: addr_cache where
  "addr_init = \<lparr>g_etcd = None, g_entries = []\<rparr>"

text \<open>The addresses of the scan: keys longer than the prefix, without it.\<close>

definition initial_instances :: "bytes \<Rightarrow> key_value list \<Rightarrow> bytes list" where
  "initial_instances pfx kvs =
     map (\<lambda>kv. drop (length pfx) (kv_key kv)) (filter (\<lambda>kv. length pfx < length (kv_key kv)) kvs)"

text \<open>The watch callback.\<close>

definition on_watch_event :: "bytes \<Rightarrow> watch_event \<Rightarrow> bytes list \<Rightarrow> bytes list" where
  "on_watch_event pfx ev vec =
     (if length (we_key ev) \<le> length pfx then vec
      else let addr = drop (length pfx) (we_key ev) in
           (case we_type ev of
              PutEvent \<Rightarrow> if addr \<in> set vec then vec else vec @ [addr]
            | DeleteEvent \<Rightarrow> filter (\<lambda>a. a \<noteq> addr) vec))"

definition pick_instance :: "method_entry \<Rightarrow> bytes option \<times> method_entry" where
  "pick_instance e =
     (if instances e = [] then (None, e)
      else let idx = unat (rr e) mod length (instances e)
           in (Some (instances e ! idx), e\<lparr>rr := rr e + 1\<rparr>))"

datatype addr_error = EtcdNotReachable | EtcdRangeFailed bytes | NoInstance bytes

text \<open>
  \<open>GetRpcAddress\<close>. The client object is created and started by the first call; the first
  call for a method scans etcd. The watch is started with it (theory EtcdWatch); its events
  reach the table through \<open>on_watch_event\<close>.
\<close>

definition GetRpcAddress ::
  "json_parser \<Rightarrow> bytes \<Rightarrow> addr_cache \<times> http \<Rightarrow> (addr_error, bytes) sum \<times> addr_cache \<times> http" where
  "GetRpcAddress jp method_path ch =
     (case ch of (c, h) \<Rightarrow>
        let (ok, c1, h1) =
          (case g_etcd c of
             Some ok \<Rightarrow> (ok, c, h)
           | None \<Rightarrow> (let (ok, h') = etcd_Start jp h in (ok, c\<lparr>g_etcd := Some ok\<rparr>, h'))) in
        if \<not> ok then (Inl EtcdNotReachable, c1, h1)
        else
          let (found, h2) =
            (case map_of (g_entries c1) method_path of
               Some e \<Rightarrow> (Some e, h1)
             | None \<Rightarrow>
                 (let pfx = method_path @ str ''/''; (res, h') = RangePrefix jp pfx 0 h1 in
                  (map_option (\<lambda>(kvs, rev). \<lparr>instances = initial_instances pfx kvs, rr = 0\<rparr>) res, h'))) in
          (case found of
             None \<Rightarrow> (Inl (EtcdRangeFailed method_path), c1, h2)
           | Some e \<Rightarrow>
               let (addr, e') = pick_instance e;
                   c2 = c1\<lparr>g_entries := AList.update method_path e' (g_entries c1)\<rparr> in
               (case addr of
                  None \<Rightarrow> (Inl (NoInstance method_path), c2, h2)
                | Some a \<Rightarrow> (Inr a, c2, h2))))"

section \<open>The instance table follows the store\<close>

text \<open>etcd's keys, as a set, and what an event does to it.\<close>

definition apply_event :: "watch_event \<Rightarrow> bytes set \<Rightarrow> bytes set" where
  "apply_event ev ks =
     (case we_type ev of PutEvent \<Rightarrow> insert (we_key ev) ks | DeleteEvent \<Rightarrow> ks - {we_key ev})"

text \<open>The instances a set of keys stands for, and when a table agrees with it.\<close>

definition addresses :: "bytes \<Rightarrow> bytes set \<Rightarrow> bytes set" where
  "addresses pfx ks = {a. a \<noteq> [] \<and> pfx @ a \<in> ks}"

definition table_ok :: "bytes \<Rightarrow> bytes set \<Rightarrow> bytes list \<Rightarrow> bool" where
  "table_ok pfx ks vec \<longleftrightarrow> distinct vec \<and> set vec = addresses pfx ks"

lemma prefix_split: "prefix pfx k \<Longrightarrow> k = pfx @ drop (length pfx) k"
  by (auto simp: prefix_def)

lemma initial_table:
  assumes "\<forall>kv\<in>set kvs. prefix pfx (kv_key kv)" and "distinct (map kv_key kvs)"
  shows "table_ok pfx (kv_key ` set kvs) (initial_instances pfx kvs)"
proof -
  let ?long = "filter (\<lambda>kv. length pfx < length (kv_key kv)) kvs"
  have "inj_on (\<lambda>kv. drop (length pfx) (kv_key kv)) (set ?long)"
  proof (rule inj_onI)
    fix x y assume xy: "x \<in> set ?long" "y \<in> set ?long" "drop (length pfx) (kv_key x) = drop (length pfx) (kv_key y)"
    then have "kv_key x = kv_key y"
      using assms(1) prefix_split [of pfx "kv_key x"] prefix_split [of pfx "kv_key y"] by auto
    then show "x = y" using assms(2) xy by (auto simp: distinct_map dest: inj_onD)
  qed
  then have "distinct (initial_instances pfx kvs)"
    using assms(2) by (simp add: initial_instances_def distinct_map)
  moreover have "set (initial_instances pfx kvs) = addresses pfx (kv_key ` set kvs)"
  proof (intro set_eqI iffI)
    fix a assume "a \<in> set (initial_instances pfx kvs)"
    then obtain kv where "kv \<in> set kvs" "length pfx < length (kv_key kv)" "a = drop (length pfx) (kv_key kv)"
      by (auto simp: initial_instances_def)
    then show "a \<in> addresses pfx (kv_key ` set kvs)"
      using assms(1) prefix_split [of pfx "kv_key kv"] by (auto simp: addresses_def)
  next
    fix a assume "a \<in> addresses pfx (kv_key ` set kvs)"
    then obtain kv where kv: "kv \<in> set kvs" "kv_key kv = pfx @ a" "a \<noteq> []" by (auto simp: addresses_def)
    then show "a \<in> set (initial_instances pfx kvs)" by (force simp: initial_instances_def)
  qed
  ultimately show ?thesis by (simp add: table_ok_def)
qed

lemma watch_event_table:
  assumes "prefix pfx (we_key ev)" and "table_ok pfx ks vec"
  shows "table_ok pfx (apply_event ev ks) (on_watch_event pfx ev vec)"
proof -
  obtain a where k: "we_key ev = pfx @ a" using assms(1) by (auto simp: prefix_def)
  show ?thesis
    using assms(2) by (cases "we_type ev"; cases "a = []")
      (auto simp: table_ok_def on_watch_event_def apply_event_def addresses_def k Let_def)
qed

lemma watch_events_table:
  "\<forall>ev\<in>set evs. prefix pfx (we_key ev) \<Longrightarrow> table_ok pfx ks vec \<Longrightarrow>
     table_ok pfx (fold apply_event evs ks) (fold (on_watch_event pfx) evs vec)"
  by (induction evs arbitrary: ks vec) (auto simp: watch_event_table)

section \<open>Round robin\<close>

fun picks :: "nat \<Rightarrow> method_entry \<Rightarrow> bytes option list" where
  "picks 0 e = []"
| "picks (Suc n) e = (let (a, e') = pick_instance e in a # picks n e')"

lemma picks_rr:
  assumes "instances e \<noteq> []" and "unat (rr e) + n \<le> 2 ^ 64"
  shows "picks n e =
     map (\<lambda>i. Some (instances e ! ((unat (rr e) + i) mod length (instances e)))) [0..<n]"
  using assms
proof (induction n arbitrary: e)
  case (Suc n)
  let ?e = "e\<lparr>rr := rr e + 1\<rparr>"
  show ?case
  proof (cases "n = 0")
    case True
    then show ?thesis using Suc.prems by (simp add: pick_instance_def Let_def)
  next
    case False
    then have "unat (rr e) + 1 < 2 ^ 64" using Suc.prems by simp
    then have r: "unat (rr ?e) = unat (rr e) + 1" by (simp add: unat_word_ariths)
    have "picks n ?e =
        map (\<lambda>i. Some (instances e ! ((unat (rr e) + Suc i) mod length (instances e)))) [0..<n]"
      using Suc.IH [of ?e] Suc.prems r by simp
    then have "picks (Suc n) e = Some (instances e ! (unat (rr e) mod length (instances e))) #
        map (\<lambda>i. Some (instances e ! ((unat (rr e) + Suc i) mod length (instances e)))) [0..<n]"
      using Suc.prems(1) by (simp add: pick_instance_def Let_def)
    also have "\<dots> = map (\<lambda>i. Some (instances e ! ((unat (rr e) + i) mod length (instances e)))) [0..<Suc n]"
      by (simp only: map_Suc_upt [symmetric] upt_conv_Cons zero_less_Suc list.map map_map comp_def add_0_right)
    finally show ?thesis .
  qed
qed simp

lemma mod_rotation: "0 < n \<Longrightarrow> mset (map (\<lambda>i. (k + i) mod n) [0..<n]) = mset [0..<n]"
proof -
  assume n: "0 < n"
  have inj: "inj_on (\<lambda>i. (k + i) mod n) {0..<n}"
  proof (rule inj_onI)
    fix x y assume xy: "x \<in> {0..<n}" "y \<in> {0..<n}" "(k + x) mod n = (k + y) mod n"
    then have "int n dvd (int x - int y)"
      by (metis add_diff_cancel_left mod_eq_dvd_iff of_nat_add of_nat_mod)
    moreover have "\<bar>int x - int y\<bar> < int n" using xy by auto
    ultimately have "int x - int y = 0" by (metis dvd_imp_le_int abs_of_nat linorder_not_le)
    then show "x = y" by simp
  qed
  have "(\<lambda>i. (k + i) mod n) ` {0..<n} \<subseteq> {0..<n}" using n by auto
  then have "(\<lambda>i. (k + i) mod n) ` {0..<n} = {0..<n}"
    using inj by (intro card_subset_eq) (simp_all add: card_image)
  then show ?thesis
    using inj by (intro set_eq_iff_mset_eq_distinct [THEN iffD1]) (simp_all add: distinct_map)
qed

lemma picks_fair:
  assumes "instances e \<noteq> []" and "unat (rr e) + length (instances e) \<le> 2 ^ 64"
  shows "mset (picks (length (instances e)) e) = mset (map Some (instances e))"
proof -
  let ?n = "length (instances e)"
  have "picks ?n e = map (\<lambda>j. Some (instances e ! j)) (map (\<lambda>i. (unat (rr e) + i) mod ?n) [0..<?n])"
    using picks_rr [OF assms] by simp
  then have "mset (picks ?n e) =
      image_mset (\<lambda>j. Some (instances e ! j)) (mset (map (\<lambda>i. (unat (rr e) + i) mod ?n) [0..<?n]))"
    by (simp only: mset_map)
  also have "\<dots> = image_mset (\<lambda>j. Some (instances e ! j)) (mset [0..<?n])"
    by (rule arg_cong [OF mod_rotation]) (use assms(1) in simp)
  also have "\<dots> = mset (map Some (map ((!) (instances e)) [0..<?n]))"
    by (simp only: mset_map multiset.map_comp comp_def)
  finally show ?thesis by (simp only: map_nth)
qed

end
