(* ===== verification/Channel.thy ===== *)
theory Channel
  imports SocketLoops AddressCache
begin

text \<open>
  \<open>KimRpcChannel\<close> (include/channel.h, channel.cc) in its non-blocking build
  (\<open>KIMRPC_ASYNC_CLIENT\<close>): the table of calls that wait for a response, shared by the
  calling threads, the receive thread and the timer thread. Every critical section of
  \<open>m_pendingMtx\<close> is one operation; what a thread holds between two of them (a slot it took
  out of the table and whose callback it is about to run) is part of the state.

  Calls are numbered in the order they are made (\<open>issued\<close>); the number stands for the
  caller's \<open>done\<close> closure. \<open>completions\<close> records every \<open>done->Run()\<close>.
\<close>

section \<open>State\<close>

record pending =
  p_call :: nat
  p_controller :: bool
  p_deadline :: "int option"  \<comment> \<open>\<open>None\<close> is \<open>time_point::max()\<close>\<close>

text \<open>What the caller finds when \<open>done\<close> runs: the text of \<open>SetFailed\<close> and the response body.\<close>

record completion =
  c_call :: nat
  c_error :: "bytes option"
  c_body :: "bytes option"

datatype stage = Allocated | Registered

text \<open>A thread inside \<open>callAsync\<close>, after it drew its \<open>request_id\<close>.\<close>

record caller =
  cl_call :: nat
  cl_id :: u64
  cl_stage :: stage
  cl_controller :: bool

datatype rx_state = RxNone | RxReading | RxStopping

text \<open>The connection, which both builds have alike.\<close>

record connection_state =
  m_clientfd :: int
  m_connectedHost :: bytes
  m_running :: bool
  rx :: rx_state

record channel = connection_state +
  m_nextId :: u64
  m_pending :: "(u64 \<times> pending) list"
  m_timeoutMs :: int
  m_timerRunning :: bool
  callers :: "caller list"
  rx_taken :: "(pending \<times> bytes) list"
  fail_taken :: "(pending \<times> bytes) list"
  timer_taken :: "pending list"
  completions :: "completion list"
  issued :: nat

definition kDefaultTimeoutMs :: int where "kDefaultTimeoutMs = 5000"

definition KimRpcChannel :: channel where
  "KimRpcChannel =
     \<lparr>m_clientfd = -1, m_connectedHost = [], m_running = False, rx = RxNone, m_nextId = 1, m_pending = [],
      m_timeoutMs = kDefaultTimeoutMs, m_timerRunning = True, callers = [], rx_taken = [],
      fail_taken = [], timer_taken = [], completions = [], issued = 0\<rparr>"

definition SetTimeoutMs :: "int \<Rightarrow> channel \<Rightarrow> channel" where
  "SetTimeoutMs ms s = s\<lparr>m_timeoutMs := ms\<rparr>"

text \<open>\<open>SetFailed\<close> when there is a controller, then \<open>done->Run()\<close>.\<close>

definition run_failed :: "nat \<Rightarrow> bool \<Rightarrow> bytes \<Rightarrow> channel \<Rightarrow> channel" where
  "run_failed c ctl reason s =
     s\<lparr>completions := completions s @ [\<lparr>c_call = c, c_error = (if ctl then Some reason else None), c_body = None\<rparr>]\<rparr>"

section \<open>\<open>callAsync\<close>\<close>

text \<open>Entry: the arguments do not serialise, or a \<open>request_id\<close> is drawn.\<close>

definition callAsync_begin :: "bool \<Rightarrow> bool \<Rightarrow> channel \<Rightarrow> channel" where
  "callAsync_begin serialized ctl s =
     (let c = issued s; s1 = s\<lparr>issued := Suc c\<rparr> in
      if \<not> serialized then run_failed c ctl (str ''serialize request error!'') s1
      else s1\<lparr>m_nextId := m_nextId s + 1,
              callers := callers s @
                [\<lparr>cl_call = c, cl_id = m_nextId s, cl_stage = Allocated, cl_controller = ctl\<rparr>]\<rparr>)"

text \<open>The header does not serialise, no address is found, or the connection fails.\<close>

definition callAsync_abort :: "caller \<Rightarrow> bytes \<Rightarrow> channel \<Rightarrow> channel" where
  "callAsync_abort cl reason s =
     run_failed (cl_call cl) (cl_controller cl) reason (s\<lparr>callers := remove1 cl (callers s)\<rparr>)"

text \<open>Registration of the slot, before sending; \<open>now\<close> in milliseconds.\<close>

definition deadline_of :: "int \<Rightarrow> int \<Rightarrow> int option" where
  "deadline_of timeout now = (if 0 < timeout then Some (now + timeout) else None)"

definition callAsync_register :: "caller \<Rightarrow> int \<Rightarrow> channel \<Rightarrow> channel" where
  "callAsync_register cl now s =
     s\<lparr>m_pending := AList.update (cl_id cl)
         \<lparr>p_call = cl_call cl, p_controller = cl_controller cl, p_deadline = deadline_of (m_timeoutMs s) now\<rparr>
         (m_pending s),
       callers := map (\<lambda>x. if x = cl then cl\<lparr>cl_stage := Registered\<rparr> else x) (callers s)\<rparr>"

text \<open>The send returned: on failure the slot is withdrawn, unless another thread took it.\<close>

definition callAsync_sent :: "caller \<Rightarrow> bool \<Rightarrow> bytes \<Rightarrow> channel \<Rightarrow> channel" where
  "callAsync_sent cl ok error s =
     (let s1 = s\<lparr>callers := remove1 cl (callers s)\<rparr> in
      if ok then s1
      else (case map_of (m_pending s) (cl_id cl) of
              None \<Rightarrow> s1
            | Some _ \<Rightarrow>
                run_failed (cl_call cl) (cl_controller cl) error
                  (s1\<lparr>m_pending := AList.delete (cl_id cl) (m_pending s)\<rparr>)))"

section \<open>Connection\<close>

datatype host = BadAddress | BadPort | Host bytes "16 word"

text \<open>\<open>host_data.find(":")\<close>, the two substrings, and \<open>stoi\<close>, which throws on no number.\<close>

definition parse_host :: "bytes \<Rightarrow> host" where
  "parse_host host_data =
     (if of_char CHR '':'' \<notin> set host_data then BadAddress
      else let ip = takeWhile (\<lambda>c. c \<noteq> of_char CHR '':'') host_data;
               port = tl (dropWhile (\<lambda>c. c \<noteq> of_char CHR '':'') host_data) in
           (case stoll port of
              None \<Rightarrow> BadPort
            | Some v \<Rightarrow> if v < - (2 ^ 31) \<or> 2 ^ 31 \<le> v then BadPort else Host ip (word_of_int v)))"

text \<open>
  \<open>ensureConnected\<close> up to the point where it waits for the old receive thread: the connection can
  be used as it is, or the old one is closed.
\<close>

definition ensureConnected_reuse :: "bytes \<Rightarrow> 'a connection_state_scheme \<Rightarrow> bool" where
  "ensureConnected_reuse host_data s \<longleftrightarrow>
     m_clientfd s \<noteq> -1 \<and> m_running s \<and> m_connectedHost s = host_data"

definition ensureConnected_close :: "'a connection_state_scheme \<Rightarrow> 'a connection_state_scheme" where
  "ensureConnected_close s = s\<lparr>m_clientfd := -1\<rparr>"

text \<open>
  After the join: \<open>fd\<close> is the connected socket, or -1 when there is none. For \<open>BadPort\<close> the code
  leaves by an exception instead of returning false; the caller then stays where it is.
\<close>

definition ensureConnected_open ::
  "bytes \<Rightarrow> int \<Rightarrow> 'a connection_state_scheme \<Rightarrow> bool \<times> 'a connection_state_scheme" where
  "ensureConnected_open host_data fd s =
     (let s1 = s\<lparr>m_connectedHost := []\<rparr> in
      (case parse_host host_data of
         Host ip port \<Rightarrow>
           if fd = -1 then (False, s1)
           else (True, s1\<lparr>m_clientfd := fd, m_connectedHost := host_data, m_running := True, rx := RxReading\<rparr>)
       | _ \<Rightarrow> (False, s1)))"

section \<open>Receive thread and timer thread\<close>

text \<open>A frame arrived: its slot is taken out of the table; an unknown id is dropped.\<close>

definition recv_dispatch :: "u64 \<Rightarrow> bytes \<Rightarrow> channel \<Rightarrow> channel" where
  "recv_dispatch i body s =
     (case map_of (m_pending s) i of
        None \<Rightarrow> s
      | Some p \<Rightarrow> s\<lparr>m_pending := AList.delete i (m_pending s), rx_taken := rx_taken s @ [(p, body)]\<rparr>)"

text \<open>The callback of the slot; \<open>parses\<close> tells whether the body is a response message.\<close>

definition recv_complete :: "(bytes \<Rightarrow> bool) \<Rightarrow> channel \<Rightarrow> channel" where
  "recv_complete parses s =
     (case rx_taken s of
        [] \<Rightarrow> s
      | (p, body) # ts \<Rightarrow>
          s\<lparr>rx_taken := ts,
            completions := completions s @
              [\<lparr>c_call = p_call p,
                c_error = (if \<not> parses body \<and> p_controller p then Some (str ''parse response error!'') else None),
                c_body = Some body\<rparr>]\<rparr>)"

text \<open>\<open>failAllPending\<close>: the table is swapped out, then the callbacks run one by one.\<close>

definition failAllPending_swap :: "bytes \<Rightarrow> channel \<Rightarrow> channel" where
  "failAllPending_swap reason s =
     s\<lparr>m_pending := [], fail_taken := fail_taken s @ map (\<lambda>(i, p). (p, reason)) (m_pending s)\<rparr>"

definition failAllPending_next :: "channel \<Rightarrow> channel" where
  "failAllPending_next s =
     (case fail_taken s of
        [] \<Rightarrow> s
      | (p, reason) # ts \<Rightarrow> run_failed (p_call p) (p_controller p) reason (s\<lparr>fail_taken := ts\<rparr>))"

text \<open>The end of \<open>recvLoop\<close>.\<close>

definition recvLoop_exit :: "channel \<Rightarrow> channel" where
  "recvLoop_exit s =
     failAllPending_swap (str ''connection closed'') (s\<lparr>m_running := False, rx := RxStopping\<rparr>)"

text \<open>One tick of \<open>timerLoop\<close> under the lock, and one callback outside of it.\<close>

definition is_expired :: "int \<Rightarrow> u64 \<times> pending \<Rightarrow> bool" where
  "is_expired now ip = (case p_deadline (snd ip) of None \<Rightarrow> False | Some d \<Rightarrow> d \<le> now)"

definition timer_scan :: "int \<Rightarrow> channel \<Rightarrow> channel" where
  "timer_scan now s =
     s\<lparr>m_pending := filter (\<lambda>ip. \<not> is_expired now ip) (m_pending s),
       timer_taken := timer_taken s @ map snd (filter (is_expired now) (m_pending s))\<rparr>"

definition timer_next :: "channel \<Rightarrow> channel" where
  "timer_next s =
     (case timer_taken s of
        [] \<Rightarrow> s
      | p # ts \<Rightarrow> run_failed (p_call p) (p_controller p) (str ''rpc timeout'') (s\<lparr>timer_taken := ts\<rparr>))"

section \<open>The threads, interleaved\<close>

inductive channel_step :: "(bytes \<Rightarrow> bool) \<Rightarrow> channel \<Rightarrow> channel \<Rightarrow> bool" for parses where
  call: "channel_step parses s (callAsync_begin serialized ctl s)"
| abort: "cl \<in> set (callers s) \<Longrightarrow> cl_stage cl = Allocated \<Longrightarrow> channel_step parses s (callAsync_abort cl reason s)"
| disconnect: "channel_step parses s (ensureConnected_close s)"
| connect: "rx s = RxNone \<Longrightarrow> ensureConnected_open host_data fd s = (ok, t) \<Longrightarrow> channel_step parses s t"
| register: "cl \<in> set (callers s) \<Longrightarrow> cl_stage cl = Allocated \<Longrightarrow> channel_step parses s (callAsync_register cl now s)"
| sent: "cl \<in> set (callers s) \<Longrightarrow> cl_stage cl = Registered \<Longrightarrow> channel_step parses s (callAsync_sent cl ok error s)"
| frame: "rx s = RxReading \<Longrightarrow> rx_taken s = [] \<Longrightarrow> channel_step parses s (recv_dispatch i body s)"
| response: "channel_step parses s (recv_complete parses s)"
| rx_exit: "rx s = RxReading \<Longrightarrow> rx_taken s = [] \<Longrightarrow> channel_step parses s (recvLoop_exit s)"
| fail_next: "channel_step parses s (failAllPending_next s)"
| rx_end: "rx s = RxStopping \<Longrightarrow> fail_taken s = [] \<Longrightarrow> channel_step parses s (s\<lparr>rx := RxNone\<rparr>)"
| tick: "timer_taken s = [] \<Longrightarrow> channel_step parses s (timer_scan now s)"
| timeout: "channel_step parses s (timer_next s)"
| set_timeout: "channel_step parses s (SetTimeoutMs ms s)"

text \<open>The destructor, with the threads it joins already idle: \<open>teardown\<close> fails what is left.\<close>

fun fail_all :: "nat \<Rightarrow> channel \<Rightarrow> channel" where
  "fail_all 0 s = s"
| "fail_all (Suc n) s = fail_all n (failAllPending_next s)"

definition teardown :: "channel \<Rightarrow> channel" where
  "teardown s =
     (let s1 = failAllPending_swap (str ''channel closed'')
                 (s\<lparr>m_running := False, m_clientfd := -1, m_connectedHost := []\<rparr>)
      in fail_all (length (fail_taken s1)) s1)"

text \<open>The callbacks of one tick, and the timeouts of one tick as a whole.\<close>

fun timer_all :: "nat \<Rightarrow> channel \<Rightarrow> channel" where
  "timer_all 0 s = s"
| "timer_all (Suc n) s = timer_all n (timer_next s)"

definition timer_tick :: "int \<Rightarrow> channel \<Rightarrow> channel" where
  "timer_tick now s = (let s1 = timer_scan now s in timer_all (length (timer_taken s1)) s1)"

lemma timer_all_completes:
  "completions (timer_all (length (timer_taken s)) s) = completions s @
     map (\<lambda>p. \<lparr>c_call = p_call p, c_error = (if p_controller p then Some (str ''rpc timeout'') else None), c_body = None\<rparr>)
       (timer_taken s)"
proof (induction "timer_taken s" arbitrary: s)
  case Nil
  then show ?case by simp
next
  case (Cons p ts)
  have "timer_taken (timer_next s) = ts" using Cons(2) [symmetric] by (simp add: timer_next_def run_failed_def)
  with Cons(1) [of "timer_next s"] show ?case
    using Cons(2) [symmetric] by (simp add: timer_next_def run_failed_def)
qed

text \<open>
  \<open>CallMethod\<close> of this build: with a \<open>done\<close> it returns after \<open>callAsync\<close>, without one it waits
  until the callback of its own call has run. True when the call has returned.
\<close>

definition CallMethod_async :: "bool \<Rightarrow> nat \<Rightarrow> channel \<Rightarrow> bool" where
  "CallMethod_async has_done c s \<longleftrightarrow> has_done \<or> c \<in> set (map c_call (completions s))"

section \<open>Where a call is\<close>

text \<open>Every place that owes the call its callback, and the callbacks that ran.\<close>

definition owners :: "channel \<Rightarrow> nat multiset" where
  "owners s =
     mset (map cl_call (filter (\<lambda>cl. cl_stage cl = Allocated) (callers s))) +
     mset (map (p_call \<circ> snd) (m_pending s)) + mset (map (p_call \<circ> fst) (rx_taken s)) +
     mset (map (p_call \<circ> fst) (fail_taken s)) + mset (map p_call (timer_taken s)) +
     mset (map c_call (completions s))"

definition caller_ok :: "(u64 \<times> pending) list \<Rightarrow> caller \<Rightarrow> bool" where
  "caller_ok pend cl =
     (case cl_stage cl of
        Allocated \<Rightarrow> cl_id cl \<notin> set (map fst pend)
      | Registered \<Rightarrow> (\<forall>p. map_of pend (cl_id cl) = Some p \<longrightarrow> p_call p = cl_call cl))"

definition slots_ok :: "channel \<Rightarrow> bool" where
  "slots_ok s \<longleftrightarrow>
     distinct (map fst (m_pending s)) \<and> distinct (map cl_id (callers s)) \<and>
     (\<forall>i\<in>set (map fst (m_pending s)) \<union> set (map cl_id (callers s)). i < m_nextId s) \<and>
     (\<forall>cl\<in>set (callers s). caller_ok (m_pending s) cl)"

definition channel_ok :: "channel \<Rightarrow> bool" where
  "channel_ok s \<longleftrightarrow> owners s = mset [0..<issued s] \<and> slots_ok s"


section \<open>The table as an association list\<close>

lemma update_fresh: "k \<notin> set (map fst al) \<Longrightarrow> AList.update k v al = al @ [(k, v)]"
  by (induction al) auto

lemma delete_fresh: "k \<notin> set (map fst al) \<Longrightarrow> AList.delete k al = al"
  by (force simp: AList.delete_eq filter_id_conv)

lemma mset_delete:
  "distinct (map fst al) \<Longrightarrow> map_of al k = Some v \<Longrightarrow>
     mset (map (f \<circ> snd) al) = add_mset (f v) (mset (map (f \<circ> snd) (AList.delete k al)))"
proof (induction al)
  case (Cons x al)
  show ?case
  proof (cases "fst x = k")
    case True
    then have "AList.delete k al = al" using Cons.prems(1) by (intro delete_fresh) auto
    then show ?thesis using True Cons.prems by simp
  next
    case False
    then show ?thesis using Cons by auto
  qed
qed simp

lemma mset_partition: "mset (map f (filter P xs)) + mset (map f (filter (\<lambda>x. \<not> P x) xs)) = mset (map f xs)"
  by (induction xs) auto

lemma delete_keys: "set (map fst (AList.delete k al)) = set (map fst al) - {k}"
  by (auto simp: AList.delete_eq)

lemma distinct_delete': "distinct (map fst al) \<Longrightarrow> distinct (map fst (AList.delete k al))"
  by (rule distinct_delete)

section \<open>Every step keeps the invariant\<close>

lemma slots_okD:
  assumes "slots_ok s"
  shows "distinct (map fst (m_pending s))" "distinct (map cl_id (callers s))"
    "i \<in> set (map fst (m_pending s)) \<Longrightarrow> i < m_nextId s"
    "cl \<in> set (callers s) \<Longrightarrow> cl_id cl < m_nextId s"
    "cl \<in> set (callers s) \<Longrightarrow> caller_ok (m_pending s) cl"
  using assms unfolding slots_ok_def by auto

lemma slots_okI:
  assumes "distinct (map fst (m_pending s))" and "distinct (map cl_id (callers s))"
    and "\<And>i. i \<in> set (map fst (m_pending s)) \<Longrightarrow> i < m_nextId s"
    and "\<And>cl. cl \<in> set (callers s) \<Longrightarrow> cl_id cl < m_nextId s"
    and "\<And>cl. cl \<in> set (callers s) \<Longrightarrow> caller_ok (m_pending s) cl"
  shows "slots_ok s"
  unfolding slots_ok_def using assms by (intro conjI ballI) auto

lemma remove1_ids:
  "distinct (map cl_id xs) \<Longrightarrow> cl \<in> set xs \<Longrightarrow>
     set (remove1 cl xs) = set xs - {cl} \<and> distinct (map cl_id (remove1 cl xs))"
  by (simp add: distinct_map set_remove1_eq distinct_remove1 inj_on_diff)

lemma caller_id_inj: "distinct (map cl_id xs) \<Longrightarrow> x \<in> set xs \<Longrightarrow> y \<in> set xs \<Longrightarrow> cl_id x = cl_id y \<Longrightarrow> x = y"
  by (auto simp: distinct_map dest: inj_onD)

lemma filter_remove1: "filter P (remove1 x xs) = (if P x then remove1 x (filter P xs) else filter P xs)"
  by (induction xs) auto

lemma mset_map_remove1: "x \<in> set xs \<Longrightarrow> mset (map f xs) = add_mset (f x) (mset (map f (remove1 x xs)))"
  by (induction xs) auto

lemma allocated_remove:
  "cl \<in> set xs \<Longrightarrow> cl_stage cl = Allocated \<Longrightarrow>
     mset (map cl_call (filter (\<lambda>cl. cl_stage cl = Allocated) xs)) =
       add_mset (cl_call cl) (mset (map cl_call (filter (\<lambda>cl. cl_stage cl = Allocated) (remove1 cl xs))))"
proof -
  assume cl: "cl \<in> set xs" "cl_stage cl = Allocated"
  let ?xs = "filter (\<lambda>cl. cl_stage cl = Allocated) xs"
  have "mset (map cl_call ?xs) = add_mset (cl_call cl) (mset (map cl_call (remove1 cl ?xs)))"
    using cl by (intro mset_map_remove1) simp
  moreover have "filter (\<lambda>cl. cl_stage cl = Allocated) (remove1 cl xs) = remove1 cl ?xs"
    using cl(2) by (simp add: filter_remove1)
  ultimately show ?thesis by simp
qed

text \<open>Operations that only move or run callbacks.\<close>

lemma same_slots:
  "slots_ok s \<Longrightarrow> m_pending t = m_pending s \<Longrightarrow> callers t = callers s \<Longrightarrow> m_nextId t = m_nextId s \<Longrightarrow> slots_ok t"
  by (simp add: slots_ok_def)

lemma slots_subset:
  assumes ok: "slots_ok s" and n: "m_nextId t = m_nextId s"
    and c: "set (callers t) \<subseteq> set (callers s)" "distinct (map cl_id (callers t))"
    and p: "distinct (map fst (m_pending t))"
      "\<And>i v. map_of (m_pending t) i = Some v \<Longrightarrow> map_of (m_pending s) i = Some v"
  shows "slots_ok t"
proof -
  have keys: "set (map fst (m_pending t)) \<subseteq> set (map fst (m_pending s))"
  proof
    fix i assume "i \<in> set (map fst (m_pending t))"
    then obtain v where "map_of (m_pending t) i = Some v"
      by (metis map_of_eq_None_iff not_None_eq image_set)
    then show "i \<in> set (map fst (m_pending s))"
      using p(2) by (metis map_of_eq_None_iff option.distinct(1) image_set)
  qed
  show ?thesis
  proof (rule slots_okI)
    show "distinct (map fst (m_pending t))" "distinct (map cl_id (callers t))" using p(1) c(2) .
    show "i < m_nextId t" if "i \<in> set (map fst (m_pending t))" for i
      unfolding n using slots_okD(3) [OF ok] keys that by blast
    fix cl assume "cl \<in> set (callers t)"
    then have cl: "cl \<in> set (callers s)" using c(1) by blast
    show "cl_id cl < m_nextId t" unfolding n using slots_okD(4) [OF ok cl] .
    show "caller_ok (m_pending t) cl"
      using slots_okD(5) [OF ok cl] keys p(2) unfolding caller_ok_def
      by (cases "cl_stage cl") (simp_all only: stage.case, blast+)
  qed
qed

lemma map_of_delete: "map_of (AList.delete k al) i = (if i = k then None else map_of al i)"
  by (simp add: AList.delete_conv')

lemma begin_ok:
  assumes ok: "channel_ok s" and room: "m_nextId (callAsync_begin ser ctl s) \<noteq> 0"
  shows "channel_ok (callAsync_begin ser ctl s)"
proof (cases ser)
  case False
  then have t: "callAsync_begin ser ctl s =
      run_failed (issued s) ctl (str ''serialize request error!'') (s\<lparr>issued := Suc (issued s)\<rparr>)"
    by (simp add: callAsync_begin_def Let_def)
  have "slots_ok (callAsync_begin ser ctl s)"
    unfolding t by (rule same_slots [of s]) (use ok in \<open>simp_all add: channel_ok_def run_failed_def\<close>)
  moreover have "owners (callAsync_begin ser ctl s) = add_mset (issued s) (owners s)"
    unfolding t by (simp add: owners_def run_failed_def)
  moreover have "issued (callAsync_begin ser ctl s) = Suc (issued s)" unfolding t by (simp add: run_failed_def)
  ultimately show ?thesis using ok by (simp add: channel_ok_def)
next
  case True
  let ?n = "m_nextId s"
  have "?n + 1 \<noteq> 0" using room True by (simp add: callAsync_begin_def Let_def)
  then have "unat (?n + 1) = Suc (unat ?n)" using unatSuc [of ?n] by (simp add: add.commute)
  then have less: "?n < ?n + 1" "\<And>i. i < ?n \<Longrightarrow> i < ?n + 1" by (simp_all add: word_less_nat_alt)
  have sl: "slots_ok s" using ok by (simp add: channel_ok_def)
  have fresh: "?n \<notin> set (map fst (m_pending s))" "?n \<notin> set (map cl_id (callers s))"
    using slots_okD(3) [OF sl] slots_okD(4) [OF sl] by (blast, force)
  let ?t = "callAsync_begin ser ctl s"
  let ?cl = "\<lparr>cl_call = issued s, cl_id = ?n, cl_stage = Allocated, cl_controller = ctl\<rparr>"
  have t: "m_pending ?t = m_pending s" "callers ?t = callers s @ [?cl]" "m_nextId ?t = ?n + 1"
    using True by (simp_all add: callAsync_begin_def Let_def)
  have "owners ?t = add_mset (issued s) (owners s)"
    using True by (simp add: callAsync_begin_def owners_def Let_def)
  moreover have "slots_ok ?t"
  proof (rule slots_okI, unfold t)
    show "distinct (map fst (m_pending s))" using slots_okD(1) [OF sl] .
    show "distinct (map cl_id (callers s @ [?cl]))" using slots_okD(2) [OF sl] fresh(2) by simp
    show "i < ?n + 1" if "i \<in> set (map fst (m_pending s))" for i using less(2) slots_okD(3) [OF sl that] .
    fix cl assume "cl \<in> set (callers s @ [?cl])"
    then have cl: "cl \<in> set (callers s) \<or> cl = ?cl" by auto
    then show "cl_id cl < ?n + 1" using less slots_okD(4) [OF sl] by auto
    have "caller_ok (m_pending s) ?cl" using fresh(1) by (simp add: caller_ok_def)
    then show "caller_ok (m_pending s) cl" using cl slots_okD(5) [OF sl] by auto
  qed
  moreover have "issued (callAsync_begin ser ctl s) = Suc (issued s)"
    using True by (simp add: callAsync_begin_def Let_def)
  ultimately show ?thesis using ok by (simp add: channel_ok_def)
qed

lemma abort_ok:
  assumes ok: "channel_ok s" and cl: "cl \<in> set (callers s)" "cl_stage cl = Allocated"
  shows "channel_ok (callAsync_abort cl reason s)"
proof -
  have d: "distinct (map cl_id (callers s))" "distinct (map fst (m_pending s))"
    using ok by (auto simp: channel_ok_def slots_ok_def)
  have "owners (callAsync_abort cl reason s) = owners s"
    using allocated_remove [OF cl] by (simp add: owners_def callAsync_abort_def run_failed_def)
  moreover have "slots_ok (callAsync_abort cl reason s)"
    by (rule slots_subset [of s])
      (use ok d remove1_ids [OF d(1) cl(1)] in \<open>simp_all add: channel_ok_def callAsync_abort_def run_failed_def\<close>)
  ultimately show ?thesis using ok by (simp add: channel_ok_def callAsync_abort_def run_failed_def)
qed

lemma register_ok:
  assumes ok: "channel_ok s" and cl: "cl \<in> set (callers s)" "cl_stage cl = Allocated"
  shows "channel_ok (callAsync_register cl now s)"
proof -
  let ?t = "callAsync_register cl now s"
  let ?p = "\<lparr>p_call = cl_call cl, p_controller = cl_controller cl, p_deadline = deadline_of (m_timeoutMs s) now\<rparr>"
  let ?r = "\<lambda>x. if x = cl then cl\<lparr>cl_stage := Registered\<rparr> else x"
  have sl: "slots_ok s" using ok by (simp add: channel_ok_def)
  have d: "distinct (map cl_id (callers s))" using sl by (simp add: slots_ok_def)
  have fresh: "cl_id cl \<notin> set (map fst (m_pending s))"
    using slots_okD(5) [OF sl cl(1)] cl(2) by (simp add: caller_ok_def)
  have pend: "m_pending ?t = m_pending s @ [(cl_id cl, ?p)]"
    unfolding callAsync_register_def using update_fresh [OF fresh] by simp
  have ids: "map cl_id (map ?r (callers s)) = map cl_id (callers s)" by (induction "callers s") auto
  have dist: "distinct (callers s)" using d by (simp add: distinct_map)
  have "mset (map cl_call (filter (\<lambda>cl. cl_stage cl = Allocated) (map ?r xs))) + {#cl_call cl#} =
      mset (map cl_call (filter (\<lambda>cl. cl_stage cl = Allocated) xs))"
    if "distinct xs" "cl \<in> set xs" for xs
    using that
  proof (induction xs)
    case (Cons x xs)
    have "cl \<notin> set xs \<Longrightarrow> map ?r xs = xs" by (intro map_idI) auto
    then show ?case using Cons cl(2) by (cases "x = cl") auto
  qed simp
  from this [OF dist cl(1)] have "owners ?t = owners s"
    by (simp add: owners_def pend) (simp add: callAsync_register_def)
  moreover have "slots_ok ?t"
  proof (rule slots_okI)
    have cids: "map cl_id (callers ?t) = map cl_id (callers s)" using ids by (simp add: callAsync_register_def)
    have nxt: "m_nextId ?t = m_nextId s" by (simp add: callAsync_register_def)
    show "distinct (map fst (m_pending ?t))" using slots_okD(1) [OF sl] fresh by (simp add: pend)
    show "distinct (map cl_id (callers ?t))" using d cids by simp
    show "i < m_nextId ?t" if "i \<in> set (map fst (m_pending ?t))" for i
      using that slots_okD(3) [OF sl] slots_okD(4) [OF sl cl(1)] by (auto simp: pend nxt)
    fix x assume "x \<in> set (callers ?t)"
    then obtain y where y: "y \<in> set (callers s)" "x = ?r y" by (auto simp: callAsync_register_def)
    show "cl_id x < m_nextId ?t" using y cl(1) slots_okD(4) [OF sl] by (simp add: nxt)
    show "caller_ok (m_pending ?t) x"
    proof (cases "y = cl")
      case True
      have "map_of (m_pending s) (cl_id cl) = None" using fresh by (simp add: map_of_eq_None_iff)
      then show ?thesis using y True by (simp add: caller_ok_def pend map_add_def)
    next
      case False
      then have ne: "cl_id y \<noteq> cl_id cl" using caller_id_inj [OF d y(1) cl(1)] by blast
      show ?thesis using slots_okD(5) [OF sl y(1)] y(2) False ne
        by (cases "cl_stage y") (auto simp: pend map_add_def caller_ok_def split: option.splits)
    qed
  qed
  ultimately show ?thesis using ok by (simp add: channel_ok_def callAsync_register_def)
qed

lemma sent_ok:
  assumes ok: "channel_ok s" and cl: "cl \<in> set (callers s)" "cl_stage cl = Registered"
  shows "channel_ok (callAsync_sent cl sent error s)"
proof -
  have sl: "slots_ok s" and d: "distinct (map cl_id (callers s))" "distinct (map fst (m_pending s))"
    using ok by (auto simp: channel_ok_def slots_ok_def)
  let ?s1 = "s\<lparr>callers := remove1 cl (callers s)\<rparr>"
  have f: "filter (\<lambda>cl. cl_stage cl = Allocated) (remove1 cl (callers s)) =
      filter (\<lambda>cl. cl_stage cl = Allocated) (callers s)"
    using cl(2) by (simp add: filter_remove1)
  have 1: "channel_ok ?s1"
    using ok slots_subset [OF sl, of ?s1] remove1_ids [OF d(1) cl(1)] d
    by (simp add: channel_ok_def owners_def f)
  show ?thesis
  proof (cases "sent \<or> map_of (m_pending s) (cl_id cl) = None")
    case True
    then show ?thesis using 1 by (auto simp: callAsync_sent_def Let_def)
  next
    case False
    then obtain p where p: "map_of (m_pending s) (cl_id cl) = Some p" by auto
    then have pc: "p_call p = cl_call cl" using slots_okD(5) [OF sl cl(1)] cl(2) by (simp add: caller_ok_def)
    have t: "callAsync_sent cl sent error s = run_failed (cl_call cl) (cl_controller cl) error
        (?s1\<lparr>m_pending := AList.delete (cl_id cl) (m_pending s)\<rparr>)" (is "_ = ?t")
      using False p by (simp add: callAsync_sent_def Let_def)
    have "owners ?t = owners s"
      using mset_delete [OF d(2) p, of p_call] pc by (simp add: owners_def run_failed_def f)
    moreover have "slots_ok ?t"
      by (rule slots_subset [OF sl])
        (use remove1_ids [OF d(1) cl(1)] distinct_delete' [OF d(2)] in
          \<open>auto simp: run_failed_def map_of_delete split: if_splits\<close>)
    ultimately show ?thesis using ok t by (simp add: channel_ok_def run_failed_def)
  qed
qed

lemma dispatch_channel_ok:
  assumes ok: "channel_ok s"
  shows "channel_ok (recv_dispatch i body s)"
proof (cases "map_of (m_pending s) i")
  case None
  then show ?thesis using ok by (simp add: recv_dispatch_def)
next
  case (Some p)
  have sl: "slots_ok s" and d: "distinct (map fst (m_pending s))" "distinct (map cl_id (callers s))"
    using ok by (auto simp: channel_ok_def slots_ok_def)
  have "owners (recv_dispatch i body s) = owners s"
    using mset_delete [OF d(1) Some, of p_call] Some by (simp add: owners_def recv_dispatch_def)
  moreover have "slots_ok (recv_dispatch i body s)"
    by (rule slots_subset [OF sl])
      (use Some d distinct_delete' [OF d(1)] in \<open>auto simp: recv_dispatch_def map_of_delete split: if_splits\<close>)
  ultimately show ?thesis using ok Some by (simp add: channel_ok_def recv_dispatch_def)
qed

lemma channel_same:
  "channel_ok s \<Longrightarrow> owners t = owners s \<Longrightarrow> issued t = issued s \<Longrightarrow> m_pending t = m_pending s \<Longrightarrow>
     callers t = callers s \<Longrightarrow> m_nextId t = m_nextId s \<Longrightarrow> channel_ok t"
  by (simp add: channel_ok_def slots_ok_def)

lemma complete_channel_ok: "channel_ok s \<Longrightarrow> channel_ok (recv_complete parses s)"
  by (cases "rx_taken s") (auto simp: recv_complete_def owners_def intro: channel_same)

lemma fail_next_ok: "channel_ok s \<Longrightarrow> channel_ok (failAllPending_next s)"
  by (cases "fail_taken s")
    (auto simp: failAllPending_next_def run_failed_def owners_def intro: channel_same)

lemma timer_next_ok: "channel_ok s \<Longrightarrow> channel_ok (timer_next s)"
  by (cases "timer_taken s") (auto simp: timer_next_def run_failed_def owners_def intro: channel_same)

lemma fail_swap_ok:
  assumes ok: "channel_ok s"
  shows "channel_ok (failAllPending_swap reason s)"
proof -
  have m: "map (p_call \<circ> fst) (map (\<lambda>(i, p). (p, reason)) xs) = map (p_call \<circ> snd) xs"
    for xs :: "(u64 \<times> pending) list"
    by (induction xs) auto
  have "owners (failAllPending_swap reason s) = owners s"
    by (simp add: owners_def failAllPending_swap_def m del: map_map mset_map)
  moreover have "slots_ok (failAllPending_swap reason s)"
    by (rule slots_subset [of s])
      (use ok slots_okD(2) [of s] in \<open>simp_all add: channel_ok_def failAllPending_swap_def\<close>)
  ultimately show ?thesis using ok by (simp add: channel_ok_def failAllPending_swap_def)
qed

lemma scan_ok:
  assumes ok: "channel_ok s"
  shows "channel_ok (timer_scan now s)"
proof -
  have sl: "slots_ok s" and d: "distinct (map fst (m_pending s))" "distinct (map cl_id (callers s))"
    using ok by (auto simp: channel_ok_def slots_ok_def)
  have "owners (timer_scan now s) = owners s"
    using mset_partition [of "p_call \<circ> snd" "is_expired now" "m_pending s", symmetric]
    by (simp add: owners_def timer_scan_def ac_simps del: mset_map mset_filter)
  moreover have "slots_ok (timer_scan now s)"
  proof (rule slots_subset [OF sl])
    show "distinct (map fst (m_pending (timer_scan now s)))"
      using d(1) by (simp add: timer_scan_def distinct_map_filter)
    fix i v assume "map_of (m_pending (timer_scan now s)) i = Some v"
    then show "map_of (m_pending s) i = Some v"
      using d(1) by (auto simp: timer_scan_def dest!: map_of_SomeD)
  qed (use d in \<open>simp_all add: timer_scan_def\<close>)
  ultimately show ?thesis using ok by (simp add: channel_ok_def timer_scan_def)
qed

definition fresh_channel_step :: "(bytes \<Rightarrow> bool) \<Rightarrow> channel \<Rightarrow> channel \<Rightarrow> bool" where
  "fresh_channel_step parses s t \<longleftrightarrow> channel_step parses s t \<and> m_nextId t \<noteq> 0"

lemma channel_step_ok:
  assumes step: "channel_step parses s t" and ok: "channel_ok s" and room: "m_nextId t \<noteq> 0"
  shows "channel_ok t"
  using step
proof cases
  case (call ser ctl)
  then show ?thesis using begin_ok [OF ok] room by simp
next
  case (connect host_data fd okc)
  then show ?thesis
    by (auto simp: ensureConnected_open_def Let_def intro!: channel_same [OF ok] split: host.splits if_splits)
      (simp_all add: owners_def)
next
  case rx_exit
  have "channel_ok (s\<lparr>m_running := False, rx := RxStopping\<rparr>)"
    by (rule channel_same [OF ok]) (simp_all add: owners_def)
  then show ?thesis unfolding rx_exit recvLoop_exit_def by (rule fail_swap_ok)
next
  case disconnect
  show ?thesis unfolding disconnect ensureConnected_close_def
    by (rule channel_same [OF ok]) (simp_all add: owners_def)
next
  case rx_end
  show ?thesis unfolding rx_end by (rule channel_same [OF ok]) (simp_all add: owners_def)
next
  case (set_timeout ms)
  show ?thesis unfolding set_timeout SetTimeoutMs_def
    by (rule channel_same [OF ok]) (simp_all add: owners_def)
next
  case (abort cl reason)
  then show ?thesis using abort_ok [OF ok] by simp
next
  case (register cl now)
  then show ?thesis using register_ok [OF ok] by simp
next
  case (sent cl okc error)
  then show ?thesis using sent_ok [OF ok] by simp
next
  case (frame i body)
  then show ?thesis using dispatch_channel_ok [OF ok] by simp
next
  case response
  then show ?thesis using complete_channel_ok [OF ok] by simp
next
  case fail_next
  then show ?thesis using fail_next_ok [OF ok] by simp
next
  case (tick now)
  then show ?thesis using scan_ok [OF ok] by simp
next
  case timeout
  then show ?thesis using timer_next_ok [OF ok] by simp
qed

definition channel_start :: "channel \<Rightarrow> bool" where
  "channel_start s \<longleftrightarrow> s = KimRpcChannel"

interpretation chan: inductive_invariant channel_start "fresh_channel_step parses" channel_ok for parses
proof (unfold_locales, goal_cases)
  case (1 s)
  then show ?case
    by (simp add: channel_start_def KimRpcChannel_def channel_ok_def owners_def slots_ok_def)
next
  case (2 s t)
  then show ?case using channel_step_ok [of parses s t] by (simp add: fresh_channel_step_def)
qed

end
