(* ===== verification/CallPaths.thy ===== *)
theory CallPaths
  imports Channel
begin

text \<open>
  One call, from the stub's arguments to the parsed response: the blocking build of
  \<open>KimRpcChannel::CallMethod\<close> (channel.cc) and \<open>KimRpcUringChannel::CallMethod\<close>
  (uringchannel.cc). What etcd, the sockets and protobuf answer are arguments.
\<close>

datatype call_error =
    SerializeRequest
  | SerializeHeader
  | AddressError addr_error
  | AddressInvalid
  | PortThrows
  | ConnectError "io_error option"
  | SendError "io_error option"
  | ReceiveError "io_error option"
  | ClosedBeforeResponse
  | ParseResponse

text \<open>The request bytes; \<open>args\<close> is what \<open>SerializeToString\<close> of the request gives.\<close>

definition build_request :: "protobuf \<Rightarrow> bytes \<Rightarrow> bytes \<Rightarrow> u64 \<Rightarrow> bytes option \<Rightarrow> (call_error, bytes) sum" where
  "build_request pb svc mth rid args =
     (case args of
        None \<Rightarrow> Inl SerializeRequest
      | Some args_str \<Rightarrow>
          (case make_request pb svc mth rid args_str of
             None \<Rightarrow> Inl SerializeHeader
           | Some frame \<Rightarrow> Inr frame))"

definition method_path :: "bytes \<Rightarrow> bytes \<Rightarrow> bytes" where
  "method_path svc mth = str ''/'' @ svc @ str ''/'' @ mth"

text \<open>What \<open>fut.get()\<close> gives (\<open>None\<close> for \<open>false\<close>), and the response message in the body.\<close>

definition blocking_result :: "(bytes \<Rightarrow> bool) \<Rightarrow> bytes option \<Rightarrow> (call_error, bytes) sum" where
  "blocking_result parses slot =
     (case slot of
        None \<Rightarrow> Inl ClosedBeforeResponse
      | Some body \<Rightarrow> if \<not> parses body then Inl ParseResponse else Inr body)"

text \<open>
  The blocking call after \<open>request_id\<close> was drawn: \<open>connect_ok\<close> is the result of
  \<open>ensureConnected\<close>, \<open>slot\<close> what the future gives (\<open>None\<close> for \<open>false\<close>). The result is
  the error given to the controller or the body that was parsed.
\<close>

definition CallMethod_blocking ::
  "protobuf \<Rightarrow> (bytes \<Rightarrow> bool) \<Rightarrow> bytes \<Rightarrow> bytes \<Rightarrow> u64 \<Rightarrow> bytes option \<Rightarrow> (addr_error, bytes) sum \<Rightarrow>
     bool \<Rightarrow> bytes option \<Rightarrow> sock \<Rightarrow> (call_error, bytes) sum \<times> sock" where
  "CallMethod_blocking pb parses svc mth rid args addr connect_ok slot s =
     (case build_request pb svc mth rid args of
        Inl e \<Rightarrow> (Inl e, s)
      | Inr frame \<Rightarrow>
          (case addr of
             Inl e \<Rightarrow> (Inl (AddressError e), s)
           | Inr host_data \<Rightarrow>
               if \<not> connect_ok then (Inl (ConnectError None), s)
               else let (ok, s1) = sendLocked frame s in
               if \<not> ok then (Inl (SendError None), s1)
               else (blocking_result parses slot, s1)))"

text \<open>
  The io_uring call. It leaves \<open>request_id\<close> at its default, and takes everything after the
  size field as the response message.
\<close>

definition CallMethod_uring ::
  "protobuf \<Rightarrow> (bytes \<Rightarrow> bool) \<Rightarrow> bytes \<Rightarrow> bytes \<Rightarrow> bytes option \<Rightarrow> (addr_error, bytes) sum \<Rightarrow>
     int \<Rightarrow> bool \<Rightarrow> int \<Rightarrow> uring_client \<Rightarrow> (call_error, bytes) sum \<times> uring_client" where
  "CallMethod_uring pb parses svc mth args addr newfd ip_ok res client =
     (case build_request pb svc mth 0 args of
        Inl e \<Rightarrow> (Inl e, client)
      | Inr frame \<Rightarrow>
          (case addr of
             Inl e \<Rightarrow> (Inl (AddressError e), client)
           | Inr host_data \<Rightarrow>
               (case parse_host host_data of
                  BadAddress \<Rightarrow> (Inl AddressInvalid, client)
                | BadPort \<Rightarrow> (Inl PortThrows, client)
                | Host ip port \<Rightarrow>
                    let (ok, c1) = Connect newfd ip_ok res client in
                    if \<not> ok then (Inl (ConnectError (u_error c1)), c1)
                    else let (ok, c2) = WriteAll frame c1 in
                    if \<not> ok then (Inl (SendError (u_error c2)), c2)
                    else let (ok, b, c3) = ReadExact 4 c2 in
                    if \<not> ok then (Inl (ReceiveError (u_error c3)), c3)
                    else let response_size = unat (rd32 b) in
                    let (ok, response_str, c4) =
                      (if 0 < response_size then ReadExact response_size c3 else (True, [], c3)) in
                    if \<not> ok then (Inl (ReceiveError (u_error c4)), c4)
                    else if \<not> parses response_str then (Inl ParseResponse, c4)
                    else (Inr response_str, c4))))"

section \<open>What the io_uring call hands to the parser\<close>

lemma ReadExact_ok:
  assumes "ReadExact n c = (True, b, c')"
  shows "b = take n (incoming (u_sock c))" "incoming (u_sock c') = drop n (incoming (u_sock c))"
  using assms uring_reader.recv_loop_ok [of n c b c']
  by (auto simp: ReadExact_def split: if_splits)

lemma next_io_in: "next_io c = (x, c') \<Longrightarrow> incoming (u_sock c') = incoming (u_sock c)"
  using next_io_same [of c x c'] by simp

lemma WriteAll_incoming: "WriteAll d c = (ok, c') \<Longrightarrow> incoming (u_sock c') = incoming (u_sock c)"
proof -
  have one: "uring_send d c = (r, c1) \<Longrightarrow> incoming (u_sock c1) = incoming (u_sock c)" for d c r c1
    by (auto simp: uring_send_def sys_send_def waitUringResult_def u_fail_def Let_def
        dest!: next_io_same next_result_same split: prod.splits if_splits)
  have loop: "send_loop uring_send d c = (ok, c') \<Longrightarrow> incoming (u_sock c') = incoming (u_sock c)" for d c
  proof (induction d arbitrary: c rule: length_induct)
    case (1 d)
    show ?case
    proof (cases "d = []")
      case True
      then show ?thesis using 1(2) by (simp add: send_loop.simps)
    next
      case False
      obtain r c1 where x: "uring_send d c = (r, c1)" by fastforce
      show ?thesis
      proof (cases "r \<le> 0")
        case True
        then show ?thesis using 1(2) x False one [OF x] by (simp add: send_loop.simps [of _ d])
      next
        case pos: False
        then have "send_loop uring_send (drop (nat r) d) c1 = (ok, c')" "length (drop (nat r) d) < length d"
          using 1(2) x False by (simp_all add: send_loop.simps [of _ d])
        then show ?thesis using 1(1) one [OF x] by fastforce
      qed
    qed
  qed
  show "WriteAll d c = (ok, c') \<Longrightarrow> ?thesis"
    by (auto simp: WriteAll_def u_fail_def split: if_splits dest: loop)
qed

lemma Connect_incoming: "Connect newfd ip_ok res c = (ok, c') \<Longrightarrow> incoming (u_sock c') = incoming (u_sock c)"
  by (auto simp: Connect_def u_Close_def u_fail_def Let_def dest!: next_io_same
      split: if_splits prod.splits sum.splits)

lemma CallMethod_uring_message:
  assumes call: "CallMethod_uring pb parses svc mth args addr newfd ip_ok res client = (Inr msg, client')"
    and server: "incoming (u_sock client) = response_frame rid body" and fits: "body_fits body"
  shows "msg = le64 rid @ body"
proof -
  obtain frame where frame: "build_request pb svc mth 0 args = Inr frame"
    using call by (auto simp: CallMethod_uring_def split: sum.splits)
  obtain host_data where host: "addr = Inr host_data" using call frame
    by (auto simp: CallMethod_uring_def split: sum.splits)
  obtain ip port where ph: "parse_host host_data = Host ip port" using call frame host
    by (auto simp: CallMethod_uring_def split: host.splits)
  obtain ok1 c1 where 1: "Connect newfd ip_ok res client = (ok1, c1)" by fastforce
  obtain ok2 c2 where 2: "WriteAll frame c1 = (ok2, c2)" by fastforce
  obtain ok3 b c3 where 3: "ReadExact 4 c2 = (ok3, b, c3)" by (cases "ReadExact 4 c2") auto
  obtain ok4 m c4 where 4: "(if 0 < unat (rd32 b) then ReadExact (unat (rd32 b)) c3 else (True, [], c3)) = (ok4, m, c4)"
    by (cases "if 0 < unat (rd32 b) then ReadExact (unat (rd32 b)) c3 else (True, [], c3)") auto
  have ok: ok1 ok2 ok3 ok4 "msg = m"
    using call frame host ph 1 2 3 4
    by (auto simp: CallMethod_uring_def Let_def split: if_splits)
  have in2: "incoming (u_sock c2) = response_frame rid body"
    using Connect_incoming [OF 1] WriteAll_incoming [OF 2] server by simp
  have r: "b = take 4 (response_frame rid body)" "incoming (u_sock c3) = drop 4 (response_frame rid body)"
    using ReadExact_ok [of 4 c2 b c3] 3 ok(3) in2 by simp_all
  have size: "unat (rd32 b) = 8 + length body"
    using r(1) unat_frame_size [OF fits] rd32_le32 [of "8 + of_nat (length body)" "[]"]
    by (simp add: response_frame_def)
  have "m = take (8 + length body) (drop 4 (response_frame rid body))"
    using 4 ok(4) size ReadExact_ok(1) [of "8 + length body" c3 m c4] r(2) by simp
  then show ?thesis using ok(5) by (simp add: response_frame_def)
qed

section \<open>A server's address comes back\<close>

lemma colon_digit: "\<forall>c\<in>set (dec_digits n). c \<noteq> of_char CHR '':''"
  using dec_digits_digit [of n] by (auto simp: is_digit_def word_le_nat_alt)

lemma parse_host_instance:
  assumes "of_char CHR '':'' \<notin> set ip" and "length ip \<le> 57"
  shows "parse_host (instance_addr ip port) = Host ip port"
proof -
  let ?c = "of_char CHR '':'' :: byte"
  let ?p = "to_string (uint port)"
  have p: "?p = dec_digits (nat (uint port))" by (simp add: to_string_def)
  have small: "uint port < 65536" using uint_bounded [of port] by simp
  have len: "length (dec_digits n) \<le> 5" if "n < 100000" for n
  proof -
    have d1: "n < 10 \<Longrightarrow> length (dec_digits n) = 1" for n by (simp add: dec_digits.simps)
    have step: "\<not> n < 10 \<Longrightarrow> length (dec_digits n) = Suc (length (dec_digits (n div 10)))" for n
      by (subst dec_digits.simps) simp
    have d2: "n < 100 \<Longrightarrow> length (dec_digits n) \<le> 2" for n
      using d1 [of n] d1 [of "n div 10"] step [of n] by (cases "n < 10") auto
    have d3: "n < 1000 \<Longrightarrow> length (dec_digits n) \<le> 3" for n
      using d1 [of n] d2 [of "n div 10"] step [of n] by (cases "n < 10") auto
    have d4: "n < 10000 \<Longrightarrow> length (dec_digits n) \<le> 4" for n
      using d1 [of n] d3 [of "n div 10"] step [of n] by (cases "n < 10") auto
    show ?thesis using that d1 [of n] d4 [of "n div 10"] step [of n] by (cases "n < 10") auto
  qed
  have "length ?p \<le> 5" unfolding p by (rule len) (use small in linarith)
  then have addr: "instance_addr ip port = ip @ ?c # ?p" using assms(2) by (simp add: instance_addr_def)
  have ne: "\<forall>x\<in>set ip. x \<noteq> ?c" using assms(1) by auto
  have tw: "takeWhile (\<lambda>c. c \<noteq> ?c) (ip @ ?c # ?p) = ip" "dropWhile (\<lambda>c. c \<noteq> ?c) (ip @ ?c # ?p) = ?c # ?p"
    using ne takeWhile_append2 [of ip "\<lambda>c. c \<noteq> ?c" "?c # ?p"] dropWhile_append2 [of ip "\<lambda>c. c \<noteq> ?c" "?c # ?p"]
    by auto
  have low: "0 \<le> uint port" by simp
  have "stoll ?p = Some (uint port)" 
    by (rule stoll_to_string, rule order_trans [OF _ low], simp, rule less_trans [OF small], simp)
  moreover have "\<not> uint port < - 2147483648" using low by linarith
  ultimately show ?thesis
    unfolding addr parse_host_def Let_def tw using small by simp
qed

end
