(* ===== verification/WireProps.thy ===== *)
theory WireProps
  imports DemoServer MuduoProvider CallPaths
begin

text \<open>
  The properties of the wire protocol and of both ends that speak it: the user data of io_uring
  entries, request and response frames, the table of services, the muduo server, and the loops
  that move exact numbers of bytes.
\<close>

text \<open>The user data of an operation gives back its context pointer (48 bits) and its kind, and
  is never taken for a coroutine's; that of a coroutine gives back the request pointer.\<close>

theorem user_data_roundtrip:
  assumes "ctx < 2 ^ 48" and "req < 2 ^ 63"
  shows "unpackCtx (packUserData ctx op) = ctx \<and> unpackOp (packUserData ctx op) = Some op \<and>
    \<not> isCoroUserData (packUserData ctx op) \<and>
    isCoroUserData (makeCoroUserData req) \<and> coroRequestFromUserData (makeCoroUserData req) = req"
proof -
  have "ctx mod 2 ^ 48 = ctx" using assms(1) by (rule mod_word_less)
  then have "take_bit 48 ctx = ctx" by (simp only: take_bit_eq_mod)
  then show ?thesis
    using unpackCtx_pack [of ctx op] unpackOp_pack [of ctx op] pack_not_coro [of ctx op] coro_user_data [OF assms(2)]
    by simp
qed

lemma user_data_roundtrip_witness: "unpackCtx (packUserData 0x7f0000001000 SEND) = 0x7f0000001000"
  using user_data_roundtrip [of "0x7f0000001000" 1 SEND] by simp

text \<open>C21. A request a client writes is read by the io_uring server as that request: method, id and
  arguments, whatever bytes follow it, provided protobuf parses back the header it serialised and
  the sizes are within the server's limits.\<close>

theorem server_reads_client_request:
  assumes "make_request pb svc mth rid args = Some frame"
    and "serialize_header pb \<lparr>service_name = svc, method_name = mth, args_size = of_nat (length args), request_id = rid\<rparr> = Some hs"
    and "parse_header pb hs = Some \<lparr>service_name = svc, method_name = mth, args_size = of_nat (length args), request_id = rid\<rparr>"
    and "length hs \<le> unat kMaxHeaderSize" and "length args \<le> unat kMaxBodySize"
    and "map_of sm svc = Some info" and "map_of (m_methodMap info) mth = Some md" and "parse_request pb md args = Some msg"
  shows "uring_take pb sm (frame @ rest) =
    Some (Request \<lparr>rq_service = m_service info, rq_method = md, rq_id = rid, rq_msg = msg\<rparr>, rest)"
proof -
  let ?h = "\<lparr>service_name = svc, method_name = mth, args_size = of_nat (length args), request_id = rid\<rparr> :: rpc_header"
  have frame: "frame = request_frame hs args" using assms(1,2) by (simp add: make_request_def)
  have res: "resolve_request pb sm ?h args =
      Request \<lparr>rq_service = m_service info, rq_method = md, rq_id = rid, rq_msg = msg\<rparr>"
    using assms(6-8) by (simp add: resolve_request_def)
  have n: "unat (of_nat (length args) :: u32) = length args"
    using assms(5) by (simp add: kMaxBodySize_def unat_of_nat)
  have "uring_ok pb sm (?h, hs, args)"
    using assms(3-5) res n by (simp add: uring_ok_def word_le_nat_alt)
  from uring_take_frame [OF this, of rest] show ?thesis by (simp add: frame res)
qed

lemma server_reads_client_request_witness:
  "uring_take demo_pb demo_services (demo_bytes @ [9]) = Some (Request demo_request, [9])"
proof -
  have m: "make_request demo_pb [0x53] [0x6d] 5 [0x78, 0x79] = Some demo_bytes"
    by (simp add: make_request_def demo_pb_def demo_header_def demo_bytes_def)
  show ?thesis
    using server_reads_client_request [OF m, of "[8]" demo_services
        "\<lparr>m_service = demo_service, m_methodMap = [([0x6d], demo_method)]\<rparr>" demo_method "[0x78, 0x79]" "[9]"]
    by (simp add: demo_pb_def demo_header_def kMaxHeaderSize_def kMaxBodySize_def demo_services_eq demo_request_def)
qed

text \<open>C22. The client's receive loop dispatches exactly the responses the servers framed, in order,
  whatever pieces \<open>recv\<close> returns, as long as it returns data while there is some.\<close>

theorem client_reads_server_responses:
  assumes "ready s" and "incoming s = concat (map (\<lambda>(rid, body). response_frame rid body) rs)"
    and "\<forall>(rid, body)\<in>set rs. body_fits body"
  shows "fst (recvLoop s) = rs"
  using assms by (rule recvLoop_reads)

lemma client_reads_server_responses_witness:
  "fst (recvLoop \<lparr>incoming = response_frame 7 [1, 2] @ response_frame 8 [], outgoing = [],
     results = replicate 26 3\<rparr>) = [(7, [1, 2]), (8, [])]"
proof (rule client_reads_server_responses)
  show "ready \<lparr>incoming = response_frame 7 [1, 2] @ response_frame 8 [], outgoing = [], results = replicate 26 3\<rparr>"
    by (simp add: ready_def plenty_def)
qed (simp_all add: body_fits_def)

text \<open>C36. The muduo server reads the same frames: over any sequence of deliveries whose bytes are
  the frames of requests, it makes the calls of those whose service, method and arguments it
  knows, in order, and skips the others.\<close>

theorem muduo_requests_independent_of_chunks:
  assumes "\<forall>m\<in>set ms. muduo_ok pb m"
    and "concat datas = concat (map (\<lambda>(h, hs, args). request_frame hs args) ms)"
  shows "calls_made (foldl (\<lambda>c data. onMessage pb sm data c) muduo_new datas) =
    muduo_calls (map (\<lambda>(h, hs, args). resolve_request pb sm h args) ms)"
proof -
  have e: "muduo_take pb sm [] = None" by (simp add: muduo_take_def)
  have "drain (muduo_take pb sm) muduo_stops (concat datas) =
      (map (\<lambda>(h, hs, args). resolve_request pb sm h args) ms, [])"
    using muduo_frames.drain_enc_append [of ms pb sm "[]"] assms by (simp add: muduo.drain_None [OF e])
  then show ?thesis using onMessage_calls [of pb sm muduo_new datas] e by (simp add: muduo_new_def)
qed

lemma muduo_requests_independent_of_chunks_witness:
  "calls_made (foldl (\<lambda>c data. onMessage demo_pb demo_services data c) muduo_new [take 5 demo_bytes, drop 5 demo_bytes]) =
     [\<lparr>tag_id = 5, tag_request = demo_request\<rparr>]"
proof -
  have "muduo_ok demo_pb (demo_header, [8], [0x78, 0x79])" by (simp add: muduo_ok_def demo_pb_def demo_header_def)
  then show ?thesis
    using muduo_requests_independent_of_chunks [of "[(demo_header, [8], [0x78, 0x79])]" demo_pb
        "[take 5 demo_bytes, drop 5 demo_bytes]" demo_services]
    by (simp add: demo_bytes_def [symmetric] demo_resolve) (simp add: demo_request_def)
qed

text \<open>What the io_uring server takes as a request the muduo server takes too.\<close>

lemma reader_branches:
  assumes "y = (if c1 then None else if c2 then Some (x1, b) else if c3 then None
      else case p of None \<Rightarrow> Some (x2, b) | Some h \<Rightarrow> if c4 h then Some (x3, b) else if c5 h then None else Some (f h, g h))"
    and "y = None \<or> (\<exists>x r. y = Some (x, r) \<and> x \<notin> {x1, x2, x3})"
  shows "(if c1 then None else if c3 then None
      else case p of None \<Rightarrow> Some (x2, b) | Some h \<Rightarrow> if c5 h then None else Some (f h, g h)) = y"
  using assms by (auto split: if_split_asm option.split)

lemma muduo_take_uring:
  assumes "uring_take pb sm b = None \<or> (\<exists>rq r. uring_take pb sm b = Some (Request rq, r))"
  shows "muduo_take pb sm b = uring_take pb sm b"
  unfolding muduo_take_def Let_def
  by (rule reader_branches [OF uring_take_def [unfolded Let_def]]) (use assms in auto)

lemma drains_agree:
  "\<forall>i\<in>set (fst (drain (uring_take pb sm) uring_closes b)). \<not> uring_closes i \<Longrightarrow>
     drain (muduo_take pb sm) muduo_stops b = drain (uring_take pb sm) uring_closes b"
proof (induction b rule: uring.drain_induct [of pb sm])
  case (None b)
  then show ?case using muduo_take_uring [of pb sm b] by (simp add: uring.drain_None muduo.drain_None)
next
  case (Final b a r)
  then show ?case using uring.drain_final [OF Final.hyps] by simp
next
  case (Step b a r)
  obtain rq where a: "a = Request rq" using Step.hyps(2) by (cases a) auto
  have "muduo_take pb sm b = Some (a, r)" "\<not> muduo_stops a"
    using Step.hyps a muduo_take_uring [of pb sm b] by (simp_all add: muduo_stops_def)
  then show ?case
    using Step.IH Step.prems uring.drain_step [OF Step.hyps(1,2)] muduo.drain_step [of pb sm b a r] by simp
qed

text \<open>A connection that is still open has met no item that closes it.\<close>

lemma receive_chunks_open:
  assumes "find_conn fd (mgr s) = Some p" and "uring_take pb (m_serviceMap s) (input (ctx_of s p)) = None"
    and "find_conn fd (mgr (foldl (receive_chunk pb fd p) s cs)) = Some p"
  shows "\<forall>i\<in>set (fst (drain (uring_take pb (m_serviceMap s)) uring_closes (input (ctx_of s p) @ concat cs))). \<not> uring_closes i"
  using assms
proof (induction cs arbitrary: s)
  case Nil
  then show ?case by (simp add: uring.drain_None)
next
  case (Cons c cs)
  let ?d = "drain (uring_take pb (m_serviceMap s)) uring_closes"
  let ?s1 = "receive_chunk pb fd p s c"
  obtain items rest where d: "?d (input (ctx_of s p) @ c) = (items, rest)" by fastforce
  note R = receive_chunk_feed [OF Cons.prems(1) d]
  have act: "find_conn fd (mgr ?s1) = Some p"
  proof (rule ccontr)
    assume no: "find_conn fd (mgr ?s1) \<noteq> Some p"
    then show False using Cons.prems(3) receive_chunks_stuck [OF no] by simp
  qed
  then have ok: "\<forall>i\<in>set items. \<not> uring_closes i" using R(2) by (auto split: if_splits)
  have "uring_take pb (m_serviceMap ?s1) (input (ctx_of ?s1 p)) = None"
    using uring.drain_rest_None [of pb "m_serviceMap s" "input (ctx_of s p) @ c"] ok d R(3,4) by simp
  from Cons.IH [OF act this] Cons.prems(3) ok R(3,4)
  have "\<forall>i\<in>set (fst (?d (rest @ concat cs))). \<not> uring_closes i" by simp
  moreover have "fst (?d ((input (ctx_of s p) @ c) @ concat cs)) = items @ fst (?d (rest @ concat cs))"
    using uring.drain_append [of pb "m_serviceMap s" "input (ctx_of s p) @ c" "concat cs"] ok d by simp
  ultimately show ?case using ok by auto
qed

text \<open>C12. The two servers speak the same protocol: when the io_uring server has received any bytes on a
  connection and has not closed it, a muduo server with the same services that gets the same bytes,
  however cut, has made the same calls, with the same ids, in the same order.\<close>

theorem servers_make_same_calls:
  assumes "find_conn fd (mgr s) = Some p" and "input (ctx_of s p) = []"
    and "find_conn fd (mgr (foldl (receive_chunk pb fd p) s chunks)) = Some p"
    and "concat datas = concat chunks"
  shows "\<exists>ts. m_taskQueue (foldl (receive_chunk pb fd p) s chunks) = m_taskQueue s @ ts \<and>
    map (\<lambda>t. \<lparr>tag_id = rq_id (t_request t), tag_request = t_request t\<rparr>) ts =
      calls_made (foldl (\<lambda>c data. onMessage pb (m_serviceMap s) data c) muduo_new datas)"
proof -
  let ?d = "drain (uring_take pb (m_serviceMap s)) uring_closes (concat chunks)"
  have e: "uring_take pb (m_serviceMap s) (input (ctx_of s p)) = None" "muduo_take pb (m_serviceMap s) [] = None"
    using assms(2) by (simp_all add: uring_take_def muduo_take_def)
  have ok: "\<forall>i\<in>set (fst ?d). \<not> uring_closes i" using receive_chunks_open [OF assms(1) e(1) assms(3)] assms(2) by simp
  have "calls_made (foldl (\<lambda>c data. onMessage pb (m_serviceMap s) data c) muduo_new datas) = muduo_calls (fst ?d)"
    using onMessage_calls [of pb "m_serviceMap s" muduo_new datas] e(2) drains_agree [OF ok] assms(4)
    by (simp add: muduo_new_def)
  moreover have "map (\<lambda>t. \<lparr>tag_id = rq_id (t_request t), tag_request = t_request t\<rparr>)
      (map (call_of fd cid) (requests_of items)) = muduo_calls items" for cid items
  proof (induction items)
    case (Cons i items)
    then show ?case by (cases i) (simp_all add: call_of_def)
  qed simp
  ultimately show ?thesis using receive_chunks [OF assms(1) e(1), of chunks] assms(2) by auto
qed

lemma servers_make_same_calls_witness:
  "calls_made (foldl (\<lambda>c data. onMessage demo_pb demo_services data c) muduo_new [demo_bytes]) =
     [\<lparr>tag_id = 5, tag_request = demo_request\<rparr>]"
proof -
  let ?s = "foldl (receive_chunk demo_pb 7 0) demo_accepted [take 3 demo_bytes, drop 3 demo_bytes]"
  have a: "find_conn 7 (mgr demo_accepted) = Some 0" "input (ctx_of demo_accepted 0) = []" "m_taskQueue demo_accepted = []"
    "m_serviceMap demo_accepted = demo_services" "connId (ctx_of demo_accepted 0) = 1"
    by (simp_all add: demo_unfold find_conn_def)
  have d: "drain (uring_take demo_pb demo_services) uring_closes demo_bytes = ([Request demo_request], [])"
    using uring.drain_step [OF demo_take] by (simp add: uring.drain_None [OF take_empty])
  have short: "uring_take demo_pb demo_services (take 3 demo_bytes) = None" by (simp add: uring_take_def demo_length)
  have d1: "drain (uring_take demo_pb (m_serviceMap demo_accepted)) uring_closes (input (ctx_of demo_accepted 0) @ take 3 demo_bytes) =
      ([], take 3 demo_bytes)"
    using uring.drain_None [OF short] by (simp add: a)
  note r1 = receive_chunk_feed [OF a(1) d1]
  let ?s1 = "receive_chunk demo_pb 7 0 demo_accepted (take 3 demo_bytes)"
  have act1: "find_conn 7 (mgr ?s1) = Some 0" using r1(2) by simp
  have d2: "drain (uring_take demo_pb (m_serviceMap ?s1)) uring_closes (input (ctx_of ?s1 0) @ drop 3 demo_bytes) =
      ([Request demo_request], [])"
    using d r1(3,4) by (simp add: a)
  note r2 = receive_chunk_feed [OF act1 d2]
  have "find_conn 7 (mgr ?s) = Some 0" using r2(2) by simp
  from servers_make_same_calls [OF a(1,2) this, of "[demo_bytes]"]
  show ?thesis using r1(1) r2(1,5) by (auto simp: a call_of_def demo_request_def)
qed

text \<open>Publishing a service makes each of its methods callable under its name; a second service
  of the same name does not replace the first, and no other entry changes.\<close>

lemma map_of_methods:
  "map_of (foldl (\<lambda>mm md. map_insert (md_name md) md mm) mm mds) n =
     (case map_of mm n of Some md \<Rightarrow> Some md | None \<Rightarrow> map_of (map (\<lambda>md. (md_name md, md)) mds) n)"
proof (induction mds arbitrary: mm)
  case (Cons md mds)
  show ?case by (auto simp: Cons map_of_map_insert split: option.split)
qed (simp split: option.split)

theorem published_service_lookup:
  "\<exists>mm. (\<forall>mth. map_of mm mth = find (\<lambda>md. md_name md = mth) (svc_methods svc)) \<and>
    (\<forall>n. map_of (NotifyService svc sm) n =
       (if n = svc_name svc \<and> map_of sm n = None then Some \<lparr>m_service = svc, m_methodMap = mm\<rparr> else map_of sm n))"
proof (intro exI conjI allI)
  let ?mm = "foldl (\<lambda>mm md. map_insert (md_name md) md mm) [] (svc_methods svc)"
  have "map_of (map (\<lambda>md. (md_name md, md)) mds) mth = find (\<lambda>md. md_name md = mth) mds" for mds :: "method_desc list" and mth
    by (induction mds) auto
  then show "map_of ?mm mth = find (\<lambda>md. md_name md = mth) (svc_methods svc)" for mth
    by (simp add: map_of_methods)
  show "map_of (NotifyService svc sm) n =
      (if n = svc_name svc \<and> map_of sm n = None then Some \<lparr>m_service = svc, m_methodMap = ?mm\<rparr> else map_of sm n)" for n
    unfolding NotifyService_def Let_def map_of_map_insert by (cases "map_of sm (svc_name svc)") auto
qed

section \<open>Exact transfers\<close>

text \<open>\<open>sendLocked\<close> sends a prefix of the frame and returns true exactly when it is the whole
  frame.\<close>

theorem sends_are_exact:
  "case sendLocked data s of (ok, s') \<Rightarrow>
     \<exists>k\<le>length data. outgoing s' = outgoing s @ take k data \<and> (ok \<longleftrightarrow> k = length data)"
proof (cases "sendLocked data s")
  case (Pair ok s')
  then show ?thesis using posix_writer.send_loop_sent [of data s ok s'] by (simp add: sendLocked_def)
qed

text \<open>\<open>WriteAll\<close> of a connected io_uring client hands over a prefix of the data and returns true
  exactly when it is all of it; every failed submission, wait or operation ends it.\<close>

theorem WriteAll_is_exact:
  assumes "m_fd c \<noteq> -1"
  shows "case WriteAll data c of (ok, c') \<Rightarrow>
    \<exists>k\<le>length data. outgoing (u_sock c') = outgoing (u_sock c) @ take k data \<and> (ok \<longleftrightarrow> k = length data)"
proof (cases "WriteAll data c")
  case (Pair ok c')
  then show ?thesis using uring_writer.send_loop_sent [of data c ok c'] assms by (simp add: WriteAll_def)
qed

lemma WriteAll_is_exact_witness:
  "fst (WriteAll [1, 2, 3] \<lparr>m_fd = 5, m_ringReady = True, u_sock = \<lparr>incoming = [], outgoing = [], results = [2, 2]\<rparr>,
     u_io = [\<lparr>io_sqe = True, io_submit = 1, io_wait = 0\<rparr>, \<lparr>io_sqe = True, io_submit = 1, io_wait = 0\<rparr>],
     u_error = None, u_closed = []\<rparr>)"
proof -
  let ?c = "\<lparr>m_fd = 5, m_ringReady = True, u_sock = \<lparr>incoming = [], outgoing = [], results = [2, 2]\<rparr>,
     u_io = [\<lparr>io_sqe = True, io_submit = 1, io_wait = 0\<rparr>, \<lparr>io_sqe = True, io_submit = 1, io_wait = 0\<rparr>],
     u_error = None, u_closed = []\<rparr>"
  obtain ok c' where w: "WriteAll [1, 2, 3] ?c = (ok, c')" by fastforce
  have r: "u_sock c' = \<lparr>incoming = [], outgoing = [1, 2, 3], results = []\<rparr>"
    using w by (auto simp: WriteAll_def send_loop.simps uring_send_def next_io_def sys_send_def next_result_def
        waitUringResult_def numeral_2_eq_2)
  show ?thesis using WriteAll_is_exact [of ?c "[1, 2, 3]"] r by (auto simp: w dest: arg_cong [of _ _ length])
qed

text \<open>\<open>ReadExact\<close> takes a prefix of what the peer sent and nothing else, and returns true
  exactly when it has all the bytes asked for.\<close>

theorem ReadExact_is_exact:
  assumes "m_fd c \<noteq> -1"
  shows "case ReadExact len c of (ok, data, c') \<Rightarrow>
    \<exists>k\<le>len. k \<le> length (incoming (u_sock c)) \<and> data = take k (incoming (u_sock c)) \<and>
      incoming (u_sock c') = drop k (incoming (u_sock c)) \<and> (ok \<longleftrightarrow> k = len)"
proof (cases "ReadExact len c")
  case (fields ok data c')
  then show ?thesis using uring_reader.recv_loop_avail [of len "[]" c ok data c'] assms by (simp add: ReadExact_def)
qed

lemma ReadExact_is_exact_witness:
  "fst (ReadExact 2 \<lparr>m_fd = 5, m_ringReady = True, u_sock = \<lparr>incoming = [7, 8, 9], outgoing = [], results = [1, 1]\<rparr>,
     u_io = [\<lparr>io_sqe = True, io_submit = 1, io_wait = 0\<rparr>, \<lparr>io_sqe = True, io_submit = 1, io_wait = 0\<rparr>],
     u_error = None, u_closed = []\<rparr>)"
proof -
  let ?c = "\<lparr>m_fd = 5, m_ringReady = True, u_sock = \<lparr>incoming = [7, 8, 9], outgoing = [], results = [1, 1]\<rparr>,
     u_io = [\<lparr>io_sqe = True, io_submit = 1, io_wait = 0\<rparr>, \<lparr>io_sqe = True, io_submit = 1, io_wait = 0\<rparr>],
     u_error = None, u_closed = []\<rparr>"
  obtain ok d c' where w: "ReadExact 2 ?c = (ok, d, c')" by (cases "ReadExact 2 ?c") auto
  have "incoming (u_sock c') = [9]"
    using w by (auto simp: ReadExact_def recv_loop.simps uring_recv_def next_io_def sys_recv_def next_result_def
        waitUringResult_def numeral_2_eq_2)
  moreover have "(case ReadExact 2 ?c of (ok, data, c') \<Rightarrow>
      \<exists>k\<le>2. k \<le> length (incoming (u_sock ?c)) \<and> data = take k (incoming (u_sock ?c)) \<and>
        incoming (u_sock c') = drop k (incoming (u_sock ?c)) \<and> (ok \<longleftrightarrow> k = 2))"
    by (rule ReadExact_is_exact) simp
  ultimately show ?thesis using w by (auto simp: le_Suc_eq numeral_2_eq_2)
qed

text \<open>\<open>recvAll\<close> reads the next \<open>len\<close> bytes, however \<open>recv\<close> splits them, and \<open>sendLocked\<close>
  sends everything, as long as every call transfers at least one byte.\<close>

theorem exact_transfers_succeed:
  assumes "ready s" and "len \<le> length (incoming s)" and "plenty (length data) t"
  shows "(\<exists>s'. recvAll len s = (True, take len (incoming s), s') \<and> incoming s' = drop len (incoming s)) \<and>
    fst (sendLocked data t)"
  using posix_reader.recv_loop_succeeds [OF assms(1,2), of "[]"] posix_writer.send_loop_succeeds [OF assms(3)]
  by (auto simp: recvAll_def sendLocked_def)

lemma exact_transfers_succeed_witness:
  "fst (sendLocked [1, 2] \<lparr>incoming = [3], outgoing = [], results = [1, 4]\<rparr>)"
  using exact_transfers_succeed [of "\<lparr>incoming = [3], outgoing = [], results = [1, 4]\<rparr>" 1 "[1, 2]"
      "\<lparr>incoming = [3], outgoing = [], results = [1, 4]\<rparr>"]
  by (simp add: ready_def plenty_def)

end
