(* ===== verification/EtcdLease.thy ===== *)
theory EtcdLease
  imports EtcdClient
begin

text \<open>
  The life of the thread that keeps a lease alive (etcdclient.cc: \<open>StartKeepAlive\<close>,
  \<open>keepAliveLoop\<close>, \<open>Stop\<close> and the destructor, which calls \<open>Stop\<close>): the thread, the flag
  \<open>m_stop\<close> under \<open>m_cvMtx\<close>, and the thread that stops the client, in any order of steps. What one
  turn of the loop sends and reads is \<open>keepAliveLoop\<close> of theory EtcdClient.
\<close>

section \<open>State and steps\<close>

text \<open>\<open>NoThread\<close>: the \<open>std::thread\<close> object is not joinable. \<open>Waiting\<close> in \<open>wait_for\<close>,
  \<open>Posting\<close> between the wait and the next one, \<open>Returned\<close> but not joined.\<close>

datatype ka_thread = NoThread | Waiting | Posting | Returned

datatype stopper = Running | Joining | Stopped

record lease_client =
  m_stop :: bool
  m_keepAliveThread :: ka_thread
  ka_lease :: int
  ka_stopper :: stopper
  terminated :: bool  \<comment> \<open>\<open>std::terminate\<close>\<close>
  ka_http :: http
  ka_expired :: nat
  renewals :: nat  \<comment> \<open>turns of the loop of the thread that runs\<close>
  renewals_at_stop :: nat

definition EtcdClient_new :: "http \<Rightarrow> lease_client" where
  "EtcdClient_new h = \<lparr>m_stop = False, m_keepAliveThread = NoThread, ka_lease = 0, ka_stopper = Running,
     terminated = False, ka_http = h, ka_expired = 0, renewals = 0, renewals_at_stop = 0\<rparr>"

text \<open>Assigning to a joinable \<open>std::thread\<close> ends the program.\<close>

definition StartKeepAlive :: "int \<Rightarrow> lease_client \<Rightarrow> lease_client" where
  "StartKeepAlive leaseId s =
     (if leaseId \<le> 0 then s
      else if m_keepAliveThread s \<noteq> NoThread then s\<lparr>terminated := True\<rparr>
      else s\<lparr>m_keepAliveThread := Waiting, ka_lease := leaseId, renewals := 0,
             renewals_at_stop := 0\<rparr>)"

text \<open>The wait ends by its timeout or by the notification; the predicate \<open>m_stop\<close> decides.\<close>

definition ka_wait :: "lease_client \<Rightarrow> lease_client" where
  "ka_wait s = s\<lparr>m_keepAliveThread := if m_stop s then Returned else Posting\<rparr>"

definition ka_post :: "json_parser \<Rightarrow> lease_client \<Rightarrow> lease_client" where
  "ka_post jp s =
     (let (h, n) = keepAliveLoop jp (ka_lease s) [False] (ka_http s) (ka_expired s) in
      s\<lparr>ka_http := h, ka_expired := n, renewals := renewals s + 1, m_keepAliveThread := Waiting\<rparr>)"

definition Stop_signal :: "lease_client \<Rightarrow> lease_client" where
  "Stop_signal s =
     s\<lparr>m_stop := True, ka_stopper := Joining, renewals_at_stop := (if m_stop s then renewals_at_stop s else renewals s)\<rparr>"

text \<open>\<open>join\<close> when joinable; it waits while the thread has not returned.\<close>

definition Stop_join :: "lease_client \<Rightarrow> lease_client" where
  "Stop_join s = s\<lparr>m_keepAliveThread := NoThread, ka_stopper := Stopped\<rparr>"

inductive lease_thread_step :: "json_parser \<Rightarrow> lease_client \<Rightarrow> lease_client \<Rightarrow> bool" for jp where
  wait: "m_keepAliveThread s = Waiting \<Longrightarrow> lease_thread_step jp s (ka_wait s)"
| post: "m_keepAliveThread s = Posting \<Longrightarrow> lease_thread_step jp s (ka_post jp s)"

inductive lease_step :: "json_parser \<Rightarrow> lease_client \<Rightarrow> lease_client \<Rightarrow> bool" for jp where
  start: "ka_stopper s \<noteq> Joining \<Longrightarrow> lease_step jp s (StartKeepAlive leaseId s)"
| thread: "lease_thread_step jp s t \<Longrightarrow> lease_step jp s t"
| stop: "ka_stopper s \<noteq> Joining \<Longrightarrow> lease_step jp s (Stop_signal s)"
| join: "ka_stopper s = Joining \<Longrightarrow> m_keepAliveThread s \<in> {NoThread, Returned} \<Longrightarrow> lease_step jp s (Stop_join s)"

inductive_simps lease_thread_step_simps: "lease_thread_step jp s t"

definition lease_start :: "lease_client \<Rightarrow> bool" where
  "lease_start s \<longleftrightarrow> (\<exists>h. s = EtcdClient_new h)"

section \<open>Stopping\<close>

text \<open>At most the turn that was under way when the flag was set is finished.\<close>

definition lease_inv :: "lease_client \<Rightarrow> bool" where
  "lease_inv s \<longleftrightarrow>
     (m_stop s \<longrightarrow> (if m_keepAliveThread s = Posting then renewals s = renewals_at_stop s
                   else renewals s \<le> renewals_at_stop s + 1)) \<and>
     (ka_stopper s = Joining \<longrightarrow> m_stop s) \<and> (ka_stopper s = Stopped \<longrightarrow> m_stop s)"

lemma lease_inv_step:
  assumes "lease_inv s" and "lease_step jp s t"
  shows "lease_inv t"
  using assms(2,1)
  by cases (auto simp: lease_inv_def StartKeepAlive_def Stop_signal_def Stop_join_def lease_thread_step_simps
      ka_wait_def ka_post_def Let_def split: prod.splits if_splits)

interpretation lease: inductive_invariant lease_start "lease_step jp" lease_inv for jp
  by unfold_locales (auto simp: lease_start_def EtcdClient_new_def lease_inv_def [of "EtcdClient_new _", unfolded EtcdClient_new_def]
      elim: lease_inv_step)

text \<open>The steps the thread still has to take once the flag is set.\<close>

fun ka_left :: "ka_thread \<Rightarrow> nat" where
  "ka_left Posting = 2"
| "ka_left Waiting = 1"
| "ka_left Returned = 0"
| "ka_left NoThread = 0"

lemma ka_left_returned: "ka_left th = 0 \<longleftrightarrow> th \<in> {NoThread, Returned}"
  by (cases th) simp_all

interpretation lease_thread: stoppable_thread m_stop "lease_thread_step jp" "\<lambda>s. ka_left (m_keepAliveThread s)" for jp
proof (unfold_locales, goal_cases)
  case (3 s)
  then show ?case by (cases "m_keepAliveThread s") (auto simp: lease_thread_step_simps)
qed (auto simp: lease_thread_step_simps ka_wait_def ka_post_def Let_def split: prod.splits)

section \<open>The posts are those of the loop\<close>

lemma keepAliveLoop_snoc:
  "keepAliveLoop jp l (replicate (Suc k) False) h n =
     (let (h1, n1) = keepAliveLoop jp l (replicate k False) h n in keepAliveLoop jp l [False] h1 n1)"
proof (induction k arbitrary: h n)
  case (Suc k)
  obtain h1 n1 where r: "keepAliveLoop jp l [False] h n = (h1, n1)" by fastforce
  have step: "keepAliveLoop jp l (False # ws) h n = keepAliveLoop jp l ws h1 n1" for ws
    using r by (auto simp: Let_def split: prod.splits)
  show ?case using Suc [of h1 n1] by (simp add: step del: keepAliveLoop.simps)
qed (simp add: Let_def)

text \<open>A thread started with lease \<open>l\<close> and nothing else using the client: after \<open>n\<close> turns the
  world is that of \<open>n\<close> turns of the loop.\<close>

lemma lease_thread_runs_loop:
  assumes "(lease_thread_step jp)\<^sup>*\<^sup>* s t" and "renewals s = 0"
  shows "(ka_http t, ka_expired t) = keepAliveLoop jp (ka_lease s) (replicate (renewals t) False) (ka_http s) (ka_expired s)
    \<and> ka_lease t = ka_lease s"
  using assms
proof (induction rule: rtranclp_induct)
  case (step t u)
  from step.hyps(2) step.IH [OF step.prems] show ?case
    unfolding lease_thread_step_simps
    by (auto simp: ka_wait_def ka_post_def Let_def keepAliveLoop_snoc split: prod.splits simp del: keepAliveLoop.simps(3) replicate.simps)
qed simp

section \<open>Starting twice\<close>

lemma start_twice_terminates:
  "0 < a \<Longrightarrow> 0 < b \<Longrightarrow> terminated (StartKeepAlive b (StartKeepAlive a (EtcdClient_new h)))"
  by (simp add: StartKeepAlive_def EtcdClient_new_def)

text \<open>\<open>m_stop\<close> is never cleared: a thread started after \<open>Stop\<close> returns without a renewal.\<close>

lemma restarted_never_renews:
  assumes "m_stop s" and "m_keepAliveThread s = NoThread" and "0 < l"
    and "(lease_thread_step jp)\<^sup>*\<^sup>* (StartKeepAlive l s) t"
  shows "renewals t = 0 \<and> posted (ka_http t) = posted (ka_http s)"
proof -
  have "m_stop t \<and> m_keepAliveThread t \<in> {Waiting, Returned} \<and> renewals t = 0 \<and> ka_http t = ka_http s"
    using assms(4)
  proof (induction rule: rtranclp_induct)
    case base
    then show ?case using assms(1-3) by (simp add: StartKeepAlive_def)
  next
    case (step t u)
    then show ?case by (auto simp: lease_thread_step_simps ka_wait_def)
  qed
  then show ?thesis by simp
qed

end
