(* ===== verification/EtcdProps.thy ===== *)
theory EtcdProps
  imports EtcdLease CallPaths
begin

text \<open>
  The properties of service discovery: the encodings of the etcd client, the watch, the table of
  instances, and that a server's registration and a client's lookup agree.
\<close>

text \<open>C37. What the client encodes in base64 for etcd's JSON gateway decodes to the same bytes, and
  has the length of padded base64.\<close>

theorem base64_roundtrip:
  "b64Decode (b64Encode x) = x \<and> length (b64Encode x) = 4 * ((length x + 2) div 3)"
  by (simp add: b64Decode_Encode b64_encode_length)

text \<open>The range etcd is asked for is exactly the set of keys with the prefix, including the
  prefixes that end in \<open>0xff\<close> bytes.\<close>

theorem prefix_scan_exact:
  "in_range p (prefixEnd p) k \<longleftrightarrow> prefix p k"
  by (rule prefixEnd_range)

text \<open>Every \<open>int64\<close> that etcd prints as a JSON string, or sends as a JSON number, is read back.\<close>

theorem jint_reads_int64:
  assumes "- (2 ^ 63) \<le> v" and "v < 2 ^ 63"
  shows "jint (JObject [(f, JString (to_string v))]) f d = v \<and> jint (JObject [(f, JNumber v)]) f d = v"
  using stoll_to_string [OF assms] by (simp add: jint_def json_find_def)

lemma jint_reads_int64_witness: "jint (JObject [([1], JString (to_string 7587870))]) [1] 0 = 7587870"
  using jint_reads_int64 [of 7587870 "[1]" 0] by simp

text \<open>C28. What a watch session delivers, and the revision it reaches, does not depend on how libcurl
  cuts the stream into chunks.\<close>

theorem watch_independent_of_chunks:
  "watch_session jp resumeRev chunks evs = watch_session jp resumeRev [concat chunks] evs"
  by (simp add: watch_session_lines)



text \<open>C29. The table of instances follows etcd: after the initial scan and any sequence of watch
  events of the prefix it holds, without duplicates, exactly the addresses of the keys that are in
  etcd then.\<close>

theorem instance_table_follows_etcd:
  assumes "\<forall>kv\<in>set kvs. prefix pfx (kv_key kv)" and "distinct (map kv_key kvs)"
    and "\<forall>ev\<in>set evs. prefix pfx (we_key ev)"
  shows "table_ok pfx (fold apply_event evs (kv_key ` set kvs)) (fold (on_watch_event pfx) evs (initial_instances pfx kvs))"
  by (rule watch_events_table [OF assms(3) initial_table [OF assms(1,2)]])

lemma instance_table_follows_etcd_witness:
  "set (fold (on_watch_event [1]) [\<lparr>we_type = PutEvent, we_key = [1, 3], we_value = []\<rparr>,
      \<lparr>we_type = DeleteEvent, we_key = [1, 2], we_value = []\<rparr>] (initial_instances [1] [\<lparr>kv_key = [1, 2], kv_value = []\<rparr>])) = {[3]}"
proof -
  let ?kvs = "[\<lparr>kv_key = [1, 2], kv_value = []\<rparr>]"
  let ?evs = "[\<lparr>we_type = PutEvent, we_key = [1, 3], we_value = []\<rparr>, \<lparr>we_type = DeleteEvent, we_key = [1, 2], we_value = []\<rparr>]"
  have "fold apply_event ?evs (kv_key ` set ?kvs) = {[1, 3]}" by (auto simp: apply_event_def)
  moreover have "addresses [1] {[1, 3]} = {[3]}" by (auto simp: addresses_def)
  moreover have "table_ok [1] (fold apply_event ?evs (kv_key ` set ?kvs)) (fold (on_watch_event [1]) ?evs (initial_instances [1] ?kvs))"
    by (rule instance_table_follows_etcd) simp_all
  ultimately show ?thesis by (simp only: table_ok_def)
qed

text \<open>Round robin is fair: as many picks in a row as there are instances use each instance
  exactly once, wherever the counter stands.\<close>

theorem round_robin_fair:
  assumes "instances e \<noteq> []" and "unat (rr e) + length (instances e) \<le> 2 ^ 64"
  shows "mset (picks (length (instances e)) e) = mset (map Some (instances e))"
  by (rule picks_fair [OF assms])

lemma round_robin_fair_witness:
  "mset (picks 3 \<lparr>instances = [[1], [2], [3]], rr = 5\<rparr>) = mset (map Some [[1], [2], [3]])"
  using round_robin_fair [of "\<lparr>instances = [[1], [2], [3]], rr = 5\<rparr>"] by (simp add: numeral_3_eq_3)

text \<open>The address \<open>GetRpcAddress\<close> gives is an instance of the method's table, a failure gives
  none, and a call for one method leaves the tables of the others alone.\<close>

lemma pick_in: "pick_instance e = (Some a, e') \<Longrightarrow> a \<in> set (instances e')"
  by (auto simp: pick_instance_def split: if_splits)

theorem address_is_an_instance:
  "case GetRpcAddress jp path (c, h) of (r, c', h') \<Rightarrow>
     (case r of Inl _ \<Rightarrow> True | Inr a \<Rightarrow> \<exists>e. map_of (g_entries c') path = Some e \<and> a \<in> set (instances e)) \<and>
     map_of (g_entries c') path' = map_of (g_entries (if path' = path then c' else c)) path'"
proof -
  obtain ok c1 h1 where start: "(case g_etcd c of Some ok \<Rightarrow> (ok, c, h)
      | None \<Rightarrow> (let (ok, h') = etcd_Start jp h in (ok, c\<lparr>g_etcd := Some ok\<rparr>, h'))) = (ok, c1, h1)"
    by (rule prod_cases3)
  then have c1: "g_entries c1 = g_entries c" by (auto split: option.splits prod.splits)
  obtain found h2 where look: "(case map_of (g_entries c1) path of Some e \<Rightarrow> (Some e, h1)
      | None \<Rightarrow> (let pfx = path @ str ''/''; (res, h') = RangePrefix jp pfx 0 h1 in
          (map_option (\<lambda>(kvs, rev). \<lparr>instances = initial_instances pfx kvs, rr = 0\<rparr>) res, h'))) = (found, h2)"
    by fastforce
  note unf = GetRpcAddress_def prod.case Let_def start [unfolded Let_def] look [unfolded Let_def]
  show ?thesis
  proof (cases "ok \<and> found \<noteq> None")
    case False
    then show ?thesis unfolding unf by (cases ok) (simp_all add: c1)
  next
    case True
    then obtain e where e: "ok" "found = Some e" by blast
    obtain a e' where p: "pick_instance e = (a, e')" by fastforce
    then show ?thesis unfolding unf
      by (cases a) (simp_all add: e c1 update_conv' pick_in [of e _ e'])
  qed
qed

text \<open>A registration that succeeds has sent etcd a probe lease, the lease of ten seconds, and one
  put per method of every published service, under the instance's key, with the instance's address
  as the value and attached to the lease it was granted; in this order and nothing else.\<close>

theorem registration_puts_every_method:
  assumes "registerServiceToEtcd jp sm ip port h = Some h'"
  shows "\<exists>lease>0. posted h' = posted h @
      [(str ''/v3/lease/grant'', lease_body 2), (str ''/v3/lease/grant'', lease_body kLeaseTtl)] @
      map (\<lambda>k. (str ''/v3/kv/put'', put_body k (instance_addr ip port) lease)) (instance_keys sm (instance_addr ip port))"
proof -
  have grant: "LeaseGrant jp ttl h1 = (l, h2) \<Longrightarrow> posted h2 = posted h1 @ [(str ''/v3/lease/grant'', lease_body ttl)]" for ttl h1 l h2
    using posted_httpPost [of "str ''/v3/lease/grant''" "lease_body ttl" h1]
    by (auto simp: LeaseGrant_def Let_def split: prod.splits)
  obtain started h1 where 1: "etcd_Start jp h = (started, h1)" by fastforce
  obtain lease h2 where 2: "LeaseGrant jp kLeaseTtl h1 = (lease, h2)" by fastforce
  have p1: "posted h1 = posted h @ [(str ''/v3/lease/grant'', lease_body 2)]"
    using 1 grant [of 2 h] by (auto simp: etcd_Start_def split: prod.splits)
  have ok: "0 < lease" "put_all jp (instance_keys sm (instance_addr ip port)) (instance_addr ip port) lease h2 = Some h'"
    using assms 1 2 by (auto simp: registerServiceToEtcd_def split: if_splits)
  from put_all_posts [OF ok(2)] p1 grant [OF 2] ok(1) show ?thesis by auto
qed

lemma registration_puts_every_method_witness:
  fixes jp sm
  defines "jp \<equiv> (\<lambda>b. Some (JObject [(str ''ID'', JNumber 7), (str ''header'', JNull)]))"
  defines "sm \<equiv> NotifyService \<lparr>svc_id = 0, svc_name = [0x53], svc_methods = [\<lparr>md_service = [0x53], md_name = [0x6d]\<rparr>]\<rparr> []"
  shows "\<exists>h'. registerServiceToEtcd jp sm [0x31] 80 \<lparr>answers = [[1], [1], [1]], posted = []\<rparr> = Some h' \<and> length (posted h') = 3"
proof -
  let ?h = "\<lparr>answers = [[1], [1], [1]], posted = []\<rparr>"
  have keys: "length (instance_keys sm a) = 1" for a
    by (simp add: instance_keys_def sm_def NotifyService_def map_insert_def)
  then obtain k where k: "instance_keys sm (instance_addr [0x31] 80) = [k]"
    by (metis One_nat_def length_0_conv length_Suc_conv)
  have "registerServiceToEtcd jp sm [0x31] 80 ?h \<noteq> None"
    by (simp add: registerServiceToEtcd_def etcd_Start_def LeaseGrant_def httpPost_def jp_def jint_def json_find_def Put_def k Let_def)
  then obtain h' where h': "registerServiceToEtcd jp sm [0x31] 80 ?h = Some h'" by blast
  from registration_puts_every_method [OF h'] h' show ?thesis by (auto simp: k)
qed

text \<open>The lease is renewed after every wait until the client stops, whatever the server answers,
  and the waits are at least one second and, for a lease of three seconds or more, at most a third
  of its time to live.\<close>

theorem lease_is_renewed:
  "posted (fst (keepAliveLoop jp leaseId ws h n)) =
     posted h @ replicate (length (takeWhile Not ws)) (str ''/v3/lease/keepalive'', keepalive_body leaseId) \<and>
   1 \<le> keepalive_interval ttl \<and>
   (if 3 \<le> ttl then 3 * keepalive_interval ttl \<le> ttl else keepalive_interval ttl = 1)"
  using keepAliveLoop_posts [of jp leaseId ws h n] by (auto simp: keepalive_interval_def Let_def)

text \<open>C32. \<open>Stop\<close>, and so the destructor, returns: once \<open>m_stop\<close> is set, whatever ran before in any
  order, the keep-alive thread takes at most two more steps, can take them until it has returned,
  and has then renewed at most once more; at that point the join is possible.\<close>

theorem stop_ends_keepalive:
  assumes "reach lease_start (lease_step jp) s" and "m_stop s"
  shows "renewals s \<le> renewals_at_stop s + 1 \<and>
    (\<forall>n t. (lease_thread_step jp ^^ n) s t \<longrightarrow> n \<le> 2) \<and>
    (\<exists>t. (lease_thread_step jp)\<^sup>*\<^sup>* s t \<and> m_keepAliveThread t \<in> {NoThread, Returned}) \<and>
    (m_keepAliveThread s \<in> {NoThread, Returned} \<longrightarrow> ka_stopper s = Joining \<longrightarrow> lease_step jp s (Stop_join s))"
proof -
  have "renewals s \<le> renewals_at_stop s + 1"
    using lease.reach_inv [OF assms(1)] assms(2) by (auto simp: lease_inv_def split: if_splits)
  moreover have "ka_left (m_keepAliveThread s) \<le> 2" by (cases "m_keepAliveThread s") simp_all
  then have "(lease_thread_step jp ^^ n) s t \<Longrightarrow> n \<le> 2" for n t
    using lease_thread.bounded [of n jp s t] assms(2) by fastforce
  moreover have "\<exists>t. (lease_thread_step jp)\<^sup>*\<^sup>* s t \<and> m_keepAliveThread t \<in> {NoThread, Returned}"
    using lease_thread.returns [OF assms(2), of jp] by (simp add: ka_left_returned)
  ultimately show ?thesis using lease_step.join [of s jp] by blast
qed

text \<open>The client is stopped while the thread is between its wait and the renewal.\<close>

lemma stop_ends_keepalive_witness:
  fixes jp :: json_parser
  defines "jp \<equiv> (\<lambda>_. None)"
  defines "s \<equiv> Stop_signal (ka_wait (StartKeepAlive 7 (EtcdClient_new \<lparr>answers = [], posted = []\<rparr>)))"
  shows "\<exists>t. (lease_thread_step jp)\<^sup>*\<^sup>* s t \<and> m_keepAliveThread t \<in> {NoThread, Returned}"
proof -
  let ?s0 = "EtcdClient_new \<lparr>answers = [], posted = []\<rparr>"
  have "reach lease_start (lease_step jp) ?s0" by (rule reach_init) (auto simp: lease_start_def)
  moreover have "lease_step jp ?s0 (StartKeepAlive 7 ?s0)" by (rule lease_step.start) (simp add: EtcdClient_new_def)
  moreover have "lease_step jp (StartKeepAlive 7 ?s0) (ka_wait (StartKeepAlive 7 ?s0))"
    by (intro lease_step.thread lease_thread_step.wait) (simp add: StartKeepAlive_def EtcdClient_new_def)
  moreover have "lease_step jp (ka_wait (StartKeepAlive 7 ?s0)) s"
    unfolding s_def by (rule lease_step.stop) (simp add: StartKeepAlive_def EtcdClient_new_def ka_wait_def)
  ultimately have r: "reach lease_start (lease_step jp) s" by (meson reach_step)
  have "m_stop s"
    by (simp add: s_def Stop_signal_def ka_wait_def StartKeepAlive_def EtcdClient_new_def)
  from stop_ends_keepalive [OF r this] show ?thesis by blast
qed

end
