(* ===== verification/Support.thy ===== *)
theory Support
  imports KimPrelude
begin

text \<open>
  The small parts both sides use: the configuration file (config.cc), the controller of a call
  (controller.cc), and the asynchronous logger with its queue (logger.h, logger.cc,
  include/lockqueue.h).
\<close>

section \<open>Configuration\<close>

definition trim :: "bytes \<Rightarrow> bytes" where
  "trim src_buf =
     (let s1 = (if \<exists>c\<in>set src_buf. c \<noteq> 0x20 then dropWhile (\<lambda>c. c = 0x20) src_buf else src_buf)
      in (if \<exists>c\<in>set s1. c \<noteq> 0x20 then rev (dropWhile (\<lambda>c. c = 0x20) (rev s1)) else s1))"

text \<open>\<open>fgets(buf, 512, pf)\<close>: up to 511 bytes, to the end of the line at most.\<close>

definition fgets_len :: "bytes \<Rightarrow> nat" where
  "fgets_len b =
     min 511 (if 0x0a \<in> set b then Suc (length (takeWhile (\<lambda>c. c \<noteq> 0x0a) b)) else length b)"

lemma fgets_len_pos: "b \<noteq> [] \<Longrightarrow> 0 < fgets_len b"
  by (cases b) (auto simp: fgets_len_def)

text \<open>
  The contents of \<open>buf\<close>, round by round. The last round reads nothing; the code leaves it out
  when the file does not end with a newline, and it has no effect.
\<close>

function config_lines :: "bytes \<Rightarrow> bytes list" where
  "config_lines b =
     (if b = [] then [[]]
      else takeWhile (\<lambda>c. c \<noteq> 0) (take (fgets_len b) b) # config_lines (drop (fgets_len b) b))"
  by auto
termination by (relation "measure length") (use fgets_len_pos in auto)

declare config_lines.simps [simp del]

type_synonym config = "(bytes \<times> bytes) list"

definition config_line :: "bytes \<Rightarrow> config \<Rightarrow> config" where
  "config_line buf m_configMap =
     (let read_buf = trim buf in
      if read_buf = [] \<or> hd read_buf = of_char CHR ''#'' then m_configMap
      else if of_char CHR ''='' \<notin> set read_buf then m_configMap
      else let key = trim (takeWhile (\<lambda>c. c \<noteq> of_char CHR ''='') read_buf);
               val = trim (takeWhile (\<lambda>c. c \<noteq> 0x0a) (tl (dropWhile (\<lambda>c. c \<noteq> of_char CHR ''='') read_buf)))
           in map_insert key val m_configMap)"

definition loadConfigFile :: "bytes \<Rightarrow> config \<Rightarrow> config" where
  "loadConfigFile file m_configMap = fold config_line (config_lines file) m_configMap"

definition load :: "config \<Rightarrow> bytes \<Rightarrow> bytes" where
  "load m_configMap key = (case map_of m_configMap key of Some v \<Rightarrow> v | None \<Rightarrow> [])"

text \<open>A line as one writes it: \<open>key=value\<close>, blanks around both, a newline at the end.\<close>

definition no_outer_space :: "bytes \<Rightarrow> bool" where
  "no_outer_space s \<longleftrightarrow> s \<noteq> [] \<and> hd s \<noteq> 0x20 \<and> last s \<noteq> 0x20"

definition entry_ok :: "bytes \<times> bytes \<Rightarrow> bool" where
  "entry_ok kv \<longleftrightarrow>
     no_outer_space (fst kv) \<and> no_outer_space (snd kv) \<and> hd (fst kv) \<noteq> of_char CHR ''#'' \<and>
     of_char CHR ''='' \<notin> set (fst kv) \<and> 0x0a \<notin> set (fst kv) \<and> 0x0a \<notin> set (snd kv) \<and>
     0 \<notin> set (fst kv) \<and> 0 \<notin> set (snd kv)"

definition entry_line :: "nat \<times> nat \<times> nat \<times> nat \<Rightarrow> bytes \<times> bytes \<Rightarrow> bytes" where
  "entry_line sp kv =
     (case sp of (a, b, c, d) \<Rightarrow>
        replicate a 0x20 @ fst kv @ replicate b 0x20 @ str ''='' @
        replicate c 0x20 @ snd kv @ replicate d 0x20 @ [0x0a])"

lemma dropWhile_replicate: "dropWhile (\<lambda>c. c = x) (replicate n x @ s) = dropWhile (\<lambda>c. c = x) s"
  by (induction n) simp_all

lemma trim_spaces:
  assumes "no_outer_space s"
  shows "trim (replicate a 0x20 @ s @ replicate b 0x20) = s"
proof -
  have ne: "s \<noteq> []" "hd s \<noteq> 0x20" "last s \<noteq> 0x20" using assms by (auto simp: no_outer_space_def)
  have ex: "\<exists>c\<in>set (x @ s @ y). c \<noteq> 0x20" for x y :: bytes
    using ne(1,2) hd_in_set [of s] by (intro bexI [of _ "hd s"]) auto
  have front: "dropWhile (\<lambda>c. c = 0x20) (replicate a 0x20 @ s @ replicate b 0x20) = s @ replicate b 0x20"
    unfolding dropWhile_replicate using ne by (cases s) auto
  have rear: "dropWhile (\<lambda>c. c = 0x20) (rev (s @ replicate b 0x20)) = rev s"
    unfolding rev_append rev_replicate dropWhile_replicate using ne by (cases s rule: rev_cases) auto
  show ?thesis
    unfolding trim_def Let_def front if_P [OF ex] rear using ex [of "[]"] by (simp only: append_Nil if_True rev_rev_ident)
qed

lemma config_line_entry:
  assumes "entry_ok kv"
  shows "config_line (entry_line sp kv) m = map_insert (fst kv) (snd kv) m"
proof -
  obtain a b c d where sp: "sp = (a, b, c, d)" by (cases sp) auto
  obtain k v where kv: "kv = (k, v)" by fastforce
  note ok = assms [unfolded entry_ok_def kv fst_conv snd_conv]
  let ?eq = "of_char CHR ''='' :: byte"
  let ?rest = "replicate c 0x20 @ v @ replicate d 0x20 @ [0x0a]"
  let ?body = "k @ replicate b 0x20 @ [?eq] @ ?rest"
  have line: "entry_line sp kv = replicate a 0x20 @ ?body @ replicate 0 0x20"
    by (simp add: entry_line_def sp kv)
  have "no_outer_space ?body" using ok by (auto simp: no_outer_space_def)
  then have t: "trim (entry_line sp kv) = ?body" unfolding line by (rule trim_spaces)
  have neq: "\<forall>x\<in>set (k @ replicate b 0x20). x \<noteq> ?eq" using ok by auto
  have tw: "takeWhile (\<lambda>c. c \<noteq> ?eq) ?body = k @ replicate b 0x20"
    "dropWhile (\<lambda>c. c \<noteq> ?eq) ?body = ?eq # ?rest"
    using neq takeWhile_append2 [of "k @ replicate b 0x20" "\<lambda>c. c \<noteq> ?eq" "?eq # ?rest"]
      dropWhile_append2 [of "k @ replicate b 0x20" "\<lambda>c. c \<noteq> ?eq" "?eq # ?rest"] by auto
  have nl: "takeWhile (\<lambda>c. c \<noteq> 0x0a) ?rest = replicate c 0x20 @ v @ replicate d 0x20"
  proof -
    have "\<forall>x\<in>set (replicate c 0x20 @ v @ replicate d 0x20). x \<noteq> 0x0a" using ok by auto
    then have "takeWhile (\<lambda>c. c \<noteq> 0x0a) ((replicate c 0x20 @ v @ replicate d 0x20) @ [0x0a]) =
        replicate c 0x20 @ v @ replicate d 0x20" by (subst takeWhile_append2) auto
    then show ?thesis by simp
  qed
  have "trim (k @ replicate b 0x20) = k" "trim (replicate c 0x20 @ v @ replicate d 0x20) = v"
    using trim_spaces [of k 0 b] trim_spaces [of v c d] ok by simp_all
  moreover have "hd ?body = hd k" "k \<noteq> []" using ok by (simp_all add: no_outer_space_def)
  ultimately show ?thesis
    unfolding config_line_def t Let_def tw using nl ok by (simp add: kv)
qed

lemma config_lines_entry:
  assumes "entry_ok kv" and "length (entry_line sp kv) \<le> 511"
  shows "config_lines (entry_line sp kv @ rest) = entry_line sp kv # config_lines rest"
proof -
  obtain a b c d where sp: "sp = (a, b, c, d)" by (cases sp) auto
  obtain l where l: "entry_line sp kv = l @ [0x0a]" by (simp add: entry_line_def sp)
  have "set l \<subseteq> {0x20, of_char CHR ''=''} \<union> set (fst kv) \<union> set (snd kv)"
    using l by (auto simp: entry_line_def sp)
  then have "0x0a \<notin> set l" "0 \<notin> set l" using assms(1) by (auto simp: entry_ok_def)
  then have all: "\<forall>c\<in>set l. c \<noteq> 0x0a" "\<forall>c\<in>set (l @ [0x0a]). c \<noteq> (0 :: byte)" by auto
  have tw: "takeWhile (\<lambda>c. c \<noteq> 0x0a) (l @ 0x0a # rest) = l"
    using all(1) by (simp add: takeWhile_append2)
  have "fgets_len (entry_line sp kv @ rest) = length (entry_line sp kv)"
    using assms(2) by (simp add: fgets_len_def l tw)
  moreover have "takeWhile (\<lambda>c. c \<noteq> 0) (entry_line sp kv) = entry_line sp kv"
    unfolding l takeWhile_eq_all_conv using all(2) .
  ultimately show ?thesis
    by (subst config_lines.simps) (simp add: l)
qed

section \<open>Controller\<close>

record controller =
  m_failed :: bool
  m_errText :: bytes

definition KimRpcController :: controller where "KimRpcController = \<lparr>m_failed = False, m_errText = []\<rparr>"
definition Reset :: "controller \<Rightarrow> controller" where "Reset c = c\<lparr>m_failed := False, m_errText := []\<rparr>"
definition SetFailed :: "bytes \<Rightarrow> controller \<Rightarrow> controller" where
  "SetFailed reason c = c\<lparr>m_failed := True, m_errText := reason\<rparr>"

section \<open>Log queue and logger\<close>

text \<open>\<open>Pop\<close> waits while the queue is empty: \<open>None\<close> is the waiting thread.\<close>

definition Push :: "'a \<Rightarrow> 'a list \<Rightarrow> 'a list" where "Push x q = q @ [x]"

definition Pop :: "'a list \<Rightarrow> ('a \<times> 'a list) option" where
  "Pop q = (case q of [] \<Rightarrow> None | x # q' \<Rightarrow> Some (x, q'))"

locale fifo =
  fixes put :: "'a \<Rightarrow> 'q \<Rightarrow> 'q" and get :: "'q \<Rightarrow> ('a \<times> 'q) option" and contents :: "'q \<Rightarrow> 'a list"
  assumes contents_put: "contents (put x q) = contents q @ [x]"
    and get_None: "get q = None \<longleftrightarrow> contents q = []"
    and get_Some: "get q = Some (x, q') \<Longrightarrow> contents q = x # contents q'"
begin

lemma get_put: "get q = None \<Longrightarrow> \<exists>q'. get (put x q) = Some (x, q') \<and> contents q' = []"
proof -
  assume "get q = None"
  then have c: "contents (put x q) = [x]" by (simp add: contents_put get_None)
  then obtain y q' where g: "get (put x q) = Some (y, q')"
    by (cases "get (put x q)") (auto simp: get_None)
  then show ?thesis using get_Some [OF g] c by auto
qed

end

interpretation log_queue: fifo Push Pop "\<lambda>q. q"
  by unfold_locales (auto simp: Push_def Pop_def split: list.splits)

datatype LogLevel = INFO | ERROR

record logger =
  m_loglevel :: LogLevel
  m_lckQue :: "bytes list"
  log_file :: "(LogLevel \<times> bytes) list"  \<comment> \<open>the lines written: the tag printed and the message\<close>

definition SetLogLevel :: "LogLevel \<Rightarrow> logger \<Rightarrow> logger" where "SetLogLevel l s = s\<lparr>m_loglevel := l\<rparr>"
definition Log :: "bytes \<Rightarrow> logger \<Rightarrow> logger" where "Log msg s = s\<lparr>m_lckQue := Push msg (m_lckQue s)\<rparr>"

text \<open>\<open>snprintf(c, 1024, ...)\<close> keeps 1023 bytes of the formatted message.\<close>

definition log_message :: "LogLevel \<Rightarrow> bytes \<Rightarrow> logger \<Rightarrow> logger" where
  "log_message l msg s = Log (take 1023 msg) (SetLogLevel l s)"

text \<open>One round of the writing thread: the tag is the level of the last message logged.\<close>

definition write_next :: "logger \<Rightarrow> logger" where
  "write_next s =
     (case Pop (m_lckQue s) of
        None \<Rightarrow> s
      | Some (msg, q) \<Rightarrow> s\<lparr>m_lckQue := q, log_file := log_file s @ [(m_loglevel s, msg)]\<rparr>)"

text \<open>What the threads do, in any order.\<close>

datatype log_action = LogMessage LogLevel bytes | WriteNext

fun log_do :: "log_action \<Rightarrow> logger \<Rightarrow> logger" where
  "log_do (LogMessage l msg) s = log_message l msg s"
| "log_do WriteNext s = write_next s"

definition logger_init :: logger where
  "logger_init = \<lparr>m_loglevel = INFO, m_lckQue = [], log_file = []\<rparr>"

fun logged :: "log_action list \<Rightarrow> bytes list" where
  "logged [] = []"
| "logged (LogMessage l msg # as) = take 1023 msg # logged as"
| "logged (WriteNext # as) = logged as"

lemma logged_append: "logged (xs @ ys) = logged xs @ logged ys"
  by (induction xs rule: logged.induct) auto

lemma log_order: "map snd (log_file s) @ m_lckQue s = msgs \<Longrightarrow>
   map snd (log_file (fold log_do as s)) @ m_lckQue (fold log_do as s) = msgs @ logged as"
proof (induction as arbitrary: s msgs)
  case (Cons a as)
  show ?case
  proof (cases a)
    case (LogMessage l msg)
    then have "map snd (log_file (log_do a s)) @ m_lckQue (log_do a s) = msgs @ [take 1023 msg]"
      using Cons.prems by (simp add: log_message_def Log_def SetLogLevel_def log_queue.contents_put)
    from Cons.IH [OF this] LogMessage show ?thesis by simp
  next
    case WriteNext
    have "map snd (log_file (write_next s)) @ m_lckQue (write_next s) = msgs"
      using Cons.prems log_queue.get_Some [of "m_lckQue s"]
      by (cases "Pop (m_lckQue s)") (auto simp: write_next_def)
    from Cons.IH [OF this] WriteNext show ?thesis by simp
  qed
qed simp

end
