(* ===== verification/ChannelTimer.thy ===== *)
theory ChannelTimer
  imports Channel
begin

text \<open>
  The timer thread of the non-blocking channel and the destructor that stops it (channel.cc:
  \<open>timerLoop\<close>, \<open>~KimRpcChannel\<close>): where the thread is in its loop, next to the channel of theory
  Channel, which the callers and the receive thread go on changing.
\<close>

section \<open>The thread\<close>

text \<open>\<open>TimerFiring\<close>: the lock is released and the callbacks of the expired calls run.\<close>

datatype timer_pc = TimerWaiting | TimerFiring | TimerReturned | TimerJoined

record timed_channel =
  m_timerThread :: timer_pc
  tc_channel :: channel

definition timed_new :: timed_channel where
  "timed_new = \<lparr>m_timerThread = TimerWaiting, tc_channel = KimRpcChannel\<rparr>"

text \<open>The wait is over, by the tick or by the notification. With nothing expired the lock is kept
  and the loop goes on.\<close>

definition timerLoop_wake :: "int \<Rightarrow> timed_channel \<Rightarrow> timed_channel" where
  "timerLoop_wake now s =
     (if \<not> m_timerRunning (tc_channel s) then s\<lparr>m_timerThread := TimerReturned\<rparr>
      else let c = timer_scan now (tc_channel s) in
        s\<lparr>tc_channel := c, m_timerThread := (if timer_taken c = [] then TimerWaiting else TimerFiring)\<rparr>)"

text \<open>One callback; after the last one the lock is taken and the condition of the loop tested.\<close>

definition timerLoop_fire :: "timed_channel \<Rightarrow> timed_channel" where
  "timerLoop_fire s =
     (if timer_taken (tc_channel s) = []
      then s\<lparr>m_timerThread := (if m_timerRunning (tc_channel s) then TimerWaiting else TimerReturned)\<rparr>
      else s\<lparr>tc_channel := timer_next (tc_channel s)\<rparr>)"

inductive timer_thread_step :: "timed_channel \<Rightarrow> timed_channel \<Rightarrow> bool" where
  wake: "m_timerThread s = TimerWaiting \<Longrightarrow> timer_thread_step s (timerLoop_wake now s)"
| fire: "m_timerThread s = TimerFiring \<Longrightarrow> timer_thread_step s (timerLoop_fire s)"

inductive_simps timer_thread_step_simps: "timer_thread_step s t"

text \<open>The destructor up to its \<open>teardown\<close>: the flag, and the join.\<close>

definition destructor_signal :: "timed_channel \<Rightarrow> timed_channel" where
  "destructor_signal s = s\<lparr>tc_channel := (tc_channel s)\<lparr>m_timerRunning := False\<rparr>\<rparr>"

definition destructor_join :: "timed_channel \<Rightarrow> timed_channel" where
  "destructor_join s = s\<lparr>m_timerThread := TimerJoined\<rparr>"

definition destructor_teardown :: "timed_channel \<Rightarrow> timed_channel" where
  "destructor_teardown s = s\<lparr>tc_channel := teardown (tc_channel s)\<rparr>"

text \<open>The other threads take the steps of theory Channel that leave the timer's calls alone.\<close>

inductive timed_step :: "(bytes \<Rightarrow> bool) \<Rightarrow> timed_channel \<Rightarrow> timed_channel \<Rightarrow> bool" for parses where
  others: "fresh_channel_step parses (tc_channel s) c \<Longrightarrow> timer_taken c = timer_taken (tc_channel s) \<Longrightarrow>
    timed_step parses s (s\<lparr>tc_channel := c\<rparr>)"
| timer: "timer_thread_step s t \<Longrightarrow> timed_step parses s t"
| signal: "timed_step parses s (destructor_signal s)"
| join: "m_timerThread s = TimerReturned \<Longrightarrow> timed_step parses s (destructor_join s)"

definition timed_start :: "timed_channel \<Rightarrow> bool" where
  "timed_start s \<longleftrightarrow> s = timed_new"

section \<open>Invariant\<close>

definition timed_ok :: "timed_channel \<Rightarrow> bool" where
  "timed_ok s \<longleftrightarrow> channel_ok (tc_channel s) \<and> (timer_taken (tc_channel s) = [] \<or> m_timerThread s = TimerFiring)"

lemma timer_step_ok:
  assumes "timed_ok s" and "timer_thread_step s t"
  shows "timed_ok t"
  using assms(2)
proof cases
  case (wake now)
  have "channel_ok (timer_scan now (tc_channel s))" if "timer_taken (tc_channel s) = []"
    using that assms(1) scan_ok [of "tc_channel s"] by (simp add: timed_ok_def)
  moreover have "timer_taken (tc_channel s) = []" using assms(1) wake(2) by (simp add: timed_ok_def)
  ultimately show ?thesis
    using assms(1) unfolding wake(1) timerLoop_wake_def Let_def
    by (cases "timer_taken (timer_scan now (tc_channel s)) = []") (simp_all add: timed_ok_def)
next
  case fire
  then show ?thesis
    using assms(1) timer_next_ok [of "tc_channel s"] unfolding fire(1) timerLoop_fire_def
    by (cases "timer_taken (tc_channel s) = []") (simp_all add: timed_ok_def)
qed

lemma timed_step_ok:
  assumes "timed_ok s" and "timed_step parses s t"
  shows "timed_ok t"
  using assms(2)
proof cases
  case (others c)
  then show ?thesis using assms(1) channel_step_ok [of parses "tc_channel s" c] by (auto simp: timed_ok_def fresh_channel_step_def)
next
  case timer
  then show ?thesis using timer_step_ok assms(1) by blast
next
  case signal
  have "channel_ok ((tc_channel s)\<lparr>m_timerRunning := False\<rparr>)"
    by (rule channel_same [of "tc_channel s"]) (use assms(1) in \<open>simp_all add: timed_ok_def owners_def\<close>)
  then show ?thesis using signal assms(1) by (simp add: timed_ok_def destructor_signal_def)
next
  case join
  then show ?thesis using assms(1) by (auto simp: timed_ok_def destructor_join_def)
qed

interpretation timed: inductive_invariant timed_start "timed_step parses" timed_ok for parses
proof
  fix s assume "timed_start s"
  then show "timed_ok s"
    using chan.inv_init [of KimRpcChannel]
    by (simp add: timed_start_def timed_new_def timed_ok_def channel_start_def) (simp add: KimRpcChannel_def)
qed (rule timed_step_ok)

section \<open>Stopping the timer\<close>

fun timer_left :: "timer_pc \<Rightarrow> nat \<Rightarrow> nat" where
  "timer_left TimerWaiting n = 1"
| "timer_left TimerFiring n = n + 1"
| "timer_left TimerReturned n = 0"
| "timer_left TimerJoined n = 0"

definition timer_steps_left :: "timed_channel \<Rightarrow> nat" where
  "timer_steps_left s = timer_left (m_timerThread s) (length (timer_taken (tc_channel s)))"

lemma timer_next_taken: "timer_taken (timer_next c) = tl (timer_taken c)" "m_timerRunning (timer_next c) = m_timerRunning c"
  by (simp_all add: timer_next_def run_failed_def split: list.split)

interpretation timer_thread: stoppable_thread "\<lambda>s. \<not> m_timerRunning (tc_channel s)" timer_thread_step timer_steps_left
proof (unfold_locales, goal_cases)
  case (1 s t)
  from 1(2) show ?case
    by cases (use 1(1) in \<open>auto simp: timerLoop_wake_def timerLoop_fire_def timer_next_taken split: if_splits\<close>)
next
  case (2 s t)
  from 2(2) show ?case
    by cases (use 2(1) in \<open>auto simp: timerLoop_wake_def timerLoop_fire_def timer_next_taken timer_steps_left_def neq_Nil_conv\<close>)
next
  case (3 s)
  then show ?case
    by (cases "m_timerThread s") (auto simp: timer_thread_step_simps timer_steps_left_def)
qed

text \<open>The timer thread changes neither the callers nor what the receive thread holds.\<close>

lemma timer_step_frame:
  assumes "timer_thread_step s t"
  shows "callers (tc_channel t) = callers (tc_channel s) \<and> rx_taken (tc_channel t) = rx_taken (tc_channel s) \<and>
    issued (tc_channel t) = issued (tc_channel s)"
  using assms
  by (auto simp: timer_thread_step_simps timerLoop_wake_def timerLoop_fire_def timer_scan_def timer_next_def
      run_failed_def Let_def split: list.split)

lemma timer_steps_frame:
  assumes "timer_thread_step\<^sup>*\<^sup>* s t"
  shows "callers (tc_channel t) = callers (tc_channel s) \<and> rx_taken (tc_channel t) = rx_taken (tc_channel s) \<and>
    issued (tc_channel t) = issued (tc_channel s)"
  using assms by (induction rule: rtranclp_induct) (auto dest: timer_step_frame)

lemma timer_steps_ok: "timer_thread_step\<^sup>*\<^sup>* s t \<Longrightarrow> timed_ok s \<Longrightarrow> timed_ok t"
  by (induction rule: rtranclp_induct) (auto intro: timer_step_ok)

lemma timer_never_joins: "timer_thread_step\<^sup>*\<^sup>* s t \<Longrightarrow> m_timerThread s \<noteq> TimerJoined \<Longrightarrow> m_timerThread t \<noteq> TimerJoined"
  by (induction rule: rtranclp_induct)
    (auto simp: timer_thread_step_simps timerLoop_wake_def timerLoop_fire_def Let_def split: if_splits)

section \<open>\<open>teardown\<close>\<close>

lemma fail_all_owners:
  "length (fail_taken s) \<le> n \<Longrightarrow> fail_taken (fail_all n s) = [] \<and> owners (fail_all n s) = owners s \<and>
     callers (fail_all n s) = callers s \<and> rx_taken (fail_all n s) = rx_taken s \<and>
     timer_taken (fail_all n s) = timer_taken s \<and> m_pending (fail_all n s) = m_pending s \<and> issued (fail_all n s) = issued s"
proof (induction n arbitrary: s)
  case (Suc n)
  have "length (fail_taken (failAllPending_next s)) \<le> n"
    using Suc.prems by (cases "fail_taken s") (auto simp: failAllPending_next_def run_failed_def)
  from Suc.IH [OF this] show ?case
    by (cases "fail_taken s") (auto simp: failAllPending_next_def run_failed_def owners_def)
qed simp

lemma teardown_completes:
  assumes ok: "channel_ok s" and idle: "callers s = []" "rx_taken s = []" "timer_taken s = []"
  shows "mset (map c_call (completions (teardown s))) = mset [0..<issued s] \<and>
    m_pending (teardown s) = [] \<and> fail_taken (teardown s) = []"
proof -
  let ?s1 = "failAllPending_swap (str ''channel closed'') (s\<lparr>m_running := False, m_clientfd := -1, m_connectedHost := []\<rparr>)"
  have t: "teardown s = fail_all (length (fail_taken ?s1)) ?s1" by (simp add: teardown_def Let_def)
  have "owners ?s1 = owners s"
    by (simp add: owners_def failAllPending_swap_def comp_def split_def)
  moreover have "owners s = mset [0..<issued s]" using ok by (simp add: channel_ok_def)
  moreover note fail_all_owners [of ?s1 "length (fail_taken ?s1)", folded t]
  moreover have "callers ?s1 = []" "rx_taken ?s1 = []" "timer_taken ?s1 = []" "m_pending ?s1 = []"
    using idle by (simp_all add: failAllPending_swap_def)
  ultimately have "owners (teardown s) = mset [0..<issued s]" "fail_taken (teardown s) = []" "m_pending (teardown s) = []"
    "callers (teardown s) = []" "rx_taken (teardown s) = []" "timer_taken (teardown s) = []" by simp_all
  then show ?thesis by (simp add: owners_def)
qed

text \<open>The destructor from the flag on: the thread's rest, and then \<open>teardown\<close>.\<close>

lemma destructor_completes:
  assumes ok: "timed_ok s" and idle: "callers (tc_channel s) = []" "rx_taken (tc_channel s) = []"
    and run: "timer_thread_step\<^sup>*\<^sup>* s t" and ret: "m_timerThread t = TimerReturned"
  shows "mset (map c_call (completions (tc_channel (destructor_teardown (destructor_join t))))) = mset [0..<issued (tc_channel s)] \<and>
    m_pending (tc_channel (destructor_teardown (destructor_join t))) = []"
proof -
  have "channel_ok (tc_channel t)" "timer_taken (tc_channel t) = []"
    using timer_steps_ok [OF run ok] ret by (auto simp: timed_ok_def)
  with timer_steps_frame [OF run] idle show ?thesis
    using teardown_completes [of "tc_channel t"] by (simp add: destructor_teardown_def destructor_join_def)
qed

end
