(* ===== verification/ClientProps.thy ===== *)
theory ClientProps
  imports CallPaths Support ChannelTimer
begin

text \<open>
  The properties of the client channel and of the parts both sides use: every call's callback
  runs exactly once, responses and timeouts reach the right call, what the two blocking call
  paths do, the configuration file and the logger.
\<close>

section \<open>The non-blocking channel\<close>

text \<open>A concrete run for the witnesses: one call, registered at time 100.\<close>

definition demo_caller :: caller where
  "demo_caller = \<lparr>cl_call = 0, cl_id = 1, cl_stage = Allocated, cl_controller = True\<rparr>"

definition demo_slot :: pending where
  "demo_slot = \<lparr>p_call = 0, p_controller = True, p_deadline = Some 5100\<rparr>"

definition demo_called :: channel where
  "demo_called = KimRpcChannel\<lparr>m_nextId := 2, callers := [demo_caller], issued := 1\<rparr>"

definition demo_registered :: channel where
  "demo_registered = demo_called\<lparr>m_pending := [(1, demo_slot)], callers := [demo_caller\<lparr>cl_stage := Registered\<rparr>]\<rparr>"

lemma demo_called_step: "fresh_channel_step parses KimRpcChannel demo_called"
proof -
  have "callAsync_begin True True KimRpcChannel = demo_called"
    by (simp add: callAsync_begin_def KimRpcChannel_def demo_called_def demo_caller_def Let_def)
  then show ?thesis
    using channel_step.call [of parses KimRpcChannel True True] by (simp add: fresh_channel_step_def demo_called_def)
qed

lemma demo_called_reach: "reach channel_start (fresh_channel_step parses) demo_called"
proof (rule reach_step)
  show "reach channel_start (fresh_channel_step parses) KimRpcChannel" by (rule reach_init) (simp add: channel_start_def)
qed (rule demo_called_step)

lemma demo_register: "callAsync_register demo_caller 100 demo_called = demo_registered"
  by (simp add: callAsync_register_def demo_called_def demo_registered_def demo_slot_def demo_caller_def
      KimRpcChannel_def deadline_of_def kDefaultTimeoutMs_def)

lemma demo_registered_step: "fresh_channel_step parses demo_called demo_registered"
proof -
  have "channel_step parses demo_called (callAsync_register demo_caller 100 demo_called)"
    by (rule register) (simp_all add: demo_called_def demo_caller_def)
  then show ?thesis
    by (simp add: fresh_channel_step_def demo_register) (simp add: demo_registered_def demo_called_def)
qed

lemma demo_registered_reach: "reach channel_start (fresh_channel_step parses) demo_registered"
  using demo_called_reach demo_registered_step by (rule reach_step)

text \<open>C13. Every call made is owed by exactly one place, a caller that has not registered it, the
  table, a thread about to run its callback, or the record of callbacks that ran; so no callback
  runs twice, whatever the receive thread, the timer, failing senders and disconnects do. The bound
  is the wrap-around of the 64-bit request id.\<close>

theorem every_call_has_one_owner:
  assumes "reach channel_start (fresh_channel_step parses) s"
  shows "owners s = mset [0..<issued s] \<and> distinct (map c_call (completions s))"
proof -
  have o: "owners s = mset [0..<issued s]" using chan.reach_inv [OF assms] by (simp add: channel_ok_def)
  have "mset (map c_call (completions s)) \<subseteq># owners s" by (simp add: owners_def)
  then have "count (mset (map c_call (completions s))) c \<le> 1" for c
    using count_mset_0_iff mset_subset_eq_count [of "mset (map c_call (completions s))" "owners s" c]
      distinct_count_atmost_1 [of "[0..<issued s]"] by (auto simp: o split: if_splits)
  then have "distinct (map c_call (completions s))"
    by (metis count_eq_zero_iff distinct_count_atmost_1 le_antisym less_one not_less set_mset_mset)
  with o show ?thesis by blast
qed

lemma every_call_has_one_owner_witness: "owners demo_registered = {#0#}"
  using every_call_has_one_owner [OF demo_registered_reach] by (simp add: demo_registered_def demo_called_def)

lemma demo_waiting_step: "fresh_channel_step parses demo_registered (demo_registered\<lparr>callers := []\<rparr>)"
proof -
  let ?cl = "demo_caller\<lparr>cl_stage := Registered\<rparr>"
  have "channel_step parses demo_registered (callAsync_sent ?cl True [] demo_registered)"
    by (rule sent) (simp_all add: demo_registered_def)
  moreover have "callAsync_sent ?cl True [] demo_registered = demo_registered\<lparr>callers := []\<rparr>"
    by (simp add: callAsync_sent_def demo_registered_def Let_def)
  ultimately show ?thesis
    by (simp add: fresh_channel_step_def) (simp add: demo_registered_def demo_called_def)
qed

lemma demo_waiting_reach: "reach channel_start (fresh_channel_step parses) (demo_registered\<lparr>callers := []\<rparr>)"
  using demo_registered_reach demo_waiting_step by (rule reach_step)





text \<open>C15. A timeout is exact: a call registered at time \<open>t\<close> is taken by a scan of the timer thread at
  time \<open>now\<close> if and only if a positive timeout is set and has passed since; the slots that were
  already there are judged by their own deadlines.\<close>

theorem timeout_is_exact:
  assumes "reach channel_start (fresh_channel_step parses) s" and "cl \<in> set (callers s)" and "cl_stage cl = Allocated"
  shows "(cl_id cl \<in> fst ` set (m_pending (timer_scan now (callAsync_register cl t s)))) =
      (m_timeoutMs s \<le> 0 \<or> now < t + m_timeoutMs s) \<and>
    timer_taken (timer_scan now (callAsync_register cl t s)) =
      timer_taken s @ map snd (filter (is_expired now) (m_pending s)) @
      (if 0 < m_timeoutMs s \<and> t + m_timeoutMs s \<le> now
       then [\<lparr>p_call = cl_call cl, p_controller = cl_controller cl, p_deadline = deadline_of (m_timeoutMs s) t\<rparr>] else [])"
proof -
  have "slots_ok s" using chan.reach_inv [OF assms(1)] by (simp add: channel_ok_def)
  then have new: "cl_id cl \<notin> set (map fst (m_pending s))"
    using slots_okD(5) [OF _ assms(2)] assms(3) by (simp add: caller_ok_def)
  let ?p = "\<lparr>p_call = cl_call cl, p_controller = cl_controller cl, p_deadline = deadline_of (m_timeoutMs s) t\<rparr>"
  have reg: "m_pending (callAsync_register cl t s) = m_pending s @ [(cl_id cl, ?p)]"
    "timer_taken (callAsync_register cl t s) = timer_taken s"
    using update_fresh [OF new] by (simp_all add: callAsync_register_def)
  have "is_expired now (cl_id cl, ?p) = (0 < m_timeoutMs s \<and> t + m_timeoutMs s \<le> now)"
    by (simp add: is_expired_def deadline_of_def)
  with new show ?thesis by (auto simp: timer_scan_def reg)
qed

lemma timeout_is_exact_witness: "m_pending (timer_scan 5100 (callAsync_register demo_caller 100 demo_called)) = []"
  using timeout_is_exact [OF demo_called_reach, of demo_caller 5100 100]
  by (simp add: demo_called_def demo_caller_def KimRpcChannel_def callAsync_register_def deadline_of_def
      kDefaultTimeoutMs_def timer_scan_def is_expired_def)





section \<open>The blocking call paths\<close>

text \<open>A blocking call that succeeds has sent the request frame, whole, and returns the body its slot
  received; one that fails with an error about the request or the address has sent nothing.\<close>

theorem blocking_call_outcome:
  "case CallMethod_blocking pb parses svc mth rid args addr connect_ok slot s of
     (Inr body, s') \<Rightarrow> slot = Some body \<and> parses body \<and>
       (\<exists>frame. build_request pb svc mth rid args = Inr frame \<and> outgoing s' = outgoing s @ frame)
   | (Inl e, s') \<Rightarrow> (case e of
       SerializeRequest \<Rightarrow> s' = s | SerializeHeader \<Rightarrow> s' = s | AddressError _ \<Rightarrow> s' = s | ConnectError _ \<Rightarrow> s' = s
     | _ \<Rightarrow> \<exists>frame k. build_request pb svc mth rid args = Inr frame \<and> outgoing s' = outgoing s @ take k frame)"
proof (cases "build_request pb svc mth rid args")
  case (Inl e)
  then show ?thesis
    by (auto simp: CallMethod_blocking_def build_request_def split: option.splits)
next
  case (Inr frame)
  obtain ok s1 where s1: "sendLocked frame s = (ok, s1)" by fastforce
  then obtain k where k: "outgoing s1 = outgoing s @ take k frame" "ok = (k = length frame)"
    using posix_writer.send_loop_sent [of frame s ok s1] by (auto simp: sendLocked_def)
  have "\<exists>k. frame = take k frame" by (rule exI [of _ "length frame"]) simp
  then show ?thesis
    using k by (auto simp: CallMethod_blocking_def blocking_result_def Inr s1 split: sum.split option.split)
qed

text \<open>C39. The io_uring channel does not speak the protocol of the servers: it never sets a request id,
  and when it succeeds against a server that answers with a frame, the message it hands to protobuf is
  the eight bytes of the id followed by the body.\<close>

theorem uring_call_parses_id_as_message:
  assumes "CallMethod_uring pb parses svc mth args addr newfd ip_ok res client = (Inr msg, client')"
    and "incoming (u_sock client) = response_frame rid body" and "body_fits body"
  shows "msg = le64 rid @ body"
  by (rule CallMethod_uring_message [OF assms])

lemma uring_call_parses_id_as_message_witness:
  fixes client
  defines "client \<equiv> \<lparr>m_fd = -1, m_ringReady = True,
      u_sock = \<lparr>incoming = response_frame 5 [6], outgoing = [], results = [100, 100, 100]\<rparr>,
      u_io = replicate 4 \<lparr>io_sqe = True, io_submit = 1, io_wait = 0\<rparr>, u_error = None, u_closed = []\<rparr>"
  shows "fst (CallMethod_uring \<lparr>parse_header = (\<lambda>_. None), serialize_header = (\<lambda>_. Some [8]), parse_request = (\<lambda>_ _. None)\<rparr>
      (\<lambda>_. True) [1] [2] (Some [3]) (Inr (str ''h:1'')) 4 True 0 client) = Inr (le64 5 @ [6])"
proof -
  let ?pb = "\<lparr>parse_header = (\<lambda>_. None), serialize_header = (\<lambda>_. Some [8]), parse_request = (\<lambda>_ _. None)\<rparr> :: protobuf"
  let ?c = "\<lambda>fd io inc out res. \<lparr>m_fd = fd, m_ringReady = True,
      u_sock = \<lparr>incoming = inc, outgoing = out, results = res\<rparr>,
      u_io = replicate io \<lparr>io_sqe = True, io_submit = 1, io_wait = 0\<rparr>, u_error = None, u_closed = []\<rparr>"
  let ?r = "response_frame 5 [6]" and ?f = "request_frame [8] [3]"
  have host: "parse_host (str ''h:1'') = Host (str ''h'') 1"
    by (simp add: parse_host_def stoll_def is_space_def is_digit_def digits_value_def Let_def)
  have b: "build_request ?pb [1] [2] 0 (Some [3]) = Inr ?f" by (simp add: build_request_def make_request_def)
  have len: "length ?f = 6" by (simp add: request_frame_def)
  have ne: "?f \<noteq> []" by (rule notI) (use len in simp)
  have c: "Connect 4 True 0 (?c (-1) 4 ?r [] [100, 100, 100]) = (True, ?c 4 3 ?r [] [100, 100, 100])"
    by (simp add: Connect_def next_io_def waitUringResult_def numeral_eq_Suc)
  have w: "WriteAll ?f (?c 4 3 ?r [] [100, 100, 100]) = (True, ?c 4 2 ?r ?f [100, 100])"
    using len ne by (simp add: WriteAll_def send_loop.simps uring_send_def next_io_def sys_send_def next_result_def
        waitUringResult_def numeral_3_eq_3 numeral_2_eq_2)
  have r1: "ReadExact 4 (?c 4 2 ?r ?f [100, 100]) = (True, le32 9, ?c 4 1 (le64 5 @ [6]) ?f [100])"
    by (simp add: ReadExact_def recv_loop.simps uring_recv_def next_io_def sys_recv_def next_result_def
        waitUringResult_def response_frame_def numeral_2_eq_2)
  have r2: "ReadExact 9 (?c 4 1 (le64 5 @ [6]) ?f [100]) = (True, le64 5 @ [6], ?c 4 0 [] ?f [])"
    by (simp add: ReadExact_def recv_loop.simps uring_recv_def next_io_def sys_recv_def next_result_def waitUringResult_def)
  have n: "rd32 (le32 9) = 9" using rd32_le32 [of 9 "[]"] by simp
  have "CallMethod_uring ?pb (\<lambda>_. True) [1] [2] (Some [3]) (Inr (str ''h:1'')) 4 True 0 client =
      (Inr (le64 5 @ [6]), ?c 4 0 [] ?f [])"
    unfolding client_def CallMethod_uring_def b sum.case host host.case c w Let_def prod.case r1 n
    using r2 by simp
  then show ?thesis
    using uring_call_parses_id_as_message [of ?pb "\<lambda>_. True" "[1]" "[2]" "Some [3]" "Inr (str ''h:1'')" 4 True 0 client
        "le64 5 @ [6]" "?c 4 0 [] ?f []" 5 "[6]"]
    by simp
qed

section \<open>Configuration and logger\<close>

lemma config_entries:
  assumes "\<forall>(sp, kv)\<in>set es. entry_ok kv \<and> length (entry_line sp kv) \<le> 511"
  shows "fold config_line (config_lines (concat (map (\<lambda>(sp, kv). entry_line sp kv) es))) m =
    fold (\<lambda>(sp, kv). map_insert (fst kv) (snd kv)) es m"
  using assms
proof (induction es arbitrary: m)
  case Nil
  show ?case by (subst config_lines.simps) (simp add: config_line_def trim_def)
next
  case (Cons e es)
  obtain sp kv where e: "e = (sp, kv)" by (rule prod.exhaust)
  with Cons.prems have "entry_ok kv" "length (entry_line sp kv) \<le> 511" by auto
  then show ?case using Cons by (simp add: e config_lines_entry config_line_entry)
qed

lemma fold_map_insert:
  "map_of (fold (\<lambda>(sp, kv). map_insert (fst kv) (snd kv)) es m) k =
     (case map_of m k of Some v \<Rightarrow> Some v | None \<Rightarrow> map_of (map snd es) k)"
proof (induction es arbitrary: m)
  case (Cons e es)
  then show ?case by (cases e) (auto simp: map_of_map_insert split: option.split)
qed (simp split: option.split)

text \<open>A configuration file of \<open>key=value\<close> lines, with any blanks around keys and values, is read
  back: every key has its value, the first line for a key wins, other keys are empty.\<close>

theorem config_file_is_read_back:
  assumes "\<forall>(sp, kv)\<in>set es. entry_ok kv \<and> length (entry_line sp kv) \<le> 511"
  shows "load (loadConfigFile (concat (map (\<lambda>(sp, kv). entry_line sp kv) es)) []) key =
    (case map_of (map snd es) key of Some v \<Rightarrow> v | None \<Rightarrow> [])"
  by (simp add: load_def loadConfigFile_def config_entries [OF assms] fold_map_insert)

lemma config_file_is_read_back_witness:
  "load (loadConfigFile (str ''a = b'' @ [0x0a] @ str ''a=c'' @ [0x0a]) []) (str ''a'') = str ''b''"
  using config_file_is_read_back [of "[((0, 1, 1, 0), (str ''a'', str ''b'')), ((0, 0, 0, 0), (str ''a'', str ''c''))]" "str ''a''"]
  by (simp add: entry_ok_def no_outer_space_def entry_line_def)

text \<open>The logger loses and reorders nothing: whatever the threads do, the lines written followed by
  the queue are the messages logged, cut to 1023 bytes, in the order they were logged.\<close>

theorem log_lines_in_order:
  "map snd (log_file (fold log_do as logger_init)) @ m_lckQue (fold log_do as logger_init) = logged as"
  using log_order [of logger_init "[]" as] by (simp add: logger_init_def)

text \<open>The tag of a line is the level of the last message logged before it is written, so an error
  can be written as information.\<close>

theorem error_can_be_written_as_info:
  "log_file (fold log_do [LogMessage ERROR m, LogMessage INFO m', WriteNext] logger_init) = [(INFO, take 1023 m)]"
  by (simp add: logger_init_def log_message_def Log_def SetLogLevel_def Push_def write_next_def Pop_def)

end
