(* ===== verification/BlockingChannel.thy ===== *)
theory BlockingChannel
  imports CallPaths
begin

text \<open>
  \<open>KimRpcChannel\<close> in its blocking build (channel.cc without \<open>KIMRPC_ASYNC_CLIENT\<close>): the
  calling threads and the receive thread share the table of waiting calls. A slot (\<open>Pending\<close>)
  lives on the stack of its call, and the table holds pointers to slots. A slot's address is the
  number of its call; \<open>frames\<close> maps the addresses of live slots, and a call that returns removes
  its own. \<open>b_fault\<close> is set when a pointer to a slot that is gone is followed, and when
  \<open>set_value\<close> is called on a promise that already has a value, which throws. A critical section
  of \<open>m_pendingMtx\<close> is one step; the connection is that of theory Channel.
\<close>

section \<open>State\<close>

record slot =
  response_buf :: bytes
  prom :: "bool option"  \<comment> \<open>the value of the promise, once it is set\<close>

datatype bstage = Drawn | SendingRequest | AwaitingResponse | SendFailed

text \<open>A thread inside \<open>CallMethod\<close>, after it drew its \<open>request_id\<close>.\<close>

record bcaller =
  bc_call :: nat
  bc_id :: u64
  bc_stage :: bstage

record returned =
  rt_call :: nat
  rt_id :: "u64 option"
  rt_result :: "(call_error, bytes) sum"

record blocking_channel = connection_state +
  b_nextId :: u64
  b_pending :: "(u64 \<times> nat) list"
  frames :: "nat \<rightharpoonup> slot"
  b_callers :: "bcaller list"
  b_rx_taken :: "(nat \<times> bytes) list"
  b_fail_taken :: "nat list"
  arrived :: "(u64 \<times> bytes) list"
  b_returned :: "returned list"
  b_issued :: nat
  b_fault :: bool

definition KimRpcChannel_blocking :: blocking_channel where
  "KimRpcChannel_blocking =
     \<lparr>m_clientfd = -1, m_connectedHost = [], m_running = False, rx = RxNone, b_nextId = 1, b_pending = [],
      frames = Map.empty, b_callers = [], b_rx_taken = [], b_fail_taken = [], arrived = [],
      b_returned = [], b_issued = 0, b_fault = False\<rparr>"

section \<open>\<open>CallMethod\<close>\<close>

definition b_return :: "nat \<Rightarrow> u64 option \<Rightarrow> (call_error, bytes) sum \<Rightarrow> blocking_channel \<Rightarrow> blocking_channel" where
  "b_return c i r s = s\<lparr>b_returned := b_returned s @ [\<lparr>rt_call = c, rt_id = i, rt_result = r\<rparr>]\<rparr>"

text \<open>Entry: the arguments do not serialise, or a \<open>request_id\<close> is drawn.\<close>

definition CallMethod_begin :: "bool \<Rightarrow> blocking_channel \<Rightarrow> blocking_channel" where
  "CallMethod_begin serialized s =
     (let c = b_issued s; s1 = s\<lparr>b_issued := Suc c\<rparr> in
      if \<not> serialized then b_return c None (Inl SerializeRequest) s1
      else s1\<lparr>b_nextId := b_nextId s + 1,
              b_callers := b_callers s @ [\<lparr>bc_call = c, bc_id = b_nextId s, bc_stage = Drawn\<rparr>]\<rparr>)"

text \<open>The call returns: its stack frame, and with it the slot, is gone.\<close>

definition CallMethod_leave :: "bcaller \<Rightarrow> (call_error, bytes) sum \<Rightarrow> blocking_channel \<Rightarrow> blocking_channel" where
  "CallMethod_leave cl r s =
     b_return (bc_call cl) (Some (bc_id cl)) r
       (s\<lparr>b_callers := remove1 cl (b_callers s), frames := (frames s)(bc_call cl := None)\<rparr>)"

text \<open>The errors before the slot is registered.\<close>

fun early_error :: "call_error \<Rightarrow> bool" where
  "early_error SerializeHeader = True"
| "early_error (AddressError _) = True"
| "early_error (ConnectError _) = True"
| "early_error PortThrows = True"
| "early_error _ = False"

definition set_stage :: "bcaller \<Rightarrow> bstage \<Rightarrow> blocking_channel \<Rightarrow> blocking_channel" where
  "set_stage cl st s = s\<lparr>b_callers := map (\<lambda>x. if x = cl then cl\<lparr>bc_stage := st\<rparr> else x) (b_callers s)\<rparr>"

definition CallMethod_register :: "bcaller \<Rightarrow> blocking_channel \<Rightarrow> blocking_channel" where
  "CallMethod_register cl s =
     set_stage cl SendingRequest
       (s\<lparr>frames := (frames s)(bc_call cl \<mapsto> \<lparr>response_buf = [], prom = None\<rparr>),
          b_pending := AList.update (bc_id cl) (bc_call cl) (b_pending s)\<rparr>)"

text \<open>
  The send returned. On failure the slot is withdrawn and the call returns; when the slot is no
  longer in the table the call first waits for the thread that took it.
\<close>

definition CallMethod_sent :: "bcaller \<Rightarrow> bool \<Rightarrow> blocking_channel \<Rightarrow> blocking_channel" where
  "CallMethod_sent cl ok s =
     (if ok then set_stage cl AwaitingResponse s
      else (case map_of (b_pending s) (bc_id cl) of
              Some _ \<Rightarrow>
                CallMethod_leave cl (Inl (SendError None))
                  (s\<lparr>b_pending := AList.delete (bc_id cl) (b_pending s)\<rparr>)
            | None \<Rightarrow> set_stage cl SendFailed s))"

text \<open>\<open>fut.get()\<close> and what follows it; without a value the thread stays blocked.\<close>

definition CallMethod_finish :: "(bytes \<Rightarrow> bool) \<Rightarrow> bcaller \<Rightarrow> blocking_channel \<Rightarrow> blocking_channel" where
  "CallMethod_finish parses cl s =
     (case frames s (bc_call cl) of
        None \<Rightarrow> s\<lparr>b_fault := True\<rparr>
      | Some sl \<Rightarrow>
          (case prom sl of
             None \<Rightarrow> s
           | Some ok \<Rightarrow>
               CallMethod_leave cl
                 (if bc_stage cl = SendFailed then Inl (SendError None)
                  else blocking_result parses (if ok then Some (response_buf sl) else None)) s))"

section \<open>The receive thread\<close>

definition set_value :: "nat \<Rightarrow> bool \<Rightarrow> blocking_channel \<Rightarrow> blocking_channel" where
  "set_value ptr v s =
     (case frames s ptr of
        None \<Rightarrow> s\<lparr>b_fault := True\<rparr>
      | Some sl \<Rightarrow>
          if prom sl \<noteq> None then s\<lparr>b_fault := True\<rparr>
          else s\<lparr>frames := (frames s)(ptr \<mapsto> sl\<lparr>prom := Some v\<rparr>)\<rparr>)"

definition set_response_buf :: "nat \<Rightarrow> bytes \<Rightarrow> blocking_channel \<Rightarrow> blocking_channel" where
  "set_response_buf ptr body s =
     (case frames s ptr of
        None \<Rightarrow> s\<lparr>b_fault := True\<rparr>
      | Some sl \<Rightarrow> s\<lparr>frames := (frames s)(ptr \<mapsto> sl\<lparr>response_buf := body\<rparr>)\<rparr>)"

definition b_dispatch :: "u64 \<Rightarrow> bytes \<Rightarrow> blocking_channel \<Rightarrow> blocking_channel" where
  "b_dispatch i body s =
     (let s1 = s\<lparr>arrived := arrived s @ [(i, body)]\<rparr> in
      case map_of (b_pending s) i of
        None \<Rightarrow> s1
      | Some ptr \<Rightarrow> s1\<lparr>b_pending := AList.delete i (b_pending s), b_rx_taken := b_rx_taken s @ [(ptr, body)]\<rparr>)"

definition b_respond :: "blocking_channel \<Rightarrow> blocking_channel" where
  "b_respond s =
     (case b_rx_taken s of
        [] \<Rightarrow> s
      | (ptr, body) # ts \<Rightarrow> set_value ptr True (set_response_buf ptr body (s\<lparr>b_rx_taken := ts\<rparr>)))"

text \<open>\<open>failAllPending\<close>: the table is swapped out, then the promises are set one by one.\<close>

definition b_fail_swap :: "blocking_channel \<Rightarrow> blocking_channel" where
  "b_fail_swap s = s\<lparr>b_pending := [], b_fail_taken := b_fail_taken s @ map snd (b_pending s)\<rparr>"

definition b_fail_next :: "blocking_channel \<Rightarrow> blocking_channel" where
  "b_fail_next s =
     (case b_fail_taken s of
        [] \<Rightarrow> s
      | ptr # ts \<Rightarrow> set_value ptr False (s\<lparr>b_fail_taken := ts\<rparr>))"

definition b_recvLoop_exit :: "blocking_channel \<Rightarrow> blocking_channel" where
  "b_recvLoop_exit s = b_fail_swap (s\<lparr>m_running := False, rx := RxStopping\<rparr>)"

fun b_fail_all :: "nat \<Rightarrow> blocking_channel \<Rightarrow> blocking_channel" where
  "b_fail_all 0 s = s"
| "b_fail_all (Suc n) s = b_fail_all n (b_fail_next s)"

text \<open>\<open>teardown\<close>, after the receive thread was joined.\<close>

definition b_teardown :: "blocking_channel \<Rightarrow> blocking_channel" where
  "b_teardown s =
     (let s1 = b_fail_swap (s\<lparr>m_running := False, m_clientfd := -1, m_connectedHost := []\<rparr>)
      in b_fail_all (length (b_fail_taken s1)) s1)"

section \<open>The threads, interleaved\<close>

inductive blocking_step :: "(bytes \<Rightarrow> bool) \<Rightarrow> blocking_channel \<Rightarrow> blocking_channel \<Rightarrow> bool" for parses where
  b_call: "blocking_step parses s (CallMethod_begin serialized s)"
| b_abort: "cl \<in> set (b_callers s) \<Longrightarrow> bc_stage cl = Drawn \<Longrightarrow> early_error e \<Longrightarrow>
    blocking_step parses s (CallMethod_leave cl (Inl e) s)"
| b_disconnect: "blocking_step parses s (ensureConnected_close s)"
| b_connect: "rx s = RxNone \<Longrightarrow> ensureConnected_open host_data fd s = (ok, t) \<Longrightarrow> blocking_step parses s t"
| b_register: "cl \<in> set (b_callers s) \<Longrightarrow> bc_stage cl = Drawn \<Longrightarrow>
    blocking_step parses s (CallMethod_register cl s)"
| b_sent: "cl \<in> set (b_callers s) \<Longrightarrow> bc_stage cl = SendingRequest \<Longrightarrow>
    blocking_step parses s (CallMethod_sent cl ok s)"
| b_finish: "cl \<in> set (b_callers s) \<Longrightarrow> bc_stage cl \<in> {AwaitingResponse, SendFailed} \<Longrightarrow>
    blocking_step parses s (CallMethod_finish parses cl s)"
| b_frame: "rx s = RxReading \<Longrightarrow> b_rx_taken s = [] \<Longrightarrow> blocking_step parses s (b_dispatch i body s)"
| b_response: "blocking_step parses s (b_respond s)"
| b_rx_exit: "rx s = RxReading \<Longrightarrow> b_rx_taken s = [] \<Longrightarrow> blocking_step parses s (b_recvLoop_exit s)"
| b_failed: "blocking_step parses s (b_fail_next s)"
| b_rx_end: "rx s = RxStopping \<Longrightarrow> b_fail_taken s = [] \<Longrightarrow> blocking_step parses s (s\<lparr>rx := RxNone\<rparr>)"

definition fresh_blocking_step :: "(bytes \<Rightarrow> bool) \<Rightarrow> blocking_channel \<Rightarrow> blocking_channel \<Rightarrow> bool" where
  "fresh_blocking_step parses s t \<longleftrightarrow> blocking_step parses s t \<and> b_nextId t \<noteq> 0"

definition blocking_start :: "blocking_channel \<Rightarrow> bool" where
  "blocking_start s \<longleftrightarrow> s = KimRpcChannel_blocking"

section \<open>The invariant\<close>

definition unset :: "blocking_channel \<Rightarrow> nat \<Rightarrow> bool" where
  "unset s c \<longleftrightarrow> (case frames s c of None \<Rightarrow> False | Some sl \<Rightarrow> prom sl = None)"

text \<open>The pointers to slots: in the table, or in the hands of the receive thread.\<close>

definition held_slots :: "blocking_channel \<Rightarrow> nat list" where
  "held_slots s = map snd (b_pending s) @ map fst (b_rx_taken s) @ b_fail_taken s"

definition table_ok :: "blocking_channel \<Rightarrow> bool" where
  "table_ok s \<longleftrightarrow> \<not> b_fault s \<and> distinct (held_slots s) \<and> (\<forall>c. c \<in> set (held_slots s) \<longleftrightarrow> unset s c)"

definition b_calls_ok :: "blocking_channel \<Rightarrow> bool" where
  "b_calls_ok s \<longleftrightarrow>
     mset (map bc_call (b_callers s)) + mset (map rt_call (b_returned s)) = mset [0..<b_issued s] \<and>
     (\<forall>c. frames s c \<noteq> None \<longleftrightarrow> (\<exists>cl\<in>set (b_callers s). bc_call cl = c \<and> bc_stage cl \<noteq> Drawn))"

definition b_ids_ok :: "blocking_channel \<Rightarrow> bool" where
  "b_ids_ok s \<longleftrightarrow>
     distinct (map fst (b_pending s)) \<and> distinct (map bc_id (b_callers s)) \<and>
     (\<forall>cl\<in>set (b_callers s). bc_id cl < b_nextId s) \<and>
     (\<forall>(i, c)\<in>set (b_pending s). \<exists>cl\<in>set (b_callers s). bc_id cl = i \<and> bc_call cl = c)"

text \<open>A body in a slot, or returned by a call, came in a frame with the id of the call.\<close>

definition answers_ok :: "(bytes \<Rightarrow> bool) \<Rightarrow> blocking_channel \<Rightarrow> bool" where
  "answers_ok parses s \<longleftrightarrow>
     (\<forall>(c, b)\<in>set (b_rx_taken s). \<exists>cl\<in>set (b_callers s). bc_call cl = c \<and> (bc_id cl, b) \<in> set (arrived s)) \<and>
     (\<forall>cl\<in>set (b_callers s). \<forall>sl. frames s (bc_call cl) = Some sl \<longrightarrow> prom sl = Some True \<longrightarrow>
        (bc_id cl, response_buf sl) \<in> set (arrived s)) \<and>
     (\<forall>r\<in>set (b_returned s). \<forall>b. rt_result r = Inr b \<longrightarrow>
        parses b \<and> (\<exists>i. rt_id r = Some i \<and> (i, b) \<in> set (arrived s)))"

definition blocking_ok :: "(bytes \<Rightarrow> bool) \<Rightarrow> blocking_channel \<Rightarrow> bool" where
  "blocking_ok parses s \<longleftrightarrow> table_ok s \<and> b_calls_ok s \<and> b_ids_ok s \<and> answers_ok parses s"

lemmas blocking_defs = blocking_ok_def table_ok_def b_calls_ok_def b_ids_ok_def answers_ok_def

lemma distinct_calls: "b_calls_ok s \<Longrightarrow> distinct (map bc_call (b_callers s))"
  unfolding b_calls_ok_def by (metis distinct_append distinct_upt mset_append mset_eq_imp_distinct_iff)

lemma call_inj:
  "b_calls_ok s \<Longrightarrow> x \<in> set (b_callers s) \<Longrightarrow> y \<in> set (b_callers s) \<Longrightarrow> bc_call x = bc_call y \<Longrightarrow> x = y"
  using distinct_calls [of s] by (auto simp: distinct_map dest: inj_onD)

lemma bc_id_inj:
  "b_ids_ok s \<Longrightarrow> x \<in> set (b_callers s) \<Longrightarrow> y \<in> set (b_callers s) \<Longrightarrow> bc_id x = bc_id y \<Longrightarrow> x = y"
  by (auto simp: b_ids_ok_def distinct_map dest: inj_onD)

lemma distinct_callers: "b_ids_ok s \<Longrightarrow> distinct (b_callers s)"
  by (simp add: b_ids_ok_def distinct_map)

lemma call_issued: "b_calls_ok s \<Longrightarrow> cl \<in> set (b_callers s) \<Longrightarrow> bc_call cl < b_issued s"
proof -
  assume "b_calls_ok s" and cl: "cl \<in> set (b_callers s)"
  then have "bc_call cl \<in># mset [0..<b_issued s]"
    unfolding b_calls_ok_def by (metis image_eqI list.set_map set_mset_mset union_iff)
  then show ?thesis by simp
qed

text \<open>A slot in the table belongs to the call with the id of its entry.\<close>

lemma entry_owner:
  assumes "b_ids_ok s" and "cl \<in> set (b_callers s)" and "map_of (b_pending s) (bc_id cl) = Some c"
  shows "c = bc_call cl"
proof -
  have "(bc_id cl, c) \<in> set (b_pending s)" using assms(3) by (rule map_of_SomeD)
  then obtain x where "x \<in> set (b_callers s)" "bc_id x = bc_id cl" "bc_call x = c"
    using assms(1) by (auto simp: b_ids_ok_def)
  then show ?thesis using bc_id_inj [OF assms(1) _ assms(2)] by blast
qed

lemma drawn_not_held:
  assumes ok: "blocking_ok parses s" and cl: "cl \<in> set (b_callers s)" "bc_stage cl = Drawn"
  shows "frames s (bc_call cl) = None" "bc_call cl \<notin> set (held_slots s)" "bc_id cl \<notin> set (map fst (b_pending s))"
proof -
  show f: "frames s (bc_call cl) = None"
    using ok cl call_inj [of s _ cl] unfolding blocking_ok_def b_calls_ok_def by blast
  then show h: "bc_call cl \<notin> set (held_slots s)" using ok by (simp add: blocking_ok_def table_ok_def unset_def)
  have ids: "b_ids_ok s" using ok by (simp add: blocking_ok_def)
  have c: "map_of (b_pending s) (bc_id cl) = Some c \<Longrightarrow> bc_call cl \<in> set (held_slots s)" for c
    using entry_owner [OF ids cl(1)] by (force simp: held_slots_def dest: map_of_SomeD)
  then show "bc_id cl \<notin> set (map fst (b_pending s))"
    using h by (metis map_of_eq_None_iff not_None_eq list.set_map)
qed

section \<open>Every step keeps it\<close>

text \<open>A call returns: its slot is in nobody's hands.\<close>

lemma leave_ok:
  assumes ok: "b_calls_ok s" "b_ids_ok s" "answers_ok parses s"
    and t: "\<not> b_fault s" "distinct (held_slots s)"
      "\<forall>c. c \<in> set (held_slots s) \<longleftrightarrow> unset s c \<and> c \<noteq> bc_call cl"
    and cl: "cl \<in> set (b_callers s)"
    and r: "\<And>b. r = Inr b \<Longrightarrow> parses b \<and> (bc_id cl, b) \<in> set (arrived s)"
  shows "blocking_ok parses (CallMethod_leave cl r s)"
proof -
  let ?t = "CallMethod_leave cl r s"
  have f: "b_callers ?t = remove1 cl (b_callers s)" "frames ?t = (frames s)(bc_call cl := None)"
    "b_returned ?t = b_returned s @ [\<lparr>rt_call = bc_call cl, rt_id = Some (bc_id cl), rt_result = r\<rparr>]"
    "b_pending ?t = b_pending s" "b_rx_taken ?t = b_rx_taken s" "b_fault ?t = b_fault s" "arrived ?t = arrived s"
    "b_issued ?t = b_issued s" "held_slots ?t = held_slots s" "b_nextId ?t = b_nextId s"
    by (simp_all add: CallMethod_leave_def b_return_def held_slots_def)
  have rm: "set (remove1 cl (b_callers s)) = set (b_callers s) - {cl}"
    by (rule set_remove1_eq [OF distinct_callers [OF ok(2)]])
  have "table_ok ?t" using t by (auto simp: table_ok_def f unset_def)
  moreover have "b_calls_ok ?t"
  proof -
    have "mset (map bc_call (b_callers s)) = add_mset (bc_call cl) (mset (map bc_call (remove1 cl (b_callers s))))"
      using cl by (rule mset_map_remove1)
    then show ?thesis using ok(1) call_inj [OF ok(1) _ cl] by (auto simp: b_calls_ok_def f rm)
  qed
  moreover have "b_ids_ok ?t"
  proof -
    have "\<exists>x\<in>set (b_callers s) - {cl}. bc_id x = i \<and> bc_call x = c" if e: "(i, c) \<in> set (b_pending s)" for i c
    proof -
      obtain x where x: "x \<in> set (b_callers s)" "bc_id x = i" "bc_call x = c" using ok(2) e by (fastforce simp: b_ids_ok_def)
      moreover have "c \<noteq> bc_call cl" using t(3) e by (force simp: held_slots_def)
      ultimately show ?thesis by auto
    qed
    moreover have "distinct (map bc_id (remove1 cl (b_callers s)))"
      using ok(2) by (auto simp: b_ids_ok_def distinct_map intro: inj_on_subset dest: notin_set_remove1 set_remove1_subset [THEN subsetD])
    ultimately show ?thesis using ok(2) by (auto simp: b_ids_ok_def f rm)
  qed
  moreover have "answers_ok parses ?t"
  proof -
    have "\<exists>x\<in>set (b_callers s) - {cl}. bc_call x = c \<and> (bc_id x, b) \<in> set (arrived s)"
      if e: "(c, b) \<in> set (b_rx_taken s)" for c b
    proof -
      obtain x where "x \<in> set (b_callers s)" "bc_call x = c" "(bc_id x, b) \<in> set (arrived s)"
        using ok(3) e by (fastforce simp: answers_ok_def)
      moreover have "c \<noteq> bc_call cl" using t(3) e by (force simp: held_slots_def)
      ultimately show ?thesis by auto
    qed
    then show ?thesis using ok(3) r by (auto simp: answers_ok_def f rm)
  qed
  ultimately show ?thesis by (simp add: blocking_ok_def)
qed

lemma set_stage_callers:
  assumes "cl \<in> set (b_callers s)"
  shows "map bc_call (b_callers (set_stage cl st s)) = map bc_call (b_callers s)"
    "map bc_id (b_callers (set_stage cl st s)) = map bc_id (b_callers s)"
    "set (b_callers (set_stage cl st s)) = insert (cl\<lparr>bc_stage := st\<rparr>) (set (b_callers s) - {cl})"
  using assms by (auto simp: set_stage_def)

lemma set_stage_fields [simp]:
  "frames (set_stage cl st s) = frames s" "b_returned (set_stage cl st s) = b_returned s"
  "b_pending (set_stage cl st s) = b_pending s" "b_rx_taken (set_stage cl st s) = b_rx_taken s"
  "b_fail_taken (set_stage cl st s) = b_fail_taken s" "b_fault (set_stage cl st s) = b_fault s"
  "arrived (set_stage cl st s) = arrived s" "b_issued (set_stage cl st s) = b_issued s"
  "b_nextId (set_stage cl st s) = b_nextId s"
  by (simp_all add: set_stage_def)

lemma set_stage_keeps:
  assumes cl: "cl \<in> set (b_callers s)"
  shows "b_ids_ok s \<Longrightarrow> b_ids_ok (set_stage cl st s)" "answers_ok parses s \<Longrightarrow> answers_ok parses (set_stage cl st s)"
    "table_ok (set_stage cl st s) = table_ok s"
proof -
  have old: "\<exists>y\<in>set (b_callers (set_stage cl st s)). bc_id y = bc_id x \<and> bc_call y = bc_call x"
    if "x \<in> set (b_callers s)" for x
    using that by (cases "x = cl") (auto simp: set_stage_callers(3) [OF cl])
  have new: "\<exists>x\<in>set (b_callers s). bc_id y = bc_id x \<and> bc_call y = bc_call x"
    if "y \<in> set (b_callers (set_stage cl st s))" for y
    using that cl by (auto simp: set_stage_callers(3) [OF cl])
  show "table_ok (set_stage cl st s) = table_ok s" by (simp add: table_ok_def held_slots_def unset_def)
  show "b_ids_ok (set_stage cl st s)" if "b_ids_ok s"
    using that old new unfolding b_ids_ok_def set_stage_callers(2) [OF cl] set_stage_fields by fastforce
  show "answers_ok parses (set_stage cl st s)" if "answers_ok parses s"
    using that old new unfolding answers_ok_def set_stage_fields by fastforce
qed

lemma b_begin_ok:
  assumes ok: "blocking_ok parses s" and room: "b_nextId (CallMethod_begin ser s) \<noteq> 0"
  shows "blocking_ok parses (CallMethod_begin ser s)"
proof (cases ser)
  case False
  then show ?thesis using ok
    by (auto simp: blocking_defs CallMethod_begin_def b_return_def Let_def held_slots_def unset_def)
next
  case True
  let ?t = "CallMethod_begin ser s" and ?n = "b_nextId s"
  have f: "b_callers ?t = b_callers s @ [\<lparr>bc_call = b_issued s, bc_id = ?n, bc_stage = Drawn\<rparr>]"
    "frames ?t = frames s" "b_returned ?t = b_returned s" "b_pending ?t = b_pending s" "b_rx_taken ?t = b_rx_taken s"
    "b_fault ?t = b_fault s" "arrived ?t = arrived s" "b_issued ?t = Suc (b_issued s)" "b_nextId ?t = ?n + 1"
    "held_slots ?t = held_slots s"
    using True by (simp_all add: CallMethod_begin_def Let_def held_slots_def)
  have "?n + 1 \<noteq> 0" using room by (simp add: f)
  then have "unat (?n + 1) = Suc (unat ?n)" using unatSuc [of ?n] by (simp add: add.commute)
  then have less: "?n < ?n + 1" "\<And>i. i < ?n \<Longrightarrow> i < ?n + 1" by (simp_all add: word_less_nat_alt)
  have parts: "table_ok s" "b_calls_ok s" "b_ids_ok s" "answers_ok parses s" using ok by (simp_all add: blocking_ok_def)
  have "\<not> (\<exists>cl\<in>set (b_callers s). bc_call cl = b_issued s \<and> bc_stage cl \<noteq> Drawn)"
    using call_issued [OF parts(2)] by (metis less_irrefl)
  then have fresh: "frames s (b_issued s) = None" using parts(2) unfolding b_calls_ok_def by blast
  have "table_ok ?t" using parts(1) by (simp add: table_ok_def f unset_def)
  moreover have "b_calls_ok ?t" using parts(2) fresh by (auto simp: b_calls_ok_def f)
  moreover have "b_ids_ok ?t" using parts(3) less by (fastforce simp: b_ids_ok_def f)
  moreover have "answers_ok parses ?t" using parts(4) fresh by (auto simp: answers_ok_def f)
  ultimately show ?thesis by (simp add: blocking_ok_def)
qed

lemma b_abort_ok:
  assumes ok: "blocking_ok parses s" and cl: "cl \<in> set (b_callers s)" "bc_stage cl = Drawn"
  shows "blocking_ok parses (CallMethod_leave cl (Inl e) s)"
  by (rule leave_ok) (use ok drawn_not_held [OF ok cl] cl(1) in \<open>auto simp: blocking_ok_def table_ok_def\<close>)

lemma b_register_ok:
  assumes ok: "blocking_ok parses s" and cl: "cl \<in> set (b_callers s)" "bc_stage cl = Drawn"
  shows "blocking_ok parses (CallMethod_register cl s)"
proof -
  note free = drawn_not_held [OF ok cl]
  let ?s1 = "s\<lparr>frames := (frames s)(bc_call cl \<mapsto> \<lparr>response_buf = [], prom = None\<rparr>),
      b_pending := b_pending s @ [(bc_id cl, bc_call cl)]\<rparr>"
  have t: "CallMethod_register cl s = set_stage cl SendingRequest ?s1"
    unfolding CallMethod_register_def update_fresh [OF free(3)] ..
  have cl1: "cl \<in> set (b_callers ?s1)" using cl(1) by simp
  have parts: "table_ok s" "b_calls_ok s" "b_ids_ok s" "answers_ok parses s" using ok by (simp_all add: blocking_ok_def)
  have "table_ok ?s1" using parts(1) free(2) by (auto simp: table_ok_def held_slots_def unset_def)
  moreover have "b_ids_ok ?s1" using parts(3) free(3) cl(1) by (auto simp: b_ids_ok_def)
  moreover have "answers_ok parses ?s1"
    using parts(4) free(1) call_inj [OF parts(2) _ cl(1)] by (auto simp: answers_ok_def)
  moreover have "b_calls_ok (set_stage cl SendingRequest ?s1)"
    using parts(2) call_inj [OF parts(2) _ cl(1)] cl(2)
    unfolding b_calls_ok_def set_stage_callers [OF cl1] by auto
  ultimately show ?thesis unfolding t blocking_ok_def using set_stage_keeps [OF cl1] by blast
qed

lemma b_sent_ok:
  assumes ok: "blocking_ok parses s" and cl: "cl \<in> set (b_callers s)" "bc_stage cl = SendingRequest"
  shows "blocking_ok parses (CallMethod_sent cl sent s)"
proof -
  have parts: "table_ok s" "b_calls_ok s" "b_ids_ok s" "answers_ok parses s" using ok by (simp_all add: blocking_ok_def)
  have stage: "blocking_ok parses (set_stage cl st s)" if "st \<noteq> Drawn" for st
  proof -
    have "b_calls_ok (set_stage cl st s)"
      using parts(2) cl that unfolding b_calls_ok_def set_stage_callers [OF cl(1)] by auto
    then show ?thesis using parts set_stage_keeps [OF cl(1)] by (simp add: blocking_ok_def)
  qed
  show ?thesis
  proof (cases "sent \<or> map_of (b_pending s) (bc_id cl) = None")
    case True
    then show ?thesis using stage by (auto simp: CallMethod_sent_def)
  next
    case False
    then obtain c where c: "map_of (b_pending s) (bc_id cl) = Some c" by auto
    with entry_owner [OF parts(3) cl(1)] have own: "map_of (b_pending s) (bc_id cl) = Some (bc_call cl)" by simp
    let ?s1 = "s\<lparr>b_pending := AList.delete (bc_id cl) (b_pending s)\<rparr>"
    have keys: "distinct (map fst (b_pending s))" using parts(3) by (simp add: b_ids_ok_def)
    have held: "mset (held_slots s) = add_mset (bc_call cl) (mset (held_slots ?s1))"
      using mset_delete [OF keys own, of "\<lambda>x. x"] by (simp add: held_slots_def comp_def)
    then have d: "distinct (held_slots ?s1)" "bc_call cl \<notin> set (held_slots ?s1)"
      "set (held_slots s) = insert (bc_call cl) (set (held_slots ?s1))"
      using parts(1) mset_eq_imp_distinct_iff [of "held_slots s" "bc_call cl # held_slots ?s1"]
        mset_eq_setD [of "held_slots s" "bc_call cl # held_slots ?s1"]
      by (auto simp: table_ok_def)
    have "blocking_ok parses (CallMethod_leave cl (Inl (SendError None)) ?s1)"
    proof (rule leave_ok)
      show "b_calls_ok ?s1" "answers_ok parses ?s1" using parts(2,4) by (simp_all add: b_calls_ok_def answers_ok_def)
      show "b_ids_ok ?s1" using parts(3) distinct_delete' by (auto simp: b_ids_ok_def AList.delete_eq)
      show "\<forall>c. c \<in> set (held_slots ?s1) \<longleftrightarrow> unset ?s1 c \<and> c \<noteq> bc_call cl"
        using parts(1) d(2,3) by (auto simp: table_ok_def unset_def)
    qed (use parts(1) d(1) cl(1) in \<open>simp_all add: table_ok_def\<close>)
    then show ?thesis using False c by (simp add: CallMethod_sent_def)
  qed
qed

lemma b_finish_ok:
  assumes ok: "blocking_ok parses s" and cl: "cl \<in> set (b_callers s)" "bc_stage cl \<in> {AwaitingResponse, SendFailed}"
  shows "blocking_ok parses (CallMethod_finish parses cl s)"
proof -
  have parts: "table_ok s" "b_calls_ok s" "b_ids_ok s" "answers_ok parses s" using ok by (simp_all add: blocking_ok_def)
  obtain sl where sl: "frames s (bc_call cl) = Some sl" using parts(2) cl by (fastforce simp: b_calls_ok_def)
  show ?thesis
  proof (cases "prom sl")
    case None
    then show ?thesis using ok sl by (simp add: CallMethod_finish_def)
  next
    case (Some v)
    have "blocking_ok parses (CallMethod_leave cl
        (if bc_stage cl = SendFailed then Inl (SendError None)
         else blocking_result parses (if v then Some (response_buf sl) else None)) s)"
    proof (rule leave_ok)
      show "\<forall>c. c \<in> set (held_slots s) \<longleftrightarrow> unset s c \<and> c \<noteq> bc_call cl"
        using parts(1) sl Some by (auto simp: table_ok_def unset_def)
    next
      fix b
      assume "(if bc_stage cl = SendFailed then Inl (SendError None)
         else blocking_result parses (if v then Some (response_buf sl) else None)) = Inr b"
      then have "v" "parses b" "b = response_buf sl" by (auto simp: blocking_result_def split: if_splits)
      then show "parses b \<and> (bc_id cl, b) \<in> set (arrived s)" using parts(4) cl(1) sl Some by (simp add: answers_ok_def)
    qed (use parts cl(1) in \<open>simp_all add: table_ok_def\<close>)
    then show ?thesis using sl Some by (simp add: CallMethod_finish_def)
  qed
qed

text \<open>A promise is set: its slot is live and unset, and no longer in anybody's hands.\<close>

lemma give_ok:
  assumes parts: "b_calls_ok s" "b_ids_ok s" "answers_ok parses s" "\<not> b_fault s"
    and d: "distinct (c # held_slots s)" "\<forall>x. x \<in> set (c # held_slots s) \<longleftrightarrow> unset s x"
    and v: "v \<Longrightarrow> \<forall>cl\<in>set (b_callers s). bc_call cl = c \<longrightarrow> (bc_id cl, body) \<in> set (arrived s)"
  shows "blocking_ok parses (set_value c v (if v then set_response_buf c body s else s))"
proof -
  obtain sl where sl: "frames s c = Some sl" "prom sl = None"
    using d(2) by (auto simp: unset_def split: option.splits)
  let ?sl = "\<lparr>response_buf = (if v then body else response_buf sl), prom = Some v\<rparr>"
  have t: "set_value c v (if v then set_response_buf c body s else s) = s\<lparr>frames := (frames s)(c \<mapsto> ?sl)\<rparr>" (is "_ = ?t")
    using sl by (cases sl) (simp add: set_value_def set_response_buf_def)
  have "table_ok ?t" using d parts(4) sl by (auto simp: table_ok_def unset_def held_slots_def)
  moreover have "b_calls_ok ?t" using parts(1) sl(1) by (auto simp: b_calls_ok_def)
  moreover have "b_ids_ok ?t" using parts(2) by (simp add: b_ids_ok_def)
  moreover have "answers_ok parses ?t" using parts(3) v by (auto simp: answers_ok_def)
  ultimately show ?thesis unfolding t by (simp add: blocking_ok_def)
qed

lemma b_respond_ok:
  assumes ok: "blocking_ok parses s"
  shows "blocking_ok parses (b_respond s)"
proof (cases "b_rx_taken s")
  case Nil
  then show ?thesis using ok by (simp add: b_respond_def)
next
  case (Cons x ts)
  obtain c body where x: "x = (c, body)" by fastforce
  let ?s1 = "s\<lparr>b_rx_taken := ts\<rparr>"
  have held: "mset (held_slots s) = mset (c # held_slots ?s1)" by (simp add: held_slots_def Cons x)
  have parts: "table_ok s" "b_calls_ok s" "b_ids_ok s" "answers_ok parses s" using ok by (simp_all add: blocking_ok_def)
  have "blocking_ok parses (set_value c True (if True then set_response_buf c body ?s1 else ?s1))"
  proof (rule give_ok)
    show "distinct (c # held_slots ?s1)" using parts(1) mset_eq_imp_distinct_iff [OF held] by (simp add: table_ok_def)
    show "\<forall>x. x \<in> set (c # held_slots ?s1) \<longleftrightarrow> unset ?s1 x"
      using parts(1) mset_eq_setD [OF held] by (simp add: table_ok_def unset_def)
    show "\<forall>cl\<in>set (b_callers ?s1). bc_call cl = c \<longrightarrow> (bc_id cl, body) \<in> set (arrived ?s1)"
    proof (intro ballI impI)
      fix cl assume cl: "cl \<in> set (b_callers ?s1)" "bc_call cl = c"
      obtain y where "y \<in> set (b_callers s)" "bc_call y = c" "(bc_id y, body) \<in> set (arrived s)"
        using parts(4) Cons x by (auto simp: answers_ok_def)
      then show "(bc_id cl, body) \<in> set (arrived ?s1)" using call_inj [OF parts(2), of y cl] cl by simp
    qed
  qed (use parts Cons in \<open>simp_all add: b_calls_ok_def b_ids_ok_def answers_ok_def table_ok_def\<close>)
  then show ?thesis by (simp add: b_respond_def Cons x)
qed

lemma b_fail_next_ok:
  assumes ok: "blocking_ok parses s"
  shows "blocking_ok parses (b_fail_next s)"
proof (cases "b_fail_taken s")
  case Nil
  then show ?thesis using ok by (simp add: b_fail_next_def)
next
  case (Cons c ts)
  let ?s1 = "s\<lparr>b_fail_taken := ts\<rparr>"
  have held: "mset (held_slots s) = mset (c # held_slots ?s1)" by (simp add: held_slots_def Cons)
  have parts: "table_ok s" "b_calls_ok s" "b_ids_ok s" "answers_ok parses s" using ok by (simp_all add: blocking_ok_def)
  have "blocking_ok parses (set_value c False (if False then set_response_buf c [] ?s1 else ?s1))"
  proof (rule give_ok)
    show "distinct (c # held_slots ?s1)" using parts(1) mset_eq_imp_distinct_iff [OF held] by (simp add: table_ok_def)
    show "\<forall>x. x \<in> set (c # held_slots ?s1) \<longleftrightarrow> unset ?s1 x"
      using parts(1) mset_eq_setD [OF held] by (simp add: table_ok_def unset_def)
  qed (use parts in \<open>simp_all add: b_calls_ok_def b_ids_ok_def answers_ok_def table_ok_def\<close>)
  then show ?thesis by (simp add: b_fail_next_def Cons)
qed

lemma b_fail_swap_ok:
  assumes "blocking_ok parses s"
  shows "blocking_ok parses (b_fail_swap s)"
proof -
  have held: "mset (held_slots (b_fail_swap s)) = mset (held_slots s)" by (simp add: held_slots_def b_fail_swap_def)
  have "table_ok (b_fail_swap s)"
    using assms mset_eq_imp_distinct_iff [OF held] mset_eq_setD [OF held]
    by (simp add: blocking_ok_def table_ok_def unset_def b_fail_swap_def)
  then show ?thesis using assms by (simp add: blocking_ok_def b_calls_ok_def b_ids_ok_def answers_ok_def b_fail_swap_def)
qed

lemma b_dispatch_ok:
  assumes ok: "blocking_ok parses s"
  shows "blocking_ok parses (b_dispatch i body s)"
proof -
  have parts: "table_ok s" "b_calls_ok s" "b_ids_ok s" "answers_ok parses s" using ok by (simp_all add: blocking_ok_def)
  have more: "answers_ok parses (s\<lparr>arrived := arrived s @ [(i, body)]\<rparr>)" using parts(4) unfolding answers_ok_def by fastforce
  show ?thesis
  proof (cases "map_of (b_pending s) i")
    case None
    then show ?thesis using parts more
      by (simp add: blocking_ok_def b_dispatch_def Let_def table_ok_def b_calls_ok_def b_ids_ok_def held_slots_def unset_def)
  next
    case (Some c)
    let ?t = "s\<lparr>arrived := arrived s @ [(i, body)], b_pending := AList.delete i (b_pending s),
        b_rx_taken := b_rx_taken s @ [(c, body)]\<rparr>"
    have t: "b_dispatch i body s = ?t" by (simp add: b_dispatch_def Let_def Some)
    obtain cl where cl: "cl \<in> set (b_callers s)" "bc_id cl = i" "bc_call cl = c"
      using parts(3) map_of_SomeD [OF Some] by (auto simp: b_ids_ok_def)
    have keys: "distinct (map fst (b_pending s))" using parts(3) by (simp add: b_ids_ok_def)
    have held: "mset (held_slots ?t) = mset (held_slots s)"
      using mset_delete [OF keys Some, of "\<lambda>x. x"] by (simp add: held_slots_def comp_def)
    have "table_ok ?t"
      using parts(1) mset_eq_imp_distinct_iff [OF held] mset_eq_setD [OF held] by (simp add: table_ok_def unset_def)
    moreover have "b_ids_ok ?t" using parts(3) distinct_delete' [OF keys] by (auto simp: b_ids_ok_def AList.delete_eq)
    moreover have "answers_ok parses ?t" using more cl by (auto simp: answers_ok_def)
    moreover have "b_calls_ok ?t" using parts(2) by (simp add: b_calls_ok_def)
    ultimately show ?thesis unfolding t by (simp add: blocking_ok_def)
  qed
qed

lemma blocking_same:
  "blocking_ok parses s \<Longrightarrow> frames t = frames s \<Longrightarrow> b_pending t = b_pending s \<Longrightarrow> b_callers t = b_callers s \<Longrightarrow>
     b_rx_taken t = b_rx_taken s \<Longrightarrow> b_fail_taken t = b_fail_taken s \<Longrightarrow> arrived t = arrived s \<Longrightarrow>
     b_returned t = b_returned s \<Longrightarrow> b_issued t = b_issued s \<Longrightarrow> b_nextId t = b_nextId s \<Longrightarrow> b_fault t = b_fault s \<Longrightarrow>
     blocking_ok parses t"
  by (simp add: blocking_defs held_slots_def unset_def)

lemma blocking_step_ok:
  assumes step: "blocking_step parses s t" and ok: "blocking_ok parses s" and room: "b_nextId t \<noteq> 0"
  shows "blocking_ok parses t"
  using step
proof cases
  case (b_connect host_data fd okc)
  then show ?thesis
    by (auto simp: ensureConnected_open_def Let_def intro!: blocking_same [OF ok] split: host.splits if_splits)
next
  case b_rx_exit
  have "blocking_ok parses (s\<lparr>m_running := False, rx := RxStopping\<rparr>)" by (rule blocking_same [OF ok]) simp_all
  then show ?thesis unfolding b_rx_exit b_recvLoop_exit_def by (rule b_fail_swap_ok)
next
  case b_disconnect
  show ?thesis unfolding b_disconnect ensureConnected_close_def by (rule blocking_same [OF ok]) simp_all
next
  case b_rx_end
  show ?thesis unfolding b_rx_end by (rule blocking_same [OF ok]) simp_all
qed (use ok room b_begin_ok b_abort_ok b_register_ok b_sent_ok b_finish_ok b_dispatch_ok b_respond_ok b_fail_next_ok
    in \<open>simp_all del: insert_iff\<close>)

interpretation blocking_chan:
  inductive_invariant blocking_start "fresh_blocking_step parses" "blocking_ok parses" for parses
proof (unfold_locales, goal_cases)
  case (1 s)
  then show ?case
    by (simp add: blocking_start_def KimRpcChannel_blocking_def blocking_defs held_slots_def unset_def)
next
  case (2 s t)
  then show ?case using blocking_step_ok [of parses s t] by (simp add: fresh_blocking_step_def)
qed

section \<open>\<open>failAllPending\<close> and \<open>teardown\<close>\<close>

lemma b_fail_next_facts:
  "b_fail_taken (b_fail_next s) = tl (b_fail_taken s)" "b_pending (b_fail_next s) = b_pending s"
  "b_rx_taken (b_fail_next s) = b_rx_taken s" "b_callers (b_fail_next s) = b_callers s"
  by (auto simp: b_fail_next_def set_value_def split: list.split option.split)

lemma b_fail_all_facts:
  "blocking_ok parses s \<Longrightarrow>
     blocking_ok parses (b_fail_all n s) \<and> b_fail_taken (b_fail_all n s) = drop n (b_fail_taken s) \<and>
     b_pending (b_fail_all n s) = b_pending s \<and> b_rx_taken (b_fail_all n s) = b_rx_taken s \<and>
     b_callers (b_fail_all n s) = b_callers s"
  by (induction n arbitrary: s) (simp_all add: b_fail_next_ok b_fail_next_facts drop_Suc)

lemma b_teardown_facts:
  assumes ok: "blocking_ok parses s"
  shows "blocking_ok parses (b_teardown s)" "held_slots (b_teardown s) = map fst (b_rx_taken s)"
    "b_callers (b_teardown s) = b_callers s"
proof -
  let ?s1 = "b_fail_swap (s\<lparr>m_running := False, m_clientfd := -1, m_connectedHost := []\<rparr>)"
  have "blocking_ok parses ?s1" by (rule b_fail_swap_ok, rule blocking_same [OF ok]) simp_all
  note f = b_fail_all_facts [OF this, of "length (b_fail_taken ?s1)"]
  have t: "b_teardown s = b_fail_all (length (b_fail_taken ?s1)) ?s1" by (simp add: b_teardown_def Let_def)
  show "blocking_ok parses (b_teardown s)" "held_slots (b_teardown s) = map fst (b_rx_taken s)"
    "b_callers (b_teardown s) = b_callers s"
    unfolding t using f by (simp_all add: held_slots_def) (simp_all add: b_fail_swap_def)
qed

text \<open>A slot is left alone, or its promise is set to \<open>false\<close>.\<close>

definition failed_or_same :: "slot option \<Rightarrow> slot option \<Rightarrow> bool" where
  "failed_or_same x y \<longleftrightarrow> y = x \<or> (\<exists>sl. x = Some sl \<and> prom sl = None \<and> y = Some (sl\<lparr>prom := Some False\<rparr>))"

lemma b_fail_next_frames: "failed_or_same (frames s c) (frames (b_fail_next s) c)"
  by (auto simp: failed_or_same_def b_fail_next_def set_value_def split: list.split option.split)

lemma failed_or_same_trans: "failed_or_same x y \<Longrightarrow> failed_or_same y z \<Longrightarrow> failed_or_same x z"
  by (auto simp: failed_or_same_def)

lemma b_fail_all_frames: "failed_or_same (frames s c) (frames (b_fail_all n s) c)"
proof (induction n arbitrary: s)
  case (Suc n)
  show ?case using failed_or_same_trans [OF b_fail_next_frames Suc] by simp
qed (simp add: failed_or_same_def)

lemma b_teardown_frames: "failed_or_same (frames s c) (frames (b_teardown s) c)"
proof -
  let ?s1 = "b_fail_swap (s\<lparr>m_running := False, m_clientfd := -1, m_connectedHost := []\<rparr>)"
  have "frames ?s1 = frames s" by (simp add: b_fail_swap_def)
  then show ?thesis using b_fail_all_frames [of ?s1 c] by (simp add: b_teardown_def Let_def)
qed

text \<open>
  With no pointer in anybody's hands every call that waits can return: with the error of its failed
  send, with the response it had received before, or with \<open>ClosedBeforeResponse\<close>.
\<close>

definition received :: "blocking_channel \<Rightarrow> nat \<Rightarrow> bytes option" where
  "received s c =
     (case frames s c of None \<Rightarrow> None | Some sl \<Rightarrow> if prom sl = Some True then Some (response_buf sl) else None)"

lemma waiting_returns:
  assumes ok: "blocking_ok parses t" and none: "held_slots t = []"
    and cl: "cl \<in> set (b_callers t)" "bc_stage cl \<in> {AwaitingResponse, SendFailed}"
    and fs: "failed_or_same (frames s (bc_call cl)) (frames t (bc_call cl))"
  shows "CallMethod_finish parses cl t = CallMethod_leave cl
    (if bc_stage cl = SendFailed then Inl (SendError None) else blocking_result parses (received s (bc_call cl))) t"
proof -
  have "frames t (bc_call cl) \<noteq> None" using ok cl by (auto simp: blocking_ok_def b_calls_ok_def)
  moreover have "\<not> unset t (bc_call cl)" using ok none by (simp add: blocking_ok_def table_ok_def)
  ultimately obtain sl v where t: "frames t (bc_call cl) = Some sl" "prom sl = Some v" by (auto simp: unset_def)
  then have "frames s (bc_call cl) = Some sl \<or>
      (\<exists>x. frames s (bc_call cl) = Some x \<and> prom x = None \<and> sl = x\<lparr>prom := Some False\<rparr>)"
    using fs by (auto simp: failed_or_same_def)
  then show ?thesis using t by (auto simp: CallMethod_finish_def received_def)
qed

end
