(* ===== verification/BlockingProps.thy ===== *)
theory BlockingProps
  imports BlockingChannel
begin

text \<open>
  The properties of the client channel's blocking build: the slots on the callers' stacks are
  used only while they live, a call returns the response to its own request, and no call is left
  asleep by \<open>failAllPending\<close>.
\<close>

section \<open>A concrete run for the witnesses\<close>

definition demo_host :: bytes where "demo_host = str ''h:1''"

definition demo_drawn :: bcaller where "demo_drawn = \<lparr>bc_call = 0, bc_id = 1, bc_stage = Drawn\<rparr>"

definition demo_connected :: blocking_channel where
  "demo_connected = KimRpcChannel_blocking\<lparr>m_clientfd := 9, m_connectedHost := demo_host, m_running := True,
     rx := RxReading, b_nextId := 2, b_issued := 1, b_callers := [demo_drawn]\<rparr>"

definition demo_awaiting :: blocking_channel where
  "demo_awaiting = demo_connected\<lparr>b_callers := [demo_drawn\<lparr>bc_stage := AwaitingResponse\<rparr>],
     b_pending := [(1, 0)], frames := [0 \<mapsto> \<lparr>response_buf = [], prom = None\<rparr>]\<rparr>"

definition demo_answered :: blocking_channel where
  "demo_answered = demo_connected\<lparr>b_callers := [], frames := Map.empty, arrived := [(1, [7])],
     b_returned := [\<lparr>rt_call = 0, rt_id = Some 1, rt_result = Inr [7]\<rparr>]\<rparr>"

lemmas demo_blocking = demo_awaiting_def demo_connected_def KimRpcChannel_blocking_def demo_drawn_def

lemma demo_connected_reach: "reach blocking_start (fresh_blocking_step parses) demo_connected"
proof -
  let ?s1 = "KimRpcChannel_blocking\<lparr>b_nextId := 2, b_issued := 1, b_callers := [demo_drawn]\<rparr>"
  have host: "parse_host demo_host = Host (str ''h'') 1"
    by (simp add: demo_host_def parse_host_def stoll_def is_space_def is_digit_def digits_value_def Let_def)
  have "reach blocking_start (fresh_blocking_step parses) KimRpcChannel_blocking"
    by (rule reach_init) (simp add: blocking_start_def)
  moreover have "fresh_blocking_step parses KimRpcChannel_blocking ?s1"
    using b_call [of parses KimRpcChannel_blocking True]
    by (simp add: fresh_blocking_step_def CallMethod_begin_def KimRpcChannel_blocking_def demo_drawn_def Let_def)
  ultimately have "reach blocking_start (fresh_blocking_step parses) ?s1" by (rule reach_step)
  moreover have "blocking_step parses ?s1 demo_connected"
    by (rule b_connect [of _ demo_host 9 True])
      (simp_all add: ensureConnected_open_def host Let_def, simp_all add: demo_blocking)
  then have "fresh_blocking_step parses ?s1 demo_connected" by (simp add: fresh_blocking_step_def demo_connected_def)
  ultimately show ?thesis by (rule reach_step)
qed

lemma demo_awaiting_reach: "reach blocking_start (fresh_blocking_step parses) demo_awaiting"
proof -
  let ?s2 = "CallMethod_register demo_drawn demo_connected"
  have s2: "?s2 = demo_connected\<lparr>b_callers := [demo_drawn\<lparr>bc_stage := SendingRequest\<rparr>],
      b_pending := [(1, 0)], frames := [0 \<mapsto> \<lparr>response_buf = [], prom = None\<rparr>]\<rparr>"
    by (simp add: CallMethod_register_def set_stage_def demo_blocking)
  note demo_connected_reach
  moreover have "fresh_blocking_step parses demo_connected ?s2"
    unfolding fresh_blocking_step_def
    by (rule conjI, rule b_register) (simp_all add: s2, simp_all add: demo_blocking)
  ultimately have "reach blocking_start (fresh_blocking_step parses) ?s2" by (rule reach_step)
  moreover have "blocking_step parses ?s2 (CallMethod_sent (demo_drawn\<lparr>bc_stage := SendingRequest\<rparr>) True ?s2)"
    by (rule b_sent) (simp_all add: s2)
  then have "fresh_blocking_step parses ?s2 demo_awaiting"
    by (simp add: fresh_blocking_step_def CallMethod_sent_def set_stage_def s2) (simp add: demo_blocking)
  ultimately show ?thesis by (rule reach_step)
qed

lemma demo_answered_reach: "reach blocking_start (fresh_blocking_step (\<lambda>_. True)) demo_answered"
proof -
  let ?P = "\<lambda>_. True" and ?cl = "demo_drawn\<lparr>bc_stage := AwaitingResponse\<rparr>"
  let ?s1 = "demo_awaiting\<lparr>arrived := [(1, [7])], b_pending := [], b_rx_taken := [(0, [7])]\<rparr>"
  let ?s2 = "demo_awaiting\<lparr>arrived := [(1, [7])], b_pending := [], frames := [0 \<mapsto> \<lparr>response_buf = [7], prom = Some True\<rparr>]\<rparr>"
  have "blocking_step ?P demo_awaiting (b_dispatch 1 [7] demo_awaiting)"
    by (rule b_frame) (simp_all add: demo_blocking)
  then have "fresh_blocking_step ?P demo_awaiting ?s1"
    by (simp add: fresh_blocking_step_def b_dispatch_def Let_def demo_blocking)
  with demo_awaiting_reach have "reach blocking_start (fresh_blocking_step ?P) ?s1" by (rule reach_step)
  moreover have "fresh_blocking_step ?P ?s1 ?s2"
    using b_response [of ?P ?s1]
    by (simp add: fresh_blocking_step_def b_respond_def set_value_def set_response_buf_def demo_blocking)
  ultimately have "reach blocking_start (fresh_blocking_step ?P) ?s2" by (rule reach_step)
  moreover have "blocking_step ?P ?s2 (CallMethod_finish ?P ?cl ?s2)"
    by (rule b_finish) (simp_all add: demo_blocking)
  then have "fresh_blocking_step ?P ?s2 demo_answered"
    by (simp add: fresh_blocking_step_def CallMethod_finish_def CallMethod_leave_def b_return_def blocking_result_def
        demo_answered_def demo_blocking)
  ultimately show ?thesis by (rule reach_step)
qed

section \<open>The properties\<close>

text \<open>C18. Slots are used only while they live: in every reachable state no pointer to a slot that is
  gone has been followed and no promise was set twice, and the pointers in the table and in the hands
  of the receive thread are, each once, the live slots without a value. The bound is the wrap-around of
  the 64-bit request id.\<close>

theorem blocking_slots_are_live:
  assumes "reach blocking_start (fresh_blocking_step parses) s"
  shows "\<not> b_fault s \<and> distinct (held_slots s) \<and>
    (\<forall>c. c \<in> set (held_slots s) \<longleftrightarrow> (\<exists>buf. frames s c = Some \<lparr>response_buf = buf, prom = None\<rparr>))"
proof -
  have "table_ok s" using blocking_chan.reach_inv [OF assms] by (simp add: blocking_ok_def)
  moreover have "unset s c \<longleftrightarrow> (\<exists>buf. frames s c = Some \<lparr>response_buf = buf, prom = None\<rparr>)" for c
  proof (cases "frames s c")
    case (Some sl)
    then show ?thesis by (cases sl) (simp add: unset_def)
  qed (simp add: unset_def)
  ultimately show ?thesis by (simp add: table_ok_def)
qed

lemma blocking_slots_are_live_witness: "\<not> b_fault demo_awaiting \<and> held_slots demo_awaiting = [0]"
  using blocking_slots_are_live [OF demo_awaiting_reach] by (simp add: held_slots_def) (simp add: demo_blocking)

text \<open>C19. A call returns at most once, and a response it returns parses and came in a frame with the
  request id of the call.\<close>

theorem blocking_call_returns_own_response:
  assumes "reach blocking_start (fresh_blocking_step parses) s"
  shows "distinct (map rt_call (b_returned s)) \<and>
    (\<forall>r\<in>set (b_returned s). \<forall>body. rt_result r = Inr body \<longrightarrow>
       parses body \<and> (\<exists>i. rt_id r = Some i \<and> (i, body) \<in> set (arrived s)))"
proof -
  have ok: "b_calls_ok s" "answers_ok parses s" using blocking_chan.reach_inv [OF assms] by (simp_all add: blocking_ok_def)
  have "mset (map bc_call (b_callers s) @ map rt_call (b_returned s)) = mset [0..<b_issued s]"
    using ok(1) by (simp add: b_calls_ok_def)
  then have "distinct (map bc_call (b_callers s) @ map rt_call (b_returned s))"
    by (metis distinct_upt mset_eq_imp_distinct_iff)
  then show ?thesis using ok(2) by (simp add: answers_ok_def)
qed

lemma blocking_call_returns_own_response_witness: "(1, [7]) \<in> set (arrived demo_answered)"
  using blocking_call_returns_own_response [OF demo_answered_reach]
  by (auto simp: demo_answered_def demo_connected_def KimRpcChannel_blocking_def)



text \<open>A call that registers its slot after the receive thread failed the table is not woken by anybody:
  there is a reachable state in which the connection is down, no thread works on the table, and a call
  waits for a promise that is not set.\<close>

theorem late_blocking_call_waits:
  "\<exists>s cl. reach blocking_start (fresh_blocking_step parses) s \<and> \<not> m_running s \<and> rx s = RxNone \<and>
     b_callers s = [cl] \<and> bc_stage cl = AwaitingResponse \<and> b_rx_taken s = [] \<and> b_fail_taken s = [] \<and>
     CallMethod_finish parses cl s = s"
proof -
  let ?s1 = "demo_connected\<lparr>m_running := False, rx := RxStopping\<rparr>"
  let ?s2 = "?s1\<lparr>rx := RxNone\<rparr>"
  let ?slot = "[0 \<mapsto> \<lparr>response_buf = [], prom = None\<rparr>]"
  let ?s3 = "?s2\<lparr>b_callers := [demo_drawn\<lparr>bc_stage := SendingRequest\<rparr>], b_pending := [(1, 0)], frames := ?slot\<rparr>"
  let ?cl = "demo_drawn\<lparr>bc_stage := AwaitingResponse\<rparr>"
  let ?s4 = "?s3\<lparr>b_callers := [?cl]\<rparr>"
  have "blocking_step parses demo_connected ?s1"
    using b_rx_exit [of demo_connected parses] by (simp add: b_recvLoop_exit_def b_fail_swap_def demo_blocking)
  moreover have "blocking_step parses ?s1 ?s2" by (rule b_rx_end) (simp_all add: demo_blocking)
  moreover have "blocking_step parses ?s2 ?s3"
    using b_register [of demo_drawn ?s2 parses] by (simp add: CallMethod_register_def set_stage_def demo_blocking)
  moreover have "blocking_step parses ?s3 ?s4"
    using b_sent [of "demo_drawn\<lparr>bc_stage := SendingRequest\<rparr>" ?s3 parses True]
    by (simp add: CallMethod_sent_def set_stage_def demo_blocking)
  ultimately have steps: "fresh_blocking_step parses demo_connected ?s1" "fresh_blocking_step parses ?s1 ?s2"
    "fresh_blocking_step parses ?s2 ?s3" "fresh_blocking_step parses ?s3 ?s4"
    unfolding fresh_blocking_step_def by (simp_all add: demo_connected_def)
  note reach_step [OF reach_step [OF reach_step [OF reach_step [OF demo_connected_reach steps(1)] steps(2)] steps(3)] steps(4)]
  then show ?thesis
    by (intro exI [of _ ?s4] exI [of _ ?cl]) (simp add: CallMethod_finish_def demo_blocking)
qed

end
