(* ===== verification/AsyncClient.thy ===== *)
theory AsyncClient
  imports SocketLoops "HOL-Library.Multiset"
begin

text \<open>
  The callback interface of \<open>UringTcpClient\<close> (uringtcpclient.cc): \<open>AsyncConnect\<close>,
  \<open>AsyncWrite\<close>, \<open>AsyncRead\<close> and \<open>EventLoop\<close>. An operation is prepared in the submission
  queue (\<open>a_sq\<close>), handed to the kernel (\<open>a_kernel\<close>) when \<open>io_uring_submit\<close> succeeds, and its
  callback runs when the event loop takes its completion. A call passes a callback or the empty
  \<open>std::function\<close> (\<open>None\<close>); the callbacks are numbered in the order they are passed, and
  \<open>a_runs\<close> records every invocation. The texts of \<open>strerror\<close> are a parameter.
\<close>

section \<open>State and operations\<close>

datatype io_kind = IoConnect | IoSend bytes | IoRecv

record io_context =
  opType :: io_kind
  io_fd :: int
  callback :: "nat option"

record cb_run =
  cb_id :: nat
  cb_success :: bool
  cb_result :: int
  cb_text :: bytes

record async_client =
  a_fd :: int
  a_ringReady :: bool
  a_sq :: "io_context list"
  a_kernel :: "io_context list"
  a_runs :: "cb_run list"
  a_calls :: nat  \<comment> \<open>callbacks passed so far\<close>
  a_closed :: "int list"

definition async_new :: "bool \<Rightarrow> async_client" where
  "async_new ring_ok = \<lparr>a_fd = -1, a_ringReady = ring_ok, a_sq = [], a_kernel = [], a_runs = [], a_calls = 0, a_closed = []\<rparr>"

definition run_callback :: "nat option \<Rightarrow> bool \<Rightarrow> int \<Rightarrow> bytes \<Rightarrow> async_client \<Rightarrow> async_client" where
  "run_callback cb success res text c =
     (case cb of
        None \<Rightarrow> c
      | Some i \<Rightarrow> c\<lparr>a_runs := a_runs c @ [\<lparr>cb_id = i, cb_success = success, cb_result = res, cb_text = text\<rparr>]\<rparr>)"

text \<open>The callback argument of a call.\<close>

definition take_callback :: "bool \<Rightarrow> async_client \<Rightarrow> nat option \<times> async_client" where
  "take_callback given c = (if given then (Some (a_calls c), c\<lparr>a_calls := Suc (a_calls c)\<rparr>) else (None, c))"

definition a_Close :: "async_client \<Rightarrow> async_client" where
  "a_Close c = (if a_fd c \<noteq> -1 then c\<lparr>a_closed := a_closed c @ [a_fd c], a_fd := -1\<rparr> else c)"

text \<open>\<open>io_uring_submit\<close>: a negative result leaves the prepared entries in the queue.\<close>

definition a_submit :: "int \<Rightarrow> async_client \<Rightarrow> async_client" where
  "a_submit ret c = (if ret < 0 then c else c\<lparr>a_kernel := a_kernel c @ a_sq c, a_sq := []\<rparr>)"

definition prepare :: "io_kind \<Rightarrow> nat option \<Rightarrow> async_client \<Rightarrow> async_client" where
  "prepare k cb c = c\<lparr>a_sq := a_sq c @ [\<lparr>opType = k, io_fd = a_fd c, callback = cb\<rparr>]\<rparr>"

text \<open>
  \<open>newfd\<close> is the result of \<open>socket\<close>, \<open>ip_ok\<close> that of \<open>inet_pton\<close>, \<open>sqe\<close> tells whether
  \<open>io_uring_get_sqe\<close> gave an entry, \<open>ret\<close> is the result of \<open>io_uring_submit\<close>.
\<close>

definition AsyncConnect :: "(int \<Rightarrow> bytes) \<Rightarrow> bool \<Rightarrow> bytes \<Rightarrow> int \<Rightarrow> bool \<Rightarrow> bool \<Rightarrow> int \<Rightarrow> async_client \<Rightarrow> bool \<times> async_client" where
  "AsyncConnect strerror given ip newfd ip_ok sqe ret c0 =
     (let (cb, c) = take_callback given c0 in
      if \<not> a_ringReady c then (False, run_callback cb False 0 (str ''io_uring queue init error'') c)
      else let c1 = c\<lparr>a_fd := newfd\<rparr> in
      if newfd = -1 then (False, c1)
      else if \<not> ip_ok then (False, run_callback cb False 0 (str ''invalid server ip: '' @ ip) c1)
      else if \<not> sqe then (False, a_Close (run_callback cb False 0 (str ''get connect sqe error'') c1))
      else let c2 = a_submit ret (prepare IoConnect cb c1) in
      if ret < 0
      then (False, a_Close (run_callback cb False 0 (str ''connect submit error: '' @ strerror (- ret)) c2))
      else (True, c2))"

definition AsyncWrite :: "(int \<Rightarrow> bytes) \<Rightarrow> bool \<Rightarrow> bytes \<Rightarrow> bool \<Rightarrow> int \<Rightarrow> async_client \<Rightarrow> bool \<times> async_client" where
  "AsyncWrite strerror given data sqe ret c0 =
     (let (cb, c) = take_callback given c0 in
      if a_fd c = -1 then (False, run_callback cb False 0 (str ''socket is not connected'') c)
      else if \<not> sqe then (False, run_callback cb False 0 (str ''get send sqe error'') c)
      else let c2 = a_submit ret (prepare (IoSend data) cb c) in
      if ret < 0
      then (False, run_callback cb False 0 (str ''send submit error: '' @ strerror (- ret)) c2)
      else (True, c2))"

definition AsyncRead :: "(int \<Rightarrow> bytes) \<Rightarrow> bool \<Rightarrow> bool \<Rightarrow> int \<Rightarrow> async_client \<Rightarrow> bool \<times> async_client" where
  "AsyncRead strerror given sqe ret c0 =
     (let (cb, c) = take_callback given c0 in
      if a_fd c = -1 then (False, run_callback cb False 0 (str ''socket is not connected'') c)
      else if \<not> sqe then (False, run_callback cb False 0 (str ''get recv sqe error'') c)
      else let c2 = a_submit ret (prepare IoRecv cb c) in
      if ret < 0
      then (False, run_callback cb False 0 (str ''recv submit error: '' @ strerror (- ret)) c2)
      else (True, c2))"

text \<open>One round of \<open>EventLoop\<close>: the completion of \<open>ctx\<close> with \<open>res\<close>; \<open>read_buf\<close> is what the
  kernel wrote into the context's buffer.\<close>

definition on_completion :: "(int \<Rightarrow> bytes) \<Rightarrow> io_context \<Rightarrow> int \<Rightarrow> bytes \<Rightarrow> async_client \<Rightarrow> async_client" where
  "on_completion strerror ctx res read_buf c =
     (case opType ctx of
        IoConnect \<Rightarrow>
          if res < 0 then run_callback (callback ctx) False res (str ''connect error: '' @ strerror (- res)) c
          else run_callback (callback ctx) True res [] c
      | IoSend _ \<Rightarrow>
          if res < 0 then run_callback (callback ctx) False res (str ''send error: '' @ strerror (- res)) c
          else run_callback (callback ctx) True res [] c
      | IoRecv \<Rightarrow>
          if res < 0 then run_callback (callback ctx) False res (str ''recv error: '' @ strerror (- res)) c
          else run_callback (callback ctx) True res (take (nat res) read_buf) c)"

fun EventLoop :: "(int \<Rightarrow> bytes) \<Rightarrow> (io_context \<times> int \<times> bytes) list \<Rightarrow> async_client \<Rightarrow> async_client" where
  "EventLoop strerror [] c = c"
| "EventLoop strerror ((ctx, res, read_buf) # es) c =
     (if \<not> a_ringReady c then c
      else EventLoop strerror es (on_completion strerror ctx res read_buf (c\<lparr>a_kernel := remove1 ctx (a_kernel c)\<rparr>)))"

section \<open>Steps, with submissions that succeed\<close>

inductive async_step :: "(int \<Rightarrow> bytes) \<Rightarrow> async_client \<Rightarrow> async_client \<Rightarrow> bool" for strerror where
  a_connect: "newfd \<noteq> -1 \<Longrightarrow> 0 \<le> ret \<Longrightarrow> async_step strerror c (snd (AsyncConnect strerror given ip newfd ip_ok sqe ret c))"
| a_write: "0 \<le> ret \<Longrightarrow> async_step strerror c (snd (AsyncWrite strerror given data sqe ret c))"
| a_read: "0 \<le> ret \<Longrightarrow> async_step strerror c (snd (AsyncRead strerror given sqe ret c))"
| a_complete: "ctx \<in> set (a_kernel c) \<Longrightarrow> async_step strerror c (EventLoop strerror [(ctx, res, read_buf)] c)"
| a_close: "async_step strerror c (a_Close c)"

definition async_start :: "async_client \<Rightarrow> bool" where
  "async_start c \<longleftrightarrow> (\<exists>ring_ok. c = async_new ring_ok)"

text \<open>Every call's callback has run or is with an operation in the kernel.\<close>

definition async_ok :: "async_client \<Rightarrow> bool" where
  "async_ok c \<longleftrightarrow> a_sq c = [] \<and> (a_kernel c = [] \<or> a_ringReady c) \<and>
     (a_fd c = -1 \<or> a_ringReady c) \<and>
     mset (map cb_id (a_runs c)) + mset (List.map_filter callback (a_kernel c)) = mset [0..<a_calls c]"

lemma run_callback_fields [simp]:
  "a_sq (run_callback cb b r t c) = a_sq c" "a_kernel (run_callback cb b r t c) = a_kernel c"
  "a_calls (run_callback cb b r t c) = a_calls c" "a_ringReady (run_callback cb b r t c) = a_ringReady c"
  "a_fd (run_callback cb b r t c) = a_fd c"
  "map cb_id (a_runs (run_callback cb b r t c)) = map cb_id (a_runs c) @ (case cb of None \<Rightarrow> [] | Some i \<Rightarrow> [i])"
  by (simp_all add: run_callback_def split: option.split)

lemma a_Close_fields [simp]:
  "a_sq (a_Close c) = a_sq c" "a_kernel (a_Close c) = a_kernel c" "a_calls (a_Close c) = a_calls c"
  "a_ringReady (a_Close c) = a_ringReady c" "a_runs (a_Close c) = a_runs c" "a_fd (a_Close c) = -1"
  by (simp_all add: a_Close_def)

lemma on_completion_fields [simp]:
  "a_sq (on_completion e ctx r b c) = a_sq c" "a_kernel (on_completion e ctx r b c) = a_kernel c"
  "a_calls (on_completion e ctx r b c) = a_calls c" "a_ringReady (on_completion e ctx r b c) = a_ringReady c"
  "a_fd (on_completion e ctx r b c) = a_fd c"
  "map cb_id (a_runs (on_completion e ctx r b c)) =
     map cb_id (a_runs c) @ (case callback ctx of None \<Rightarrow> [] | Some i \<Rightarrow> [i])"
  by (simp_all add: on_completion_def split: io_kind.split)

lemma on_completion_mset:
  "image_mset cb_id (mset (a_runs (on_completion e ctx r b c))) =
     image_mset cb_id (mset (a_runs c)) + mset (case callback ctx of None \<Rightarrow> [] | Some i \<Rightarrow> [i])"
  by (simp only: mset_map [symmetric] on_completion_fields(6) mset_append)

lemma map_filter_remove1:
  "x \<in> set xs \<Longrightarrow> mset (List.map_filter f xs) =
     mset (case f x of None \<Rightarrow> [] | Some y \<Rightarrow> [y]) + mset (List.map_filter f (remove1 x xs))"
  by (induction xs) (auto simp: List.map_filter_simps split: option.split)

text \<open>Each call either runs its callback or leaves its operation with the kernel.\<close>

definition one_call :: "nat option \<Rightarrow> async_client \<Rightarrow> async_client \<Rightarrow> bool" where
  "one_call cb c c' \<longleftrightarrow> a_sq c' = [] \<and> a_ringReady c' = a_ringReady c \<and> a_calls c' = a_calls c \<and>
     (a_fd c' = -1 \<or> a_ringReady c) \<and>
     (a_kernel c' = a_kernel c \<and> map cb_id (a_runs c') = map cb_id (a_runs c) @ (case cb of None \<Rightarrow> [] | Some i \<Rightarrow> [i]) \<or>
      a_runs c' = a_runs c \<and> a_ringReady c \<and> (\<exists>x. a_kernel c' = a_kernel c @ [x] \<and> callback x = cb))"

text \<open>The state between taking the callback and running it or queueing the operation.\<close>

definition async_holds :: "nat option \<Rightarrow> async_client \<Rightarrow> bool" where
  "async_holds cb c \<longleftrightarrow> a_sq c = [] \<and> (a_kernel c = [] \<or> a_ringReady c) \<and>
     (a_fd c = -1 \<or> a_ringReady c) \<and>
     mset (map cb_id (a_runs c)) + mset (List.map_filter callback (a_kernel c)) +
       mset (case cb of None \<Rightarrow> [] | Some i \<Rightarrow> [i]) = mset [0..<a_calls c]"

lemma take_callback_holds: "async_ok c \<Longrightarrow> take_callback given c = (cb, c') \<Longrightarrow> async_holds cb c'"
  by (auto simp: take_callback_def async_holds_def async_ok_def atLeast0_lessThan_Suc split: if_splits)

lemma one_call_ok:
  assumes h: "async_holds cb c" and one: "one_call cb c c'"
  shows "async_ok c'"
proof -
  from one have "mset (map cb_id (a_runs c')) + mset (List.map_filter callback (a_kernel c')) =
      mset (map cb_id (a_runs c)) + mset (List.map_filter callback (a_kernel c)) + mset (case cb of None \<Rightarrow> [] | Some i \<Rightarrow> [i])"
    unfolding one_call_def
    by (elim conjE disjE exE) (simp_all del: mset_map add: List.map_filter_def split: option.split)
  with h one show ?thesis by (auto simp: async_ok_def async_holds_def one_call_def)
qed

lemma AsyncConnect_ok:
  assumes "async_ok c" "newfd \<noteq> -1" "0 \<le> ret"
  shows "async_ok (snd (AsyncConnect strerror given ip newfd ip_ok sqe ret c))"
proof -
  obtain cb c1 where t: "take_callback given c = (cb, c1)" by fastforce
  note h = take_callback_holds [OF assms(1) t]
  have "one_call cb c1 (snd (AsyncConnect strerror given ip newfd ip_ok sqe ret c))"
    using h assms(2,3) by (simp add: async_holds_def one_call_def AsyncConnect_def t a_submit_def prepare_def Let_def) auto
  with h show ?thesis by (rule one_call_ok)
qed

lemma AsyncWrite_ok:
  assumes "async_ok c" "0 \<le> ret"
  shows "async_ok (snd (AsyncWrite strerror given data sqe ret c))"
proof -
  obtain cb c1 where t: "take_callback given c = (cb, c1)" by fastforce
  note h = take_callback_holds [OF assms(1) t]
  have "one_call cb c1 (snd (AsyncWrite strerror given data sqe ret c))"
    using h assms(2) by (simp add: async_holds_def one_call_def AsyncWrite_def t a_submit_def prepare_def Let_def) auto
  with h show ?thesis by (rule one_call_ok)
qed

lemma AsyncRead_ok:
  assumes "async_ok c" "0 \<le> ret"
  shows "async_ok (snd (AsyncRead strerror given sqe ret c))"
proof -
  obtain cb c1 where t: "take_callback given c = (cb, c1)" by fastforce
  note h = take_callback_holds [OF assms(1) t]
  have "one_call cb c1 (snd (AsyncRead strerror given sqe ret c))"
    using h assms(2) by (simp add: async_holds_def one_call_def AsyncRead_def t a_submit_def prepare_def Let_def) auto
  with h show ?thesis by (rule one_call_ok)
qed

lemma async_step_ok:
  assumes "async_step strerror c c'" and "async_ok c"
  shows "async_ok c'"
  using assms
proof cases
  case (a_complete ctx res read_buf)
  then show ?thesis
    using assms(2) map_filter_remove1 [OF a_complete(2), of callback]
    by (auto simp: async_ok_def on_completion_mset ac_simps)
next
  case a_close
  then show ?thesis using assms(2) by (simp add: async_ok_def)
qed (use assms(2) AsyncConnect_ok AsyncWrite_ok AsyncRead_ok in blast)+

interpretation async: inductive_invariant async_start "async_step strerror" async_ok for strerror
proof (unfold_locales, goal_cases)
  case (1 c)
  then show ?case by (auto simp: async_start_def async_ok_def async_new_def List.map_filter_simps)
next
  case (2 c c')
  then show ?case using async_step_ok by blast
qed

end
