(* ===== verification/Coroutine.thy ===== *)
theory Coroutine
  imports KimPrelude
begin

text \<open>
  The coroutine module (include/coroutine/task.h, io_uring_awaiter.h, sync_wait.h). The body of a
  coroutine is user code: a value of \<open>co\<close>, which says what it does up to its next suspension
  point and how it goes on. The C++ side is modelled: promises in a heap of coroutine frames,
  handles as addresses, lazy start, symmetric transfer to the child and back, results and
  exceptions in the promise, the root coroutine \<open>DetachedTask\<close> that frees its own frame, the awaiter
  of an io_uring operation, and \<open>sync_wait\<close> with its event loop.
\<close>

section \<open>Coroutine bodies\<close>

type_synonym exn = nat

text \<open>The operations of io_uring_awaiter.h with the arguments of their \<open>io_uring_prep\<close> calls; buffers
  and structures are addresses.\<close>

datatype io_op =
    RecvOp int nat nat int
  | SendOp int nat nat int
  | ReadOp int nat nat u64
  | WriteOp int nat nat u64
  | AcceptOp int nat nat int
  | ConnectOp int nat nat
  | TimeoutOp nat nat nat

text \<open>What an operation gives back: \<open>cqe->res\<close>, \<open>cqe->flags\<close>, and what the kernel has put into its
  buffer.\<close>

type_synonym io_answer = "int \<times> 32 word \<times> bytes"

text \<open>\<open>AwaitTask\<close> is \<open>co_await f()\<close>: the rest gets the exception or the value of the child, so
  that a body with a handler around the \<open>co_await\<close> is one too.\<close>

datatype 'v co =
    Return 'v
  | Throw exn
  | AwaitIo io_op "io_answer \<Rightarrow> 'v co"
  | AwaitTask "'v co" "exn + 'v \<Rightarrow> 'v co"

text \<open>\<open>make_uring_awaitable\<close> and the wrappers: each awaits one operation.\<close>

definition make_uring_awaitable :: "io_op \<Rightarrow> (io_answer \<Rightarrow> 'v co) \<Rightarrow> 'v co" where
  "make_uring_awaitable prep k = AwaitIo prep k"

definition async_recv :: "int \<Rightarrow> nat \<Rightarrow> nat \<Rightarrow> int \<Rightarrow> (io_answer \<Rightarrow> 'v co) \<Rightarrow> 'v co" where
  "async_recv fd buf len flags = make_uring_awaitable (RecvOp fd buf len flags)"

definition async_send :: "int \<Rightarrow> nat \<Rightarrow> nat \<Rightarrow> int \<Rightarrow> (io_answer \<Rightarrow> 'v co) \<Rightarrow> 'v co" where
  "async_send fd buf len flags = make_uring_awaitable (SendOp fd buf len flags)"

definition async_read :: "int \<Rightarrow> nat \<Rightarrow> nat \<Rightarrow> u64 \<Rightarrow> (io_answer \<Rightarrow> 'v co) \<Rightarrow> 'v co" where
  "async_read fd buf len offset = make_uring_awaitable (ReadOp fd buf len offset)"

definition async_write :: "int \<Rightarrow> nat \<Rightarrow> nat \<Rightarrow> u64 \<Rightarrow> (io_answer \<Rightarrow> 'v co) \<Rightarrow> 'v co" where
  "async_write fd buf len offset = make_uring_awaitable (WriteOp fd buf len offset)"

definition async_accept :: "int \<Rightarrow> nat \<Rightarrow> nat \<Rightarrow> int \<Rightarrow> (io_answer \<Rightarrow> 'v co) \<Rightarrow> 'v co" where
  "async_accept fd addr addrlen flags = make_uring_awaitable (AcceptOp fd addr addrlen flags)"

definition async_connect :: "int \<Rightarrow> nat \<Rightarrow> nat \<Rightarrow> (io_answer \<Rightarrow> 'v co) \<Rightarrow> 'v co" where
  "async_connect fd addr addrlen = make_uring_awaitable (ConnectOp fd addr addrlen)"

definition async_timeout :: "nat \<Rightarrow> nat \<Rightarrow> nat \<Rightarrow> (io_answer \<Rightarrow> 'v co) \<Rightarrow> 'v co" where
  "async_timeout ts cnt flags = make_uring_awaitable (TimeoutOp ts cnt flags)"

datatype 'v point =
    At "'v co"
  | InIo "io_answer \<Rightarrow> 'v co"
  | InTask nat "exn + 'v \<Rightarrow> 'v co"
  | AtFinal

section \<open>Promises and frames\<close>

record 'v task_promise =
  continuation :: "nat option"
  exception :: "exn option"
  storage :: "'v option"
  point :: "'v point"
  req_result :: io_answer  \<comment> \<open>the \<open>IoRequest\<close> of the awaiter the frame holds\<close>
  detached :: bool  \<comment> \<open>the promise of a \<open>DetachedTask\<close>\<close>

record 'v machine =
  heap :: "nat \<Rightarrow> 'v task_promise option"
  fresh :: nat
  sqe_room :: "bool list"  \<comment> \<open>answers of \<open>io_uring_get_sqe\<close>; there is room when the list is exhausted\<close>
  io_ring :: "(nat \<times> io_op) list"
  io_answers :: "io_answer list"  \<comment> \<open>results the operations will have\<close>
  unhandled :: "exn list"  \<comment> \<open>exceptions a \<open>DetachedTask\<close> has printed\<close>

definition new_promise :: "'v co \<Rightarrow> 'v task_promise" where
  "new_promise body = \<lparr>continuation = None, exception = None, storage = None, point = At body,
     req_result = (0, 0, []), detached = False\<rparr>"

definition set_frame :: "nat \<Rightarrow> 'v task_promise \<Rightarrow> 'v machine \<Rightarrow> 'v machine" where
  "set_frame h p m = m\<lparr>heap := (heap m)(h \<mapsto> p)\<rparr>"

definition destroy :: "nat \<Rightarrow> 'v machine \<Rightarrow> 'v machine" where
  "destroy h m = m\<lparr>heap := (heap m)(h := None)\<rparr>"

text \<open>\<open>result()\<close>: rethrows, or reads the storage; \<open>None\<close> is a read of a value that is not there.\<close>

definition task_result :: "'v task_promise \<Rightarrow> (exn + 'v) option" where
  "task_result p = (case exception p of Some e \<Rightarrow> Some (Inl e) | None \<Rightarrow> map_option Inr (storage p))"

definition task_done :: "nat \<Rightarrow> 'v machine \<Rightarrow> bool" where
  "task_done h m = (case heap m h of Some p \<Rightarrow> (case point p of AtFinal \<Rightarrow> True | _ \<Rightarrow> False) | None \<Rightarrow> False)"

section \<open>Awaiters\<close>

definition ENOMEM :: int where "ENOMEM = 12"

definition no_sqe :: io_answer where "no_sqe = (- ENOMEM, 0, [])"

definition get_room :: "bool list \<Rightarrow> bool \<times> bool list" where
  "get_room rooms = (case rooms of [] \<Rightarrow> (True, []) | r # rs \<Rightarrow> (r, rs))"

text \<open>\<open>UringAwaiter::await_suspend\<close>: a second attempt after a submit; \<open>False\<close> resumes at once with
  \<open>-ENOMEM\<close>.\<close>

definition sqe_attempts :: "bool list \<Rightarrow> bool \<times> bool list" where
  "sqe_attempts rooms = (let (a, rooms1) = get_room rooms in if a then (True, rooms1) else get_room rooms1)"

definition uring_await_suspend :: "nat \<Rightarrow> io_op \<Rightarrow> 'v machine \<Rightarrow> bool \<times> 'v machine" where
  "uring_await_suspend h op m =
     (let (ok, rooms) = sqe_attempts (sqe_room m); m1 = m\<lparr>sqe_room := rooms\<rparr> in
      if \<not> ok then (False, m1) else (True, m1\<lparr>io_ring := io_ring m1 @ [(h, op)]\<rparr>))"

text \<open>The end of a coroutine. \<open>FinalAwaiter::await_suspend\<close> gives the continuation or \<open>noop_coroutine\<close>;
  a \<open>DetachedTask\<close> does not suspend, so its frame is freed.\<close>

definition final_suspend :: "nat \<Rightarrow> 'v task_promise \<Rightarrow> 'v machine \<Rightarrow> nat option \<times> 'v machine" where
  "final_suspend h p m =
     (if detached p then (None, destroy h m) else (continuation p, set_frame h (p\<lparr>point := AtFinal\<rparr>) m))"

text \<open>\<open>unhandled_exception\<close>: kept in the promise for the one who awaits, or printed.\<close>

definition unhandled_exception :: "exn \<Rightarrow> nat \<Rightarrow> 'v task_promise \<Rightarrow> 'v machine \<Rightarrow> nat option \<times> 'v machine" where
  "unhandled_exception e h p m =
     (if detached p then final_suspend h p (m\<lparr>unhandled := unhandled m @ [e]\<rparr>)
      else final_suspend h (p\<lparr>exception := Some e\<rparr>) m)"

text \<open>\<open>co_await\<close> of a new task: its frame is created suspended, the awaiting coroutine becomes its
  continuation, and control goes to it.\<close>

definition await_task :: "nat \<Rightarrow> 'v task_promise \<Rightarrow> 'v co \<Rightarrow> (exn + 'v \<Rightarrow> 'v co) \<Rightarrow> 'v machine \<Rightarrow> nat option \<times> 'v machine" where
  "await_task h p child k m =
     (let ch = fresh m;
          m1 = set_frame ch ((new_promise child)\<lparr>continuation := Some h\<rparr>) (m\<lparr>fresh := Suc ch\<rparr>)
      in (Some ch, set_frame h (p\<lparr>point := InTask ch k\<rparr>) m1))"

section \<open>Running\<close>

text \<open>
  What coroutine \<open>h\<close> does until control moves: to another coroutine, to itself, or (\<open>None\<close>) back
  to whoever resumed. The outer \<open>None\<close> is undefined behaviour: a handle without a frame, or of a
  finished coroutine.
\<close>

definition co_step :: "nat \<Rightarrow> 'v machine \<Rightarrow> (nat option \<times> 'v machine) option" where
  "co_step h m =
     (case heap m h of
        None \<Rightarrow> None
      | Some p \<Rightarrow>
          (case point p of
             At (Return v) \<Rightarrow> Some (final_suspend h (p\<lparr>storage := Some v\<rparr>) m)
           | At (Throw e) \<Rightarrow> Some (unhandled_exception e h p m)
           | At (AwaitIo op k) \<Rightarrow>
               let (suspended, m1) = uring_await_suspend h op m in
               if suspended then Some (None, set_frame h (p\<lparr>point := InIo k\<rparr>) m1)
               else Some (Some h, set_frame h (p\<lparr>point := At (k no_sqe)\<rparr>) m1)
           | At (AwaitTask c k) \<Rightarrow> Some (await_task h p c k m)
           | InIo k \<Rightarrow> Some (Some h, set_frame h (p\<lparr>point := At (k (req_result p))\<rparr>) m)
           | InTask ch k \<Rightarrow>
               (case heap m ch of
                  None \<Rightarrow> None
                | Some q \<Rightarrow>
                    (case task_result q of
                       None \<Rightarrow> None
                     | Some r \<Rightarrow> Some (Some h, destroy ch (set_frame h (p\<lparr>point := At (k r)\<rparr>) m))))
           | AtFinal \<Rightarrow> None))"

text \<open>\<open>handle.resume()\<close>: the transfers happen in a loop, not in nested calls.\<close>

partial_function (option) resume :: "nat \<Rightarrow> 'v machine \<Rightarrow> 'v machine option" where
  "resume h m =
     (case co_step h m of
        None \<Rightarrow> None
      | Some (next, m') \<Rightarrow> (case next of None \<Rightarrow> Some m' | Some h' \<Rightarrow> resume h' m'))"

definition resumeFromCqe :: "nat \<Rightarrow> io_answer \<Rightarrow> 'v machine \<Rightarrow> 'v machine option" where
  "resumeFromCqe h res m =
     (case heap m h of
        None \<Rightarrow> None
      | Some p \<Rightarrow> resume h (set_frame h (p\<lparr>req_result := res\<rparr>) m))"

text \<open>The wait ends with a completion of the oldest operation; it never ends when there is none.\<close>

definition drainCqes :: "'v machine \<Rightarrow> 'v machine option" where
  "drainCqes m =
     (case (io_ring m, io_answers m) of
        ((h, op) # ops, r # rs) \<Rightarrow> resumeFromCqe h r (m\<lparr>io_ring := ops, io_answers := rs\<rparr>)
      | _ \<Rightarrow> None)"

partial_function (option) run_until :: "('v machine \<Rightarrow> bool) \<Rightarrow> 'v machine \<Rightarrow> 'v machine option" where
  "run_until stop m =
     (if stop m then Some m else (case drainCqes m of None \<Rightarrow> None | Some m' \<Rightarrow> run_until stop m'))"

definition sync_loop :: "nat \<Rightarrow> 'v machine \<Rightarrow> 'v machine option" where
  "sync_loop h m = run_until (task_done h) m"

definition coro_machine :: "'v task_promise \<Rightarrow> bool list \<Rightarrow> io_answer list \<Rightarrow> 'v machine" where
  "coro_machine p rooms results =
     \<lparr>heap = [0 \<mapsto> p], fresh = 1, sqe_room = rooms, io_ring = [], io_answers = results, unhandled = []\<rparr>"

definition task_machine :: "'v co \<Rightarrow> bool list \<Rightarrow> io_answer list \<Rightarrow> 'v machine" where
  "task_machine body rooms results = coro_machine (new_promise body) rooms results"

text \<open>A \<open>DetachedTask\<close> starts when it is called; the program's event loop then runs until the frame is
  gone.\<close>

definition DetachedTask :: "'v co \<Rightarrow> bool list \<Rightarrow> io_answer list \<Rightarrow> 'v machine option" where
  "DetachedTask body rooms results =
     (case resume 0 (coro_machine ((new_promise body)\<lparr>detached := True\<rparr>) rooms results) of
        None \<Rightarrow> None
      | Some m \<Rightarrow> run_until (\<lambda>m. heap m 0 = None) m)"

definition sync_wait :: "'v co \<Rightarrow> bool list \<Rightarrow> io_answer list \<Rightarrow> ((exn + 'v) \<times> 'v machine) option" where
  "sync_wait body rooms results =
     (case resume 0 (task_machine body rooms results) of
        None \<Rightarrow> None
      | Some m \<Rightarrow>
          (case sync_loop 0 m of
             None \<Rightarrow> None
           | Some m' \<Rightarrow> (case heap m' 0 of None \<Rightarrow> None | Some p \<Rightarrow> map_option (\<lambda>r. (r, m')) (task_result p))))"

section \<open>The sequential program\<close>

text \<open>
  The reference: the body run like an ordinary function, an operation answered when it is called.
  \<open>None\<close>: an operation is never answered.
\<close>

type_synonym world = "bool list \<times> io_answer list"

primrec eval :: "'v co \<Rightarrow> world \<Rightarrow> ((exn + 'v) \<times> world) option" where
  "eval (Return v) w = Some (Inr v, w)"
| "eval (Throw e) w = Some (Inl e, w)"
| "eval (AwaitIo op k) w =
     (let (ok, rooms) = sqe_attempts (fst w) in
      if \<not> ok then eval (k no_sqe) (rooms, snd w)
      else (case snd w of [] \<Rightarrow> None | r # rs \<Rightarrow> eval (k r) (rooms, rs)))"
| "eval (AwaitTask c k) w = (case eval c w of None \<Rightarrow> None | Some (r, w') \<Rightarrow> eval (k r) w')"

section \<open>The machine computes the sequential program\<close>

definition world_of :: "'v machine \<Rightarrow> world" where
  "world_of m = (sqe_room m, io_answers m)"

text \<open>From a point of control on, to the end of the event loop.\<close>

definition go_on :: "('v machine \<Rightarrow> bool) \<Rightarrow> nat option \<Rightarrow> 'v machine \<Rightarrow> 'v machine option" where
  "go_on stop n m =
     (case n of
        None \<Rightarrow> run_until stop m
      | Some h \<Rightarrow> (case resume h m of None \<Rightarrow> None | Some m' \<Rightarrow> run_until stop m'))"

lemma go_on_step:
  assumes "co_step h m = Some (n, m')"
  shows "go_on stop (Some h) m = go_on stop n m'"
proof -
  have "resume h m = (case n of None \<Rightarrow> Some m' | Some h' \<Rightarrow> resume h' m')"
    using assms by (subst resume.simps) simp
  then show ?thesis by (cases n) (simp_all add: go_on_def)
qed

lemma go_on_wait:
  assumes "\<not> stop m"
  shows "go_on stop None m = (case (io_ring m, io_answers m) of
      ((h, op) # ops, r # rs) \<Rightarrow>
        (case heap m h of
           None \<Rightarrow> None
         | Some p \<Rightarrow> go_on stop (Some h) (set_frame h (p\<lparr>req_result := r\<rparr>) (m\<lparr>io_ring := ops, io_answers := rs\<rparr>)))
    | _ \<Rightarrow> None)"
  using assms
  by (simp add: go_on_def run_until.simps [of stop m] drainCqes_def resumeFromCqe_def split: list.split option.split)

text \<open>Only coroutine \<open>h\<close> differs.\<close>

definition same_but :: "nat \<Rightarrow> 'v machine \<Rightarrow> 'v machine \<Rightarrow> bool" where
  "same_but h m m1 \<longleftrightarrow> (\<forall>i. i \<noteq> h \<longrightarrow> heap m1 i = heap m i) \<and> unhandled m1 = unhandled m"

text \<open>Coroutine \<open>h\<close> is about to run \<open>c\<close>, nothing is outstanding, and the root has not finished; \<open>d\<close> tells
  whether \<open>h\<close> is detached.\<close>

definition about_to :: "'v co \<Rightarrow> nat \<Rightarrow> nat option \<Rightarrow> bool \<Rightarrow> 'v machine \<Rightarrow> bool" where
  "about_to c h k d m \<longleftrightarrow>
     (\<exists>p. heap m h = Some p \<and> point p = At c \<and> continuation p = k \<and> exception p = None \<and> storage p = None \<and>
        detached p = d) \<and> (d \<longrightarrow> k = None) \<and>
     io_ring m = [] \<and> h < fresh m \<and> (\<forall>i\<ge>fresh m. heap m i = None) \<and> heap m 0 \<noteq> None \<and> \<not> task_done 0 m"

definition finished_with :: "exn + 'v \<Rightarrow> nat \<Rightarrow> bool \<Rightarrow> 'v machine \<Rightarrow> world \<Rightarrow> 'v machine \<Rightarrow> bool" where
  "finished_with r h d m w m' \<longleftrightarrow>
     (if d then heap m' h = None \<and> unhandled m' = unhandled m @ (case r of Inl e \<Rightarrow> [e] | Inr _ \<Rightarrow> [])
      else (\<exists>p. heap m' h = Some p \<and> point p = AtFinal \<and> task_result p = Some r) \<and> unhandled m' = unhandled m) \<and>
     (\<forall>i. i \<noteq> h \<longrightarrow> heap m' i = heap m i) \<and> io_ring m' = [] \<and> fresh m \<le> fresh m' \<and> world_of m' = w"

lemma finished_after:
  assumes "finished_with r h d m1 w m'" and "same_but h m m1" and "fresh m \<le> fresh m1"
  shows "finished_with r h d m w m'"
  using assms unfolding finished_with_def same_but_def by (cases d) auto

lemma task_done_point: "heap m h = Some p \<Longrightarrow> task_done h m = (case point p of AtFinal \<Rightarrow> True | _ \<Rightarrow> False)"
  by (simp add: task_done_def)

text \<open>Setting the point of a frame that is not at its end leaves the root unfinished.\<close>

lemma about_to_set:
  assumes "about_to c h k d m" and "heap m' h = Some p'" and "point p' = At c'" and "continuation p' = k" and "detached p' = d"
    and "exception p' = None" and "storage p' = None" and "\<And>i. i \<noteq> h \<Longrightarrow> heap m' i = heap m i"
    and "io_ring m' = []" and "fresh m' = fresh m"
  shows "about_to c' h k d m'"
proof -
  have "\<not> task_done 0 m'"
    using assms(1-3,8) by (cases "h = 0") (auto simp: about_to_def task_done_def)
  moreover have "heap m' 0 \<noteq> None" using assms(1,2,8) by (cases "h = 0") (auto simp: about_to_def)
  moreover have "\<forall>i\<ge>fresh m'. heap m' i = None" using assms(1,8,10) by (auto simp: about_to_def)
  ultimately show ?thesis using assms by (auto simp: about_to_def)
qed

text \<open>A loop that does not stop before the root coroutine, at address 0, has ended.\<close>

locale coro_loop =
  fixes stop :: "'v machine \<Rightarrow> bool"
  assumes stop_root: "stop m \<Longrightarrow> heap m 0 = None \<or> task_done 0 m"
begin

text \<open>An operation: answered at once with \<open>-ENOMEM\<close>, or suspended until the loop takes its result.\<close>

lemma go_on_io:
  assumes a: "about_to (AwaitIo op f) h k d m" and rooms: "sqe_attempts (sqe_room m) = (ok, rooms)"
  shows "\<not> ok \<Longrightarrow> \<exists>m1. go_on stop (Some h) m = go_on stop (Some h) m1 \<and> about_to (f no_sqe) h k d m1 \<and>
      same_but h m m1 \<and> fresh m1 = fresh m \<and> world_of m1 = (rooms, io_answers m)"
    and "ok \<Longrightarrow> io_answers m = [] \<Longrightarrow> go_on stop (Some h) m = None"
    and "ok \<Longrightarrow> io_answers m = r # rs \<Longrightarrow> \<exists>m1. go_on stop (Some h) m = go_on stop (Some h) m1 \<and> about_to (f r) h k d m1 \<and>
      same_but h m m1 \<and> fresh m1 = fresh m \<and> world_of m1 = (rooms, rs)"
proof -
  obtain p where p: "heap m h = Some p" "point p = At (AwaitIo op f)" "continuation p = k" "exception p = None"
    "storage p = None" "detached p = d" "d \<longrightarrow> k = None" using a by (auto simp: about_to_def)
  have ring: "io_ring m = []" using a by (simp add: about_to_def)
  let ?m1 = "m\<lparr>sqe_room := rooms\<rparr>"
  { assume no: "\<not> ok"
    let ?m2 = "set_frame h (p\<lparr>point := At (f no_sqe)\<rparr>) ?m1"
    have "co_step h m = Some (Some h, ?m2)"
      using p rooms no by (simp add: co_step_def uring_await_suspend_def)
    moreover have "about_to (f no_sqe) h k d ?m2"
      by (rule about_to_set [OF a, where p' = "p\<lparr>point := At (f no_sqe)\<rparr>"]) (use p ring in \<open>simp_all add: set_frame_def\<close>)
    ultimately show "\<exists>m1. go_on stop (Some h) m = go_on stop (Some h) m1 \<and> about_to (f no_sqe) h k d m1 \<and>
      same_but h m m1 \<and> fresh m1 = fresh m \<and> world_of m1 = (rooms, io_answers m)"
      using go_on_step by (intro exI [of _ ?m2]) (auto simp: set_frame_def world_of_def same_but_def) }
  let ?m2 = "set_frame h (p\<lparr>point := InIo f\<rparr>) (?m1\<lparr>io_ring := [(h, op)]\<rparr>)"
  { assume ok
    have step: "co_step h m = Some (None, ?m2)"
      using p rooms \<open>ok\<close> ring by (simp add: co_step_def uring_await_suspend_def)
    have "\<not> task_done 0 ?m2 \<and> heap ?m2 0 \<noteq> None"
      using a by (cases "h = 0") (auto simp: about_to_def task_done_def set_frame_def)
    then have "\<not> stop ?m2" by (metis stop_root)
    from go_on_step [OF step, of stop] go_on_wait [of stop ?m2, OF this]
    have wait: "go_on stop (Some h) m = (case io_answers m of [] \<Rightarrow> None | r # rs \<Rightarrow>
        go_on stop (Some h) (set_frame h (p\<lparr>point := InIo f, req_result := r\<rparr>) (?m2\<lparr>io_ring := [], io_answers := rs\<rparr>)))"
      by (simp add: set_frame_def split: list.split)
    show "io_answers m = [] \<Longrightarrow> go_on stop (Some h) m = None" by (simp add: wait)
    assume ans: "io_answers m = r # rs"
    let ?m3 = "set_frame h (p\<lparr>point := InIo f, req_result := r\<rparr>) (?m2\<lparr>io_ring := [], io_answers := rs\<rparr>)"
    let ?m4 = "set_frame h (p\<lparr>req_result := r, point := At (f r)\<rparr>) ?m3"
    have "co_step h ?m3 = Some (Some h, ?m4)" by (simp add: co_step_def set_frame_def)
    then have "go_on stop (Some h) m = go_on stop (Some h) ?m4" using wait ans go_on_step by simp
    moreover have "about_to (f r) h k d ?m4"
      by (rule about_to_set [OF a, where p' = "p\<lparr>req_result := r, point := At (f r)\<rparr>"]) (use p in \<open>simp_all add: set_frame_def\<close>)
    ultimately show "\<exists>m1. go_on stop (Some h) m = go_on stop (Some h) m1 \<and> about_to (f r) h k d m1 \<and>
      same_but h m m1 \<and> fresh m1 = fresh m \<and> world_of m1 = (rooms, rs)"
      by (intro exI [of _ ?m4]) (simp add: set_frame_def world_of_def same_but_def) }
qed

text \<open>Starting a child, and taking its result when it has finished.\<close>

lemma go_on_child:
  assumes a: "about_to (AwaitTask c f) h k d m"
  obtains m1 where "go_on stop (Some h) m = go_on stop (Some (fresh m)) m1" "about_to c (fresh m) (Some h) False m1"
    "world_of m1 = world_of m" "fresh m1 = Suc (fresh m)"
    "\<And>r w m2. finished_with r (fresh m) False m1 w m2 \<Longrightarrow> \<exists>m3. go_on stop (Some h) m2 = go_on stop (Some h) m3 \<and>
       about_to (f r) h k d m3 \<and> same_but h m m3 \<and> fresh m \<le> fresh m3 \<and> world_of m3 = w"
proof -
  obtain p where p: "heap m h = Some p" "point p = At (AwaitTask c f)" "continuation p = k" "exception p = None"
    "storage p = None" "detached p = d" "d \<longrightarrow> k = None" using a by (auto simp: about_to_def)
  let ?ch = "fresh m"
  have hc: "h < ?ch" and new: "\<forall>i\<ge>?ch. heap m i = None" and ring: "io_ring m = []" and zero: "heap m 0 \<noteq> None" "\<not> task_done 0 m"
    using a by (simp_all add: about_to_def)
  then have c0: "?ch \<noteq> 0" by simp
  let ?q = "(new_promise c)\<lparr>continuation := Some h\<rparr>"
  let ?m1 = "set_frame h (p\<lparr>point := InTask ?ch f\<rparr>) (set_frame ?ch ?q (m\<lparr>fresh := Suc ?ch\<rparr>))"
  have "co_step h m = Some (Some ?ch, ?m1)" using p by (simp add: co_step_def await_task_def Let_def)
  note start = go_on_step [OF this]
  have nd: "\<not> task_done 0 ?m1" using zero(2) c0 by (auto simp: task_done_def set_frame_def)
  have about: "about_to c ?ch (Some h) False ?m1"
    using hc new ring zero nd by (auto simp: about_to_def set_frame_def new_promise_def)
  show thesis
  proof (rule that [OF start about], goal_cases)
    case (3 r w m2)
    then have m2: "heap m2 i = heap ?m1 i" if "i \<noteq> ?ch" for i using that by (simp add: finished_with_def)
    obtain q where q: "heap m2 ?ch = Some q" "task_result q = Some r" using 3 by (auto simp: finished_with_def)
    let ?m3 = "destroy ?ch (set_frame h (p\<lparr>point := At (f r)\<rparr>) m2)"
    have h2: "heap m2 h = Some (p\<lparr>point := InTask ?ch f\<rparr>)" using m2 [of h] hc by (simp add: set_frame_def)
    have step: "co_step h m2 = Some (Some h, ?m3)" using h2 q by (simp add: co_step_def)
    have heap3: "heap ?m3 i = (if i = h then Some (p\<lparr>point := At (f r)\<rparr>) else heap m i)" for i
      using hc new m2 [of i] by (auto simp: destroy_def set_frame_def)
    have "about_to (f r) h k d ?m3"
    proof -
      have "\<not> task_done 0 ?m3" using zero(2) by (simp add: task_done_def heap3)
      moreover have "fresh m \<le> fresh ?m3" using 3 by (simp add: finished_with_def destroy_def set_frame_def)
      moreover have "io_ring ?m3 = []" using 3 by (simp add: finished_with_def destroy_def set_frame_def)
      ultimately show ?thesis using p hc new zero(1) heap3 by (auto simp: about_to_def)
    qed
    moreover have "world_of ?m3 = w" "fresh m \<le> fresh ?m3" "same_but h m ?m3"
      using 3 heap3 by (simp_all add: finished_with_def world_of_def destroy_def set_frame_def same_but_def)
    ultimately show ?case using go_on_step [OF step] by (intro exI [of _ ?m3]) simp
  qed (simp_all add: world_of_def set_frame_def)
qed

lemma machine_computes_eval:
  "about_to c h k d m \<Longrightarrow>
     (case eval c (world_of m) of
        None \<Rightarrow> go_on stop (Some h) m = None
      | Some (r, w) \<Rightarrow> \<exists>m'. go_on stop (Some h) m = go_on stop k m' \<and> finished_with r h d m w m')"
proof (induction c arbitrary: h k d m)
  case (Return v)
  then obtain p where p: "heap m h = Some p" "point p = At (Return v)" "continuation p = k" "exception p = None"
    "detached p = d" "d \<longrightarrow> k = None" by (auto simp: about_to_def)
  let ?m' = "if d then destroy h m else set_frame h (p\<lparr>storage := Some v, point := AtFinal\<rparr>) m"
  have "co_step h m = Some (k, ?m')" using p by (simp add: co_step_def final_suspend_def)
  moreover have "finished_with (Inr v) h d m (world_of m) ?m'"
    using p Return by (auto simp: finished_with_def set_frame_def destroy_def task_result_def world_of_def about_to_def)
  ultimately show ?case using go_on_step [of h m k ?m' stop] by auto
next
  case (Throw e)
  then obtain p where p: "heap m h = Some p" "point p = At (Throw e)" "continuation p = k" "detached p = d"
    "d \<longrightarrow> k = None" by (auto simp: about_to_def)
  let ?m' = "if d then destroy h (m\<lparr>unhandled := unhandled m @ [e]\<rparr>)
    else set_frame h (p\<lparr>exception := Some e, point := AtFinal\<rparr>) m"
  have "co_step h m = Some (k, ?m')" using p by (simp add: co_step_def unhandled_exception_def final_suspend_def)
  moreover have "finished_with (Inl e) h d m (world_of m) ?m'"
    using p Throw by (auto simp: finished_with_def set_frame_def destroy_def task_result_def world_of_def about_to_def)
  ultimately show ?case using go_on_step [of h m k ?m' stop] by auto
next
  case (AwaitIo op f)
  obtain ok rooms where rooms: "sqe_attempts (sqe_room m) = (ok, rooms)" by fastforce
  note io = go_on_io [OF AwaitIo.prems rooms]
  have go: "case eval (f r) (world_of m1) of None \<Rightarrow> go_on stop (Some h) m = None
      | Some (r, w) \<Rightarrow> \<exists>m'. go_on stop (Some h) m = go_on stop k m' \<and> finished_with r h d m w m'"
    if "go_on stop (Some h) m = go_on stop (Some h) m1 \<and> about_to (f r) h k d m1 \<and>
      same_but h m m1 \<and> fresh m1 = fresh m \<and> world_of m1 = w1" for r m1 w1
  proof -
    have "case eval (f r) (world_of m1) of None \<Rightarrow> go_on stop (Some h) m1 = None
        | Some (r, w) \<Rightarrow> \<exists>m'. go_on stop (Some h) m1 = go_on stop k m' \<and> finished_with r h d m1 w m'"
      using AwaitIo.IH [of "f r" h k d m1] that by auto
    then show ?thesis using that finished_after [of _ h d m1 _ _ m] by (fastforce split: option.splits)
  qed
  show ?case
  proof (cases ok)
    case False
    with io(1) obtain m1 where "go_on stop (Some h) m = go_on stop (Some h) m1 \<and> about_to (f no_sqe) h k d m1 \<and>
      same_but h m m1 \<and> fresh m1 = fresh m \<and> world_of m1 = (rooms, io_answers m)" by blast
    from go [OF this] this False rooms show ?thesis by (simp add: world_of_def)
  next
    case True
    show ?thesis
    proof (cases "io_answers m")
      case Nil
      with True io(2) rooms show ?thesis by (simp add: world_of_def)
    next
      case (Cons r rs)
      with True io(3) obtain m1 where "go_on stop (Some h) m = go_on stop (Some h) m1 \<and> about_to (f r) h k d m1 \<and>
        same_but h m m1 \<and> fresh m1 = fresh m \<and> world_of m1 = (rooms, rs)" by blast
      from go [OF this] this True Cons rooms show ?thesis by (simp add: world_of_def)
    qed
  qed
next
  case (AwaitTask c f)
  obtain m1 where m1: "go_on stop (Some h) m = go_on stop (Some (fresh m)) m1" "about_to c (fresh m) (Some h) False m1"
    "world_of m1 = world_of m" "fresh m1 = Suc (fresh m)"
    and back_to: "\<And>r w m2. finished_with r (fresh m) False m1 w m2 \<Longrightarrow> \<exists>m3. go_on stop (Some h) m2 = go_on stop (Some h) m3 \<and>
       about_to (f r) h k d m3 \<and> same_but h m m3 \<and> fresh m \<le> fresh m3 \<and> world_of m3 = w"
    using go_on_child [OF AwaitTask.prems] by blast
  note child = AwaitTask.IH(1) [OF m1(2)]
  show ?case
  proof (cases "eval c (world_of m)")
    case None
    then show ?thesis using child m1 by simp
  next
    case (Some rw)
    obtain r w where rw: "rw = (r, w)" by (rule prod.exhaust)
    with Some child m1 obtain m2 where m2: "go_on stop (Some h) m = go_on stop (Some h) m2" "finished_with r (fresh m) False m1 w m2"
      by auto
    from back_to [OF m2(2)] obtain m3 where m3: "go_on stop (Some h) m2 = go_on stop (Some h) m3" "about_to (f r) h k d m3"
      "same_but h m m3" "fresh m \<le> fresh m3" "world_of m3 = w" by blast
    have "case eval (f r) w of None \<Rightarrow> go_on stop (Some h) m3 = None
        | Some (r, w) \<Rightarrow> \<exists>m'. go_on stop (Some h) m3 = go_on stop k m' \<and> finished_with r h d m3 w m'"
      using AwaitTask.IH(2) [of "f r" h k d m3] m3 by auto
    then show ?thesis
      using Some rw m2(1) m3(1,3,4) finished_after [of _ h d m3 _ _ m] by (fastforce split: option.splits)
  qed
qed

end

lemma coro_machine_ready: "about_to body 0 None d (coro_machine ((new_promise body)\<lparr>detached := d\<rparr>) rooms results)"
  by (simp add: about_to_def coro_machine_def new_promise_def task_done_def)

lemma world_of_coro_machine [simp]: "world_of (coro_machine p rooms results) = (rooms, results)"
  by (simp add: world_of_def coro_machine_def)

lemma coro_machine_fields [simp]:
  "heap (coro_machine p rooms results) = [0 \<mapsto> p]" "unhandled (coro_machine p rooms results) = []"
  by (simp_all add: coro_machine_def)

interpretation sync_root: coro_loop "task_done 0"
  by unfold_locales simp

interpretation detached_root: coro_loop "\<lambda>m. heap m 0 = None"
  by unfold_locales simp

section \<open>\<open>sync_wait\<close> and \<open>DetachedTask\<close>\<close>

lemma sync_wait_go_on:
  "sync_wait body rooms results =
     (case go_on (task_done 0) (Some 0) (task_machine body rooms results) of
        None \<Rightarrow> None
      | Some m' \<Rightarrow> (case heap m' 0 of None \<Rightarrow> None | Some p \<Rightarrow> map_option (\<lambda>r. (r, m')) (task_result p)))"
  by (simp add: sync_wait_def go_on_def sync_loop_def split: option.split)

lemma task_machine_ready: "about_to body 0 None False (task_machine body rooms results)"
  using coro_machine_ready [of body False] by (simp add: task_machine_def new_promise_def)

lemma sync_wait_eval:
  "case eval body (rooms, results) of
     None \<Rightarrow> sync_wait body rooms results = None
   | Some (r, w) \<Rightarrow> \<exists>m. sync_wait body rooms results = Some (r, m) \<and> world_of m = w \<and> io_ring m = [] \<and>
       (\<forall>i. i \<noteq> 0 \<longrightarrow> heap m i = None)"
proof -
  let ?m = "task_machine body rooms results"
  note all = sync_root.machine_computes_eval [OF task_machine_ready [of body rooms results]]
  have w: "world_of ?m = (rooms, results)" by (simp add: task_machine_def)
  show ?thesis
  proof (cases "eval body (rooms, results)")
    case None
    then show ?thesis using all by (simp add: w sync_wait_go_on)
  next
    case (Some rw)
    obtain r w' where rw: "rw = (r, w')" by (rule prod.exhaust)
    with Some obtain m where m: "go_on (task_done 0) (Some 0) ?m = go_on (task_done 0) None m"
        "finished_with r 0 False ?m w' m"
      using all by (auto simp: w)
    then obtain p where p: "heap m 0 = Some p" "point p = AtFinal" "task_result p = Some r"
      by (auto simp: finished_with_def)
    then have "go_on (task_done 0) None m = Some m" by (simp add: go_on_def run_until.simps task_done_def)
    with m p have "sync_wait body rooms results = Some (r, m)" by (simp add: sync_wait_go_on)
    moreover have "\<forall>i. i \<noteq> 0 \<longrightarrow> heap m i = None"
      using m(2) by (simp add: finished_with_def task_machine_def)
    ultimately show ?thesis using Some rw m(2) by (simp add: finished_with_def)
  qed
qed

text \<open>A detached task runs its body to the end; then no frame is left, and an exception was printed.\<close>

lemma detached_eval:
  "case eval body (rooms, results) of
     None \<Rightarrow> DetachedTask body rooms results = None
   | Some (r, w) \<Rightarrow> \<exists>m. DetachedTask body rooms results = Some m \<and> world_of m = w \<and> io_ring m = [] \<and>
       heap m = Map.empty \<and> unhandled m = (case r of Inl e \<Rightarrow> [e] | Inr _ \<Rightarrow> [])"
proof -
  let ?m = "coro_machine ((new_promise body)\<lparr>detached := True\<rparr>) rooms results"
  let ?gone = "\<lambda>m. heap m 0 = None"
  note all = detached_root.machine_computes_eval [OF coro_machine_ready [of body True rooms results]]
  have go: "DetachedTask body rooms results = go_on ?gone (Some 0) ?m" by (simp add: DetachedTask_def go_on_def)
  show ?thesis
  proof (cases "eval body (rooms, results)")
    case None
    then show ?thesis using all by (simp add: go)
  next
    case (Some rw)
    obtain r w where rw: "rw = (r, w)" by (rule prod.exhaust)
    with Some obtain m where m: "go_on ?gone (Some 0) ?m = go_on ?gone None m" "finished_with r 0 True ?m w m"
      using all by auto
    then have "heap m i = None" for i by (cases "i = 0") (simp_all add: finished_with_def)
    then have "heap m = Map.empty" by auto
    moreover from this have "go_on ?gone None m = Some m" by (simp add: go_on_def run_until.simps)
    ultimately show ?thesis using Some rw m by (simp add: go finished_with_def)
  qed
qed

section \<open>The self test\<close>

text \<open>The coroutines of test/coroutine/test_coro.cc: a chain of awaits, and a read from a pipe.\<close>

definition add_co :: "int \<Rightarrow> int \<Rightarrow> int co" where "add_co a b = Return (a + b)"

definition compute :: "int co" where
  "compute = AwaitTask (add_co 2 3) (case_sum Throw (\<lambda>x.
     AwaitTask (add_co x 10) (case_sum Throw (\<lambda>y. Return (x + y)))))"

text \<open>\<open>strerror\<close> is a parameter.\<close>

definition echoThroughPipe :: "(int \<Rightarrow> bytes) \<Rightarrow> int \<Rightarrow> nat \<Rightarrow> bytes co" where
  "echoThroughPipe strerror rfd buf =
     async_read rfd buf 64 0 (\<lambda>(n, flags, data).
       if n < 0 then Return (str ''read error: '' @ strerror (- n)) else Return (take (nat n) data))"

lemma compute_is_20: "\<exists>m. sync_wait compute rooms results = Some (Inr 20, m)"
  using sync_wait_eval [of compute rooms results] by (auto simp: compute_def add_co_def)

lemma echo_returns_what_was_read:
  "\<exists>m. sync_wait (echoThroughPipe strerror rfd buf) [] [(10, 0, str ''hello-coro'')] = Some (Inr (str ''hello-coro''), m)"
  using sync_wait_eval [of "echoThroughPipe strerror rfd buf" "[]" "[(10, 0, str ''hello-coro'')]"]
  by (auto simp: echoThroughPipe_def async_read_def make_uring_awaitable_def sqe_attempts_def get_room_def)

lemma echo_reports_error:
  "\<exists>m. sync_wait (echoThroughPipe strerror rfd buf) [] [(- 5, 0, [])] = Some (Inr (str ''read error: '' @ strerror 5), m)"
  using sync_wait_eval [of "echoThroughPipe strerror rfd buf" "[]" "[(- 5, 0, [])]"]
  by (auto simp: echoThroughPipe_def async_read_def make_uring_awaitable_def sqe_attempts_def get_room_def)

end
