(* ===== verification/TaskObject.thy ===== *)
theory TaskObject
  imports Coroutine
begin

text \<open>
  The class \<open>Task\<close> (include/coroutine/task.h): objects that own a coroutine frame through their
  handle, with construction, move, assignment and destruction, and the two \<open>co_await\<close> operators.
  Objects live at addresses; a handle is the address of a frame of theory Coroutine. \<open>None\<close> as
  a result is undefined behaviour: a handle that is destroyed twice, or used without a frame.
\<close>

section \<open>Objects\<close>

record 'v tasks =
  m_handle :: "nat \<Rightarrow> nat option option"  \<comment> \<open>the objects that exist; \<open>Some None\<close> has an empty handle\<close>
  frames :: "'v machine"

text \<open>\<open>m_handle.destroy()\<close> when there is one.\<close>

definition destroy_handle :: "nat option \<Rightarrow> 'v tasks \<Rightarrow> 'v tasks option" where
  "destroy_handle h s =
     (case h of
        None \<Rightarrow> Some s
      | Some f \<Rightarrow> (case heap (frames s) f of None \<Rightarrow> None | Some p \<Rightarrow> Some (s\<lparr>frames := destroy f (frames s)\<rparr>)))"

definition Task_default :: "nat \<Rightarrow> 'v tasks \<Rightarrow> 'v tasks" where
  "Task_default x s = s\<lparr>m_handle := (m_handle s)(x \<mapsto> None)\<rparr>"

text \<open>Calling a coroutine: its frame is created suspended at the start, and \<open>get_return_object\<close> wraps
  the handle.\<close>

definition get_return_object :: "nat \<Rightarrow> 'v co \<Rightarrow> 'v tasks \<Rightarrow> 'v tasks" where
  "get_return_object x body s =
     (let f = fresh (frames s) in
      s\<lparr>frames := set_frame f (new_promise body) ((frames s)\<lparr>fresh := Suc f\<rparr>), m_handle := (m_handle s)(x \<mapsto> Some f)\<rparr>)"

definition handle_of :: "nat \<Rightarrow> 'v tasks \<Rightarrow> nat option" where
  "handle_of x s = (case m_handle s x of Some h \<Rightarrow> h | None \<Rightarrow> None)"

definition Task_move :: "nat \<Rightarrow> nat \<Rightarrow> 'v tasks \<Rightarrow> 'v tasks" where
  "Task_move x y s = s\<lparr>m_handle := (m_handle s)(x \<mapsto> handle_of y s, y \<mapsto> None)\<rparr>"

definition Task_assign :: "nat \<Rightarrow> nat \<Rightarrow> 'v tasks \<Rightarrow> 'v tasks option" where
  "Task_assign x y s =
     (if x = y then Some s
      else (case destroy_handle (handle_of x s) s of
              None \<Rightarrow> None
            | Some s1 \<Rightarrow> Some (s1\<lparr>m_handle := (m_handle s1)(y \<mapsto> None, x \<mapsto> handle_of y s1)\<rparr>)))"

definition Task_destruct :: "nat \<Rightarrow> 'v tasks \<Rightarrow> 'v tasks option" where
  "Task_destruct x s =
     (case destroy_handle (handle_of x s) s of
        None \<Rightarrow> None
      | Some s1 \<Rightarrow> Some (s1\<lparr>m_handle := (m_handle s1)(x := None)\<rparr>))"

text \<open>\<open>done()\<close>, and \<open>await_ready\<close> of both awaiters.\<close>

definition Task_done :: "nat \<Rightarrow> 'v tasks \<Rightarrow> bool" where
  "Task_done x s = (case handle_of x s of None \<Rightarrow> True | Some f \<Rightarrow> task_done f (frames s))"

text \<open>\<open>await_suspend\<close>: the awaiting coroutine becomes the continuation, control goes to the task.\<close>

definition Task_await_suspend :: "nat \<Rightarrow> nat \<Rightarrow> 'v tasks \<Rightarrow> (nat \<times> 'v tasks) option" where
  "Task_await_suspend x awaiting s =
     (case handle_of x s of
        None \<Rightarrow> None
      | Some f \<Rightarrow>
          (case heap (frames s) f of
             None \<Rightarrow> None
           | Some p \<Rightarrow> Some (f, s\<lparr>frames := set_frame f (p\<lparr>continuation := Some awaiting\<rparr>) (frames s)\<rparr>)))"

text \<open>\<open>await_resume\<close> takes the result out of the promise without looking at the handle again.\<close>

definition Task_await_resume :: "nat \<Rightarrow> 'v tasks \<Rightarrow> (exn + 'v) option" where
  "Task_await_resume x s =
     (case handle_of x s of
        None \<Rightarrow> None
      | Some f \<Rightarrow> (case heap (frames s) f of None \<Rightarrow> None | Some p \<Rightarrow> task_result p))"

section \<open>Programs\<close>

text \<open>What a program does with objects; \<open>TRun\<close> is the body of a task running to its end with a
  result.\<close>

datatype 'v task_op =
    TDefault nat
  | TCall nat "'v co"
  | TMove nat nat
  | TAssign nat nat
  | TDestruct nat
  | TRun nat "exn + 'v"

definition task_run :: "nat \<Rightarrow> exn + 'v \<Rightarrow> 'v tasks \<Rightarrow> 'v tasks option" where
  "task_run x r s =
     (case handle_of x s of
        None \<Rightarrow> None
      | Some f \<Rightarrow>
          (case heap (frames s) f of
             None \<Rightarrow> None
           | Some p \<Rightarrow> Some (s\<lparr>frames := set_frame f (case r of
                 Inl e \<Rightarrow> p\<lparr>exception := Some e, point := AtFinal\<rparr>
               | Inr v \<Rightarrow> p\<lparr>storage := Some v, point := AtFinal\<rparr>) (frames s)\<rparr>)))"

fun task_op_do :: "'v task_op \<Rightarrow> 'v tasks \<Rightarrow> 'v tasks option" where
  "task_op_do (TDefault x) s = Some (Task_default x s)"
| "task_op_do (TCall x body) s = Some (get_return_object x body s)"
| "task_op_do (TMove x y) s = Some (Task_move x y s)"
| "task_op_do (TAssign x y) s = Task_assign x y s"
| "task_op_do (TDestruct x) s = Task_destruct x s"
| "task_op_do (TRun x r) s = task_run x r s"

text \<open>The rules of C++: an object is constructed where none is, and used while it exists; only a task
  that is not done is run.\<close>

fun lifetime_ok :: "'v task_op \<Rightarrow> 'v tasks \<Rightarrow> bool" where
  "lifetime_ok (TDefault x) s \<longleftrightarrow> m_handle s x = None"
| "lifetime_ok (TCall x body) s \<longleftrightarrow> m_handle s x = None"
| "lifetime_ok (TMove x y) s \<longleftrightarrow> m_handle s x = None \<and> m_handle s y \<noteq> None"
| "lifetime_ok (TAssign x y) s \<longleftrightarrow> m_handle s x \<noteq> None \<and> m_handle s y \<noteq> None"
| "lifetime_ok (TDestruct x) s \<longleftrightarrow> m_handle s x \<noteq> None"
| "lifetime_ok (TRun x r) s \<longleftrightarrow> m_handle s x \<noteq> None \<and> \<not> Task_done x s"

definition task_step :: "'v tasks \<Rightarrow> 'v tasks \<Rightarrow> bool" where
  "task_step s s' \<longleftrightarrow> (\<exists>op. lifetime_ok op s \<and> task_op_do op s = Some s')"

definition no_tasks :: "'v tasks \<Rightarrow> bool" where
  "no_tasks s \<longleftrightarrow> m_handle s = Map.empty \<and> heap (frames s) = Map.empty"

section \<open>Every frame has one owner\<close>

text \<open>The handles \<open>h\<close> of the objects and the frames \<open>H\<close> belong together one to one.\<close>

definition owners_of :: "(nat \<Rightarrow> nat option) \<Rightarrow> (nat \<Rightarrow> 'p option) \<Rightarrow> bool" where
  "owners_of h H \<longleftrightarrow> (\<forall>f. H f \<noteq> None \<longleftrightarrow> (\<exists>x. h x = Some f)) \<and>
     (\<forall>x y f. h x = Some f \<longrightarrow> h y = Some f \<longrightarrow> x = y)"

lemma owners_live: "owners_of h H \<Longrightarrow> h x = Some f \<Longrightarrow> \<exists>p. H f = Some p"
  by (auto simp: owners_of_def)

lemma owners_ofI:
  assumes "\<And>f x. h x = Some f \<Longrightarrow> H f \<noteq> None" and "\<And>f. H f \<noteq> None \<Longrightarrow> \<exists>x. h x = Some f"
    and "\<And>x y f. h x = Some f \<Longrightarrow> h y = Some f \<Longrightarrow> x = y"
  shows "owners_of h H"
  using assms unfolding owners_of_def by blast

lemma owners_ofD:
  assumes "owners_of h H"
  shows "h x = Some f \<Longrightarrow> H f \<noteq> None" "H f \<noteq> None \<Longrightarrow> \<exists>x. h x = Some f" "h x = Some f \<Longrightarrow> h y = Some f \<Longrightarrow> x = y"
  using assms unfolding owners_of_def by blast+

lemma owners_add:
  assumes "owners_of h H" "H f = None" "h x = None"
  shows "owners_of (h(x \<mapsto> f)) (H(f \<mapsto> p))"
proof (rule owners_ofI)
  fix g assume "(H(f \<mapsto> p)) g \<noteq> None"
  then show "\<exists>y. (h(x \<mapsto> f)) y = Some g"
    using owners_ofD(2) [OF assms(1), of g] assms(3) by (cases "g = f") (auto, metis option.distinct(1))
qed (use owners_ofD(1,3) [OF assms(1)] assms(2) in \<open>fastforce split: if_splits\<close>)+

lemma owners_drop:
  assumes "owners_of h H" "h x = Some f"
  shows "owners_of (h(x := None)) (H(f := None))"
proof (rule owners_ofI)
  fix g assume g: "(H(f := None)) g \<noteq> None"
  then obtain y where "h y = Some g" using owners_ofD(2) [OF assms(1), of g] by (auto split: if_splits)
  then show "\<exists>y. (h(x := None)) y = Some g" using g assms(2) by (intro exI [of _ y]) auto
qed (use owners_ofD(1,3) [OF assms(1)] assms(2) in \<open>auto split: if_splits\<close>)

lemma owners_move:
  assumes "owners_of h H" "h x = None" "x \<noteq> y"
  shows "owners_of (h(x := h y, y := None)) H"
proof (rule owners_ofI)
  fix g assume "H g \<noteq> None"
  then obtain z where "h z = Some g" using owners_ofD(2) [OF assms(1)] by blast
  then show "\<exists>z. (h(x := h y, y := None)) z = Some g"
    using assms(2,3) by (intro exI [of _ "if z = y then x else z"]) auto
qed (use owners_ofD(1,3) [OF assms(1)] in \<open>auto split: if_splits\<close>)

lemma owners_set: "owners_of h H \<Longrightarrow> h x = Some f \<Longrightarrow> owners_of h (H(f \<mapsto> p))"
  unfolding owners_of_def by (metis fun_upd_apply option.distinct(1))

definition owned_once :: "'v tasks \<Rightarrow> bool" where
  "owned_once s \<longleftrightarrow> owners_of (\<lambda>x. handle_of x s) (heap (frames s)) \<and> (\<forall>f\<ge>fresh (frames s). heap (frames s) f = None)"

lemma handle_of_upd:
  "(\<lambda>z. handle_of z (s\<lparr>m_handle := (m_handle t)(x \<mapsto> a)\<rparr>)) = (\<lambda>z. handle_of z (s\<lparr>m_handle := m_handle t\<rparr>))(x := a)"
  "(\<lambda>z. handle_of z (s\<lparr>m_handle := (m_handle t)(x \<mapsto> a, y \<mapsto> b)\<rparr>)) =
     (\<lambda>z. handle_of z (s\<lparr>m_handle := m_handle t\<rparr>))(x := a, y := b)"
  "(\<lambda>z. handle_of z (s\<lparr>m_handle := (m_handle t)(x := None)\<rparr>)) = (\<lambda>z. handle_of z (s\<lparr>m_handle := m_handle t\<rparr>))(x := None)"
  by (auto simp: handle_of_def fun_eq_iff)

lemma handle_of_frames [simp]: "handle_of x (s\<lparr>frames := m\<rparr>) = handle_of x s"
  by (simp add: handle_of_def)

text \<open>The object at \<open>x\<close> gives up its frame.\<close>

lemma destroy_handle_owned:
  assumes "owned_once s"
  obtains s1 where "destroy_handle (handle_of x s) s = Some s1" "m_handle s1 = m_handle s"
    "owners_of ((\<lambda>z. handle_of z s)(x := None)) (heap (frames s1))" "\<forall>f\<ge>fresh (frames s1). heap (frames s1) f = None"
proof (cases "handle_of x s")
  case None
  then have "(\<lambda>z. handle_of z s)(x := None) = (\<lambda>z. handle_of z s)" by auto
  then show thesis using assms None by (intro that [of s]) (simp_all add: destroy_handle_def owned_once_def)
next
  case (Some f)
  then obtain p where "heap (frames s) f = Some p" 
    using assms owners_live [of "\<lambda>z. handle_of z s" "heap (frames s)" x f] by (auto simp: owned_once_def)
  then show thesis
    using assms Some owners_drop [of "\<lambda>z. handle_of z s" "heap (frames s)" x f]
    by (intro that [of "s\<lparr>frames := destroy f (frames s)\<rparr>"]) (simp_all add: destroy_handle_def owned_once_def destroy_def)
qed

lemma owned_once_no_ub:
  assumes own: "owned_once s" and ok: "lifetime_ok op s"
  shows "\<exists>s'. task_op_do op s = Some s' \<and> owned_once s'"
proof -
  let ?h = "\<lambda>z. handle_of z s"
  have o: "owners_of ?h (heap (frames s))" and fr: "\<forall>f\<ge>fresh (frames s). heap (frames s) f = None"
    using own by (simp_all add: owned_once_def)
  have none: "?h(x := None) = ?h" if "m_handle s x = None" for x using that by (auto simp: handle_of_def)
  show ?thesis
  proof (cases op)
    case (TDefault x)
    then show ?thesis using own ok none [of x] by (simp add: Task_default_def owned_once_def handle_of_upd)
  next
    case (TCall x body)
    then have "owned_once (get_return_object x body s)"
      using ok owners_add [OF o, of "fresh (frames s)" x "new_promise body"] fr
      by (simp add: get_return_object_def Let_def owned_once_def handle_of_upd set_frame_def) (simp add: handle_of_def)
    then show ?thesis using TCall by simp
  next
    case (TMove x y)
    then have "handle_of x s = None" "x \<noteq> y" using ok by (auto simp: handle_of_def)
    then have "owned_once (Task_move x y s)"
      using owners_move [OF o, of x y] fr by (simp add: Task_move_def owned_once_def handle_of_upd)
    then show ?thesis using TMove by simp
  next
    case (TAssign x y)
    obtain s1 where s1: "destroy_handle (handle_of x s) s = Some s1" "m_handle s1 = m_handle s"
      "owners_of (?h(x := None)) (heap (frames s1))" "\<forall>f\<ge>fresh (frames s1). heap (frames s1) f = None"
      using destroy_handle_owned [OF own] by blast
    have same: "handle_of z (s1\<lparr>m_handle := m_handle s\<rparr>) = handle_of z s" "handle_of z s1 = handle_of z s" for z
      using s1(2) by (simp_all add: handle_of_def)
    have "owned_once (s1\<lparr>m_handle := (m_handle s1)(y \<mapsto> None, x \<mapsto> handle_of y s1)\<rparr>)" if "x \<noteq> y"
      using owners_move [OF s1(3), of x y] that s1(2,4)
      by (simp add: owned_once_def handle_of_upd same fun_upd_twist [OF that])
    then show ?thesis using TAssign s1(1) own by (simp add: Task_assign_def)
  next
    case (TDestruct x)
    obtain s1 where s1: "destroy_handle (handle_of x s) s = Some s1" "m_handle s1 = m_handle s"
      "owners_of (?h(x := None)) (heap (frames s1))" "\<forall>f\<ge>fresh (frames s1). heap (frames s1) f = None"
      using destroy_handle_owned [OF own] by blast
    have "handle_of z (s1\<lparr>m_handle := m_handle s\<rparr>) = handle_of z s" for z by (simp add: handle_of_def)
    then have "owned_once (s1\<lparr>m_handle := (m_handle s1)(x := None)\<rparr>)"
      using s1 by (simp add: owned_once_def handle_of_upd)
    then show ?thesis using TDestruct s1(1) by (simp add: Task_destruct_def)
  next
    case (TRun x r)
    then obtain f where f: "handle_of x s = Some f" using ok by (auto simp: Task_done_def split: option.splits)
    then obtain p where p: "heap (frames s) f = Some p" using owners_live [OF o] by blast
    have "owned_once (s\<lparr>frames := set_frame f q (frames s)\<rparr>)" for q
      using owners_set [OF o, of x f q] f fr p by (auto simp: owned_once_def set_frame_def)
    then show ?thesis using TRun f p by (simp add: task_run_def)
  qed
qed

interpretation task_owner: inductive_invariant no_tasks task_step owned_once
proof
  fix s :: "'a tasks" assume "no_tasks s"
  then show "owned_once s" by (simp add: no_tasks_def owned_once_def owners_of_def handle_of_def)
next
  fix s t :: "'a tasks" assume "owned_once s" and "task_step s t"
  then show "owned_once t" using owned_once_no_ub unfolding task_step_def by (metis option.inject)
qed

text \<open>When all objects are gone no frame is left.\<close>

lemma owned_once_no_leak: "owned_once s \<Longrightarrow> m_handle s = Map.empty \<Longrightarrow> heap (frames s) = Map.empty"
  by (auto simp: owned_once_def owners_of_def handle_of_def)

section \<open>Awaiting\<close>

text \<open>A done task can be awaited again and gives the same result; an empty one is ready at once, but
  \<open>await_resume\<close> reads the promise of a null handle.\<close>

lemma await_done_again:
  assumes "task_run x r s = Some s'" and "handle_of x s = Some f" and "heap (frames s) f = Some p"
    and "exception p = None"
  shows "Task_done x s'" "Task_await_resume x s' = Some r"
  using assms
  by (auto simp: task_run_def Task_done_def Task_await_resume_def handle_of_def task_done_def set_frame_def
      task_result_def split: sum.splits option.splits)

lemma await_empty:
  assumes "handle_of x s = None"
  shows "Task_done x s" "Task_await_resume x s = None"
  using assms by (simp_all add: Task_done_def Task_await_resume_def)

text \<open>Destroying a task that waits for an operation frees its frame and leaves the operation in the
  ring, with the freed \<open>IoRequest\<close> as user data: the completion is undefined behaviour.\<close>

lemma destroyed_while_waiting:
  assumes "handle_of x s = Some f" and "heap (frames s) f = Some p" and "(f, op) \<in> set (io_ring (frames s))"
  shows "\<exists>s'. Task_destruct x s = Some s' \<and> (f, op) \<in> set (io_ring (frames s')) \<and>
    resumeFromCqe f r (frames s') = None"
  using assms by (simp add: Task_destruct_def destroy_handle_def destroy_def resumeFromCqe_def)

lemma moved_from_is_empty: "handle_of y (Task_move x y s) = None"
  by (simp add: Task_move_def handle_of_def)

end
