(* ===== verification/ThreadPool.thy ===== *)
theory ThreadPool
  imports UringProvider "HOL-Library.Multiset"
begin

text \<open>
  The worker threads of \<open>UringRpcProvider\<close>: \<open>submitTask\<close>, \<open>workerThread\<close> and the shutdown in
  the destructor (uringrpcprovider.cc), with the four threads as separate processes. Taking a task
  and deciding to return happen under \<open>m_taskMutex\<close>, so each is one step.
\<close>

section \<open>State and steps\<close>

definition kThreads :: nat where "kThreads = 4"

datatype worker = Waiting | Busy rpc_task | Returned

record pool =
  pl_queue :: "rpc_task list"
  pl_stop :: bool
  pl_workers :: "worker list"
  pl_done :: "rpc_task list"
  pl_submitted :: "rpc_task list"
  pl_taken :: "rpc_task list"  \<comment> \<open>in the order they were taken\<close>

definition pool_init :: pool where
  "pool_init = \<lparr>pl_queue = [], pl_stop = False, pl_workers = replicate kThreads Waiting, pl_done = [],
     pl_submitted = [], pl_taken = []\<rparr>"

definition pool_submit :: "rpc_task \<Rightarrow> pool \<Rightarrow> pool" where
  "pool_submit t s = s\<lparr>pl_queue := pl_queue s @ [t], pl_submitted := pl_submitted s @ [t]\<rparr>"

text \<open>
  A worker that waits wakes up when the pool stops or a task is there: it returns when the pool
  stops and no task is left, otherwise it takes the oldest task.
\<close>

definition worker_wake :: "nat \<Rightarrow> pool \<Rightarrow> pool" where
  "worker_wake i s =
     (if pl_stop s \<and> pl_queue s = [] then s\<lparr>pl_workers := (pl_workers s)[i := Returned]\<rparr>
      else s\<lparr>pl_queue := tl (pl_queue s), pl_taken := pl_taken s @ [hd (pl_queue s)],
             pl_workers := (pl_workers s)[i := Busy (hd (pl_queue s))]\<rparr>)"

definition worker_finish :: "nat \<Rightarrow> rpc_task \<Rightarrow> pool \<Rightarrow> pool" where
  "worker_finish i t s = s\<lparr>pl_workers := (pl_workers s)[i := Waiting], pl_done := pl_done s @ [t]\<rparr>"

definition pool_stop :: "pool \<Rightarrow> pool" where
  "pool_stop s = s\<lparr>pl_stop := True\<rparr>"

text \<open>What the workers do, and the whole pool. Nothing is submitted once the destructor runs.\<close>

inductive worker_step :: "pool \<Rightarrow> pool \<Rightarrow> bool" where
  w_wake: "i < length (pl_workers s) \<Longrightarrow> pl_workers s ! i = Waiting \<Longrightarrow> pl_stop s \<or> pl_queue s \<noteq> [] \<Longrightarrow>
    worker_step s (worker_wake i s)"
| w_finish: "i < length (pl_workers s) \<Longrightarrow> pl_workers s ! i = Busy t \<Longrightarrow> worker_step s (worker_finish i t s)"

inductive pool_step :: "pool \<Rightarrow> pool \<Rightarrow> bool" where
  p_submit: "\<not> pl_stop s \<Longrightarrow> pool_step s (pool_submit t s)"
| p_worker: "worker_step s s' \<Longrightarrow> pool_step s s'"
| p_stop: "pool_step s (pool_stop s)"

definition pool_start :: "pool \<Rightarrow> bool" where
  "pool_start s \<longleftrightarrow> s = pool_init"

section \<open>Every task is run once, in the order of submission\<close>

fun busy_task :: "worker \<Rightarrow> rpc_task list" where
  "busy_task (Busy t) = [t]"
| "busy_task w = []"

definition busy_tasks :: "worker list \<Rightarrow> rpc_task list" where
  "busy_tasks ws = concat (map busy_task ws)"

definition pool_ok :: "pool \<Rightarrow> bool" where
  "pool_ok s \<longleftrightarrow>
     pl_submitted s = pl_taken s @ pl_queue s \<and>
     mset (pl_taken s) = mset (busy_tasks (pl_workers s)) + mset (pl_done s) \<and>
     length (pl_workers s) = kThreads \<and>
     (Returned \<in> set (pl_workers s) \<longrightarrow> pl_stop s \<and> pl_queue s = [])"

lemma busy_update:
  "i < length ws \<Longrightarrow>
     mset (busy_tasks (ws[i := w])) + mset (busy_task (ws ! i)) = mset (busy_tasks ws) + mset (busy_task w)"
proof (induction ws arbitrary: i)
  case (Cons x ws)
  then show ?case by (cases i) (auto simp: busy_tasks_def ac_simps)
qed simp

lemma worker_wake_cases:
  assumes "pl_stop s \<or> pl_queue s \<noteq> []"
  obtains (returns) "pl_stop s" "pl_queue s = []" "worker_wake i s = s\<lparr>pl_workers := (pl_workers s)[i := Returned]\<rparr>"
  | (takes) t q where "pl_queue s = t # q" "worker_wake i s =
      s\<lparr>pl_queue := q, pl_taken := pl_taken s @ [t], pl_workers := (pl_workers s)[i := Busy t]\<rparr>"
  using assms by (cases "pl_queue s") (auto simp: worker_wake_def)

lemma returned_update:
  "w \<noteq> Returned \<Longrightarrow> Returned \<in> set (ws[i := w]) \<Longrightarrow> Returned \<in> set ws"
  using set_update_subset_insert [of ws i w] by auto

lemma worker_step_ok: "worker_step s s' \<Longrightarrow> pool_ok s \<Longrightarrow> pool_ok s'"
proof (induction rule: worker_step.induct)
  case (w_wake i s)
  from w_wake(3) show ?case
  proof (cases rule: worker_wake_cases [where i = i])
    case returns
    then show ?thesis
      using w_wake(4) busy_update [OF w_wake(1), of Returned] w_wake(2) by (auto simp: pool_ok_def)
  next
    case (takes t q)
    then show ?thesis
      using w_wake(4) busy_update [OF w_wake(1), of "Busy t"] w_wake(2)
        returned_update [of "Busy t" "pl_workers s" i] by (auto simp: pool_ok_def)
  qed
next
  case (w_finish i s t)
  then show ?case
    using busy_update [OF w_finish(1), of Waiting] returned_update [of Waiting "pl_workers s" i]
    by (auto simp: pool_ok_def worker_finish_def)
qed

lemma pool_step_ok: "pool_step s s' \<Longrightarrow> pool_ok s \<Longrightarrow> pool_ok s'"
  by (induction rule: pool_step.induct)
     (simp_all add: worker_step_ok, auto simp: pool_ok_def pool_submit_def pool_stop_def)

interpretation thread_pool: inductive_invariant pool_start pool_step pool_ok
proof (unfold_locales, goal_cases)
  case (1 s)
  then show ?case by (simp add: pool_start_def pool_init_def pool_ok_def busy_tasks_def kThreads_def)
next
  case (2 s t)
  then show ?case using pool_step_ok by blast
qed

section \<open>Shutdown\<close>

text \<open>How many steps the workers can take once the pool stops.\<close>

fun worker_left :: "worker \<Rightarrow> nat" where
  "worker_left Waiting = 1"
| "worker_left (Busy t) = 2"
| "worker_left Returned = 0"

definition pool_left :: "pool \<Rightarrow> nat" where
  "pool_left s = 3 * length (pl_queue s) + sum_list (map worker_left (pl_workers s))"

lemma left_update:
  "i < length ws \<Longrightarrow>
     sum_list (map worker_left (ws[i := w])) + worker_left (ws ! i) = sum_list (map worker_left ws) + worker_left w"
proof (induction ws arbitrary: i)
  case (Cons x ws)
  then show ?case by (cases i) auto
qed simp

lemma worker_step_left:
  "worker_step s s' \<Longrightarrow>
     pool_left s' < pool_left s \<and> pl_stop s' = pl_stop s \<and> pl_submitted s' = pl_submitted s"
proof (induction rule: worker_step.induct)
  case (w_wake i s)
  from w_wake(3) show ?case
  proof (cases rule: worker_wake_cases [where i = i])
    case returns
    then show ?thesis using left_update [OF w_wake(1), of Returned] w_wake(2) by (simp add: pool_left_def)
  next
    case (takes t q)
    then show ?thesis using left_update [OF w_wake(1), of "Busy t"] w_wake(2) by (simp add: pool_left_def)
  qed
next
  case (w_finish i s t)
  then show ?case using left_update [OF w_finish(1), of Waiting] by (simp add: pool_left_def worker_finish_def)
qed

lemma worker_steps_left:
  "(worker_step ^^ n) s s' \<Longrightarrow> n + pool_left s' \<le> pool_left s \<and> pl_stop s' = pl_stop s \<and> pl_submitted s' = pl_submitted s"
proof (induction n arbitrary: s')
  case (Suc n)
  then obtain s1 where "(worker_step ^^ n) s s1" "worker_step s1 s'" by auto
  with Suc.IH [of s1] worker_step_left [of s1 s'] show ?case by simp
qed simp

lemma worker_steps_reach:
  "(worker_step ^^ n) s s' \<Longrightarrow> reach pool_start pool_step s \<Longrightarrow> reach pool_start pool_step s'"
proof (induction n arbitrary: s')
  case (Suc n)
  then show ?case by (auto intro: reach_step p_worker)
qed simp

text \<open>A stopped pool in which no worker can go on has returned all of them.\<close>

lemma stuck_returned:
  assumes "pl_stop s" and "\<nexists>s'. worker_step s s'"
  shows "set (pl_workers s) \<subseteq> {Returned}"
proof
  fix w
  assume "w \<in> set (pl_workers s)"
  then obtain i where "i < length (pl_workers s)" "pl_workers s ! i = w" by (auto simp: in_set_conv_nth)
  then show "w \<in> {Returned}" using assms w_wake w_finish by (cases w) fastforce+
qed

lemma all_returned_done:
  assumes "pool_ok s" and "set (pl_workers s) \<subseteq> {Returned}"
  shows "mset (pl_done s) = mset (pl_submitted s) \<and> pl_queue s = []"
proof -
  have "Returned \<in> set (pl_workers s)"
    using assms by (cases "pl_workers s") (auto simp: pool_ok_def kThreads_def)
  moreover have "busy_tasks (pl_workers s) = []"
    using assms(2) by (force simp: busy_tasks_def)
  ultimately show ?thesis using assms(1) by (auto simp: pool_ok_def)
qed

section \<open>The pool implements the queue and the running calls of the server's model\<close>

definition pool_abs :: "pool \<Rightarrow> provider \<Rightarrow> bool" where
  "pool_abs ps s \<longleftrightarrow> pl_queue ps = m_taskQueue s \<and> mset (busy_tasks (pl_workers ps)) = mset (running s)"

lemma pool_submit_abs: "pool_abs ps s \<Longrightarrow> pool_abs (pool_submit t ps) (submitTask t s)"
  by (simp add: pool_abs_def pool_submit_def submitTask_def)

lemma worker_step_abs:
  "worker_step ps ps' \<Longrightarrow> pool_abs ps s \<Longrightarrow>
     pool_abs ps' s \<or> pool_abs ps' (workerThread_take s) \<or>
     (\<exists>t\<in>set (running s). \<forall>body. pool_abs ps' (onPoolDone t body s))"
proof (induction rule: worker_step.induct)
  case (w_wake i ps)
  from w_wake(3) show ?case
  proof (cases rule: worker_wake_cases [where i = i])
    case returns
    then show ?thesis using w_wake(4) busy_update [OF w_wake(1), of Returned] w_wake(2) by (simp add: pool_abs_def)
  next
    case (takes t q)
    then have "m_taskQueue s = t # q" using w_wake(4) by (simp add: pool_abs_def)
    then have "pool_abs (worker_wake i ps) (workerThread_take s)"
      using takes w_wake(4) busy_update [OF w_wake(1), of "Busy t"] w_wake(2)
      by (simp add: pool_abs_def workerThread_take_def)
    then show ?thesis by blast
  qed
next
  case (w_finish i ps t)
  have b: "add_mset t (mset (busy_tasks ((pl_workers ps)[i := Waiting]))) = mset (running s)"
    using busy_update [OF w_finish(1), of Waiting] w_finish(2,3) by (simp add: pool_abs_def)
  then have "t \<in> set (running s)" by (metis set_mset_mset union_single_eq_member)
  moreover have "pool_abs (worker_finish i t ps) (onPoolDone t body s)" for body
    using w_finish(3) b by (simp add: pool_abs_def worker_finish_def onPoolDone_def resumeOnReactor_def) (metis add_mset_remove_trivial)
  ultimately show ?case by blast
qed

end
