(* ===== verification/Startup.thy ===== *)
theory Startup
  imports ReactorData CallPaths Support
begin

text \<open>
  Start-up: the command line and the configuration (application.cc), and the two servers' \<open>Run\<close>
  (uringrpcprovider.cc, provider.cc) up to their event loops. \<open>Inl ExitFailure\<close> is
  \<open>exit(EXIT_FAILURE)\<close>, \<open>Inl Uncaught\<close> an exception nobody catches. The results of system calls
  are arguments.
\<close>

datatype run_error = ExitFailure | Uncaught

section \<open>\<open>KimRpcApplication::Init\<close>\<close>

text \<open>What \<open>getopt(argc, argv, "i:")\<close> returns: an \<open>i\<close> with its argument, a question mark, a colon.\<close>

datatype getopt_result = OptI bytes | OptUnknown | OptMissing

fun parse_args :: "getopt_result list \<Rightarrow> bytes \<Rightarrow> (run_error, bytes) sum" where
  "parse_args [] config_file = Inr config_file"
| "parse_args (OptI f # opts) config_file = parse_args opts f"
| "parse_args (OptUnknown # opts) config_file = Inl ExitFailure"
| "parse_args (OptMissing # opts) config_file = parse_args opts config_file"

text \<open>\<open>files\<close> is the file system: \<open>None\<close> where \<open>fopen\<close> fails.\<close>

definition Init :: "nat \<Rightarrow> getopt_result list \<Rightarrow> (bytes \<Rightarrow> bytes option) \<Rightarrow> (run_error, config) sum" where
  "Init argc opts files =
     (if argc < 2 then Inl ExitFailure
      else (case parse_args opts [] of
              Inl e \<Rightarrow> Inl e
            | Inr config_file \<Rightarrow>
                (case files config_file of
                   None \<Rightarrow> Inl ExitFailure
                 | Some text \<Rightarrow> Inr (loadConfigFile text []))))"

section \<open>The servers\<close>

definition stoi :: "bytes \<Rightarrow> int option" where
  "stoi s = (case stoll s of Some v \<Rightarrow> if - (2 ^ 31) \<le> v \<and> v < 2 ^ 31 then Some v else None | None \<Rightarrow> None)"

text \<open>Socket options. \<open>getfl\<close> is what \<open>fcntl(fd, F_GETFL)\<close> returns, \<open>setfl\<close> what \<open>F_SETFL\<close> returns for
  the flags it is given; likewise \<open>setsockopt\<close>.\<close>

definition O_NONBLOCK :: int where "O_NONBLOCK = 2048"

definition setNonBlock :: "int \<Rightarrow> (int \<Rightarrow> int) \<Rightarrow> bool" where
  "setNonBlock getfl setfl = (if getfl = -1 then False else setfl (getfl OR O_NONBLOCK) \<noteq> -1)"

definition setTcpNoDelay :: "bool \<Rightarrow> (int \<Rightarrow> int) \<Rightarrow> bool" where
  "setTcpNoDelay on setopt = (let opt = (if on then 1 else 0) in setopt opt \<noteq> -1)"

text \<open>The flags asked for are the old ones with the bit of \<open>O_NONBLOCK\<close>.\<close>

lemma setNonBlock_flags:
  "bit (getfl OR O_NONBLOCK) n \<longleftrightarrow> n = 11 \<or> bit getfl n"
proof -
  have "bit (getfl OR 2 ^ 11) n \<longleftrightarrow> n = 11 \<or> bit getfl n" by (simp only: bit_or_iff bit_exp_iff) auto
  then show ?thesis by (simp add: O_NONBLOCK_def)
qed

record listen_calls =
  l_socket :: int
  l_ip_ok :: bool
  l_bind :: int
  l_listen :: int
  l_getfl :: int
  l_setfl :: "int \<Rightarrow> int"

definition startListen :: "listen_calls \<Rightarrow> (run_error, int) sum" where
  "startListen l =
     (if l_socket l = -1 then Inl ExitFailure
      else if \<not> l_ip_ok l then Inl ExitFailure
      else if l_bind l = -1 then Inl ExitFailure
      else if l_listen l = -1 then Inl ExitFailure
      else if \<not> setNonBlock (l_getfl l) (l_setfl l) then Inl ExitFailure
      else Inr (l_socket l))"

text \<open>The endpoint \<open>EtcdClient::Start()\<close> takes from the configuration.\<close>

definition etcd_endpoint :: "config \<Rightarrow> bytes" where
  "etcd_endpoint cfg =
     (let ip = load cfg (str ''etcdip''); port = load cfg (str ''etcdport'');
          ip = (if ip = [] then str ''127.0.0.1'' else ip); port = (if port = [] then str ''2379'' else port)
      in str ''http://'' @ ip @ str '':'' @ port)"

text \<open>
  \<open>UringRpcProvider::Run\<close>. \<open>bufs\<close> tells whether the buffer ring could be set up and its memory
  allocated. The result is the state in which the event loop starts.
\<close>

definition uring_Run ::
  "json_parser \<Rightarrow> bool \<Rightarrow> config \<Rightarrow> listen_calls \<Rightarrow> service_map \<Rightarrow> http \<Rightarrow> bool \<Rightarrow> bool list \<Rightarrow>
     (run_error, provider \<times> http) sum" where
  "uring_Run jp ringReady cfg l sm h bufs sqes =
     (if \<not> ringReady then Inl ExitFailure
      else let ip = load cfg (str ''rpcserverip'') in
      (case stoi (load cfg (str ''rpcserverport'')) of
         None \<Rightarrow> Inl Uncaught
       | Some port \<Rightarrow>
           (case startListen l of
              Inl e \<Rightarrow> Inl e
            | Inr listenfd \<Rightarrow>
                (case registerServiceToEtcd jp sm ip (word_of_int port) h of
                   None \<Rightarrow> Inl ExitFailure
                 | Some h' \<Rightarrow>
                     if \<not> bufs then Inl ExitFailure
                     else (case start_loop (provider_init sm sqes) of
                             None \<Rightarrow> Inl ExitFailure
                           | Some s \<Rightarrow> Inr (s, h'))))))"

text \<open>\<open>RpcProvider::Run\<close>, up to the start of muduo's loop.\<close>

definition muduo_Run :: "json_parser \<Rightarrow> config \<Rightarrow> service_map \<Rightarrow> http \<Rightarrow> (run_error, http) sum" where
  "muduo_Run jp cfg sm h =
     (let ip = load cfg (str ''rpcserverip'') in
      (case stoi (load cfg (str ''rpcserverport'')) of
         None \<Rightarrow> Inl Uncaught
       | Some port \<Rightarrow>
           (case registerServiceToEtcd jp sm ip (word_of_int port) h of
              None \<Rightarrow> Inl ExitFailure
            | Some h' \<Rightarrow> Inr h')))"

text \<open>Both servers register in the same way.\<close>

lemma runs_register_alike:
  assumes "uring_Run jp ringReady cfg l sm h bufs sqes = Inr (s, h')"
  shows "muduo_Run jp cfg sm h = Inr h'" and "provider_start s" and "m_serviceMap s = sm"
  using assms start_loop_state(7) [of sm sqes s]
  by (auto simp: uring_Run_def muduo_Run_def provider_start_def Let_def split: option.splits if_splits sum.splits)

section \<open>\<open>UringRpcProvider::~UringRpcProvider\<close>, after the joins\<close>

datatype release = CloseFd int | FreeBufRing | FreeBufBase | QueueExit

record server_resources =
  m_notifyFd :: int
  m_listenfd :: int
  m_bufRing :: bool  \<comment> \<open>not null\<close>
  m_bufBase :: bool
  ring_ready :: bool
  released :: "release list"

definition release_resources :: "server_resources \<Rightarrow> server_resources" where
  "release_resources r =
     (let r1 = (if m_notifyFd r \<noteq> -1
                then r\<lparr>m_notifyFd := -1, released := released r @ [CloseFd (m_notifyFd r)]\<rparr> else r);
          r2 = (if m_listenfd r1 \<noteq> -1
                then r1\<lparr>m_listenfd := -1, released := released r1 @ [CloseFd (m_listenfd r1)]\<rparr> else r1);
          r3 = (if m_bufRing r2 then r2\<lparr>m_bufRing := False, released := released r2 @ [FreeBufRing]\<rparr> else r2);
          r4 = (if m_bufBase r3 then r3\<lparr>m_bufBase := False, released := released r3 @ [FreeBufBase]\<rparr> else r3)
      in if ring_ready r4 then r4\<lparr>released := released r4 @ [QueueExit]\<rparr> else r4)"

text \<open>Everything owned is released once; the buffers go before the ring they are registered with.\<close>

lemma release_once:
  "released (release_resources r) = released r @
     map CloseFd (filter (\<lambda>fd. fd \<noteq> -1) [m_notifyFd r, m_listenfd r]) @
     (if m_bufRing r then [FreeBufRing] else []) @ (if m_bufBase r then [FreeBufBase] else []) @
     (if ring_ready r then [QueueExit] else [])"
  by (simp add: release_resources_def Let_def)

end
