(* ===== verification/RuntimeProps.thy ===== *)
theory RuntimeProps
  imports AsyncClient TaskObject ThreadPool Startup DemoServer
begin

text \<open>
  The properties of what runs the servers and clients: the callback interface of the TCP client,
  the coroutines, the thread pool, and start-up.
\<close>

section \<open>Callbacks of the TCP client\<close>

text \<open>C35. Every callback passed to \<open>AsyncConnect\<close>, \<open>AsyncWrite\<close> or \<open>AsyncRead\<close> is run exactly once or
  belongs to one operation in the kernel, as long as submissions succeed and sockets can be created.\<close>

theorem async_callback_exactly_once:
  assumes "reach async_start (async_step strerror) c"
  shows "mset (map cb_id (a_runs c)) + mset (List.map_filter callback (a_kernel c)) = mset [0..<a_calls c] \<and>
    distinct (map cb_id (a_runs c))"
proof -
  have m: "mset (map cb_id (a_runs c)) + mset (List.map_filter callback (a_kernel c)) = mset [0..<a_calls c]"
    using async.reach_inv [OF assms] by (simp add: async_ok_def)
  have "distinct (map cb_id (a_runs c) @ List.map_filter callback (a_kernel c))"
    by (rule mset_eq_imp_distinct_iff [THEN iffD2, of _ "[0..<a_calls c]"]) (use m in simp_all)
  with m show ?thesis by simp
qed

lemma async_callback_exactly_once_witness:
  "map cb_id (a_runs (EventLoop (\<lambda>_. []) [(\<lparr>opType = IoConnect, io_fd = 4, callback = Some 0\<rparr>, 0, [])]
     (snd (AsyncConnect (\<lambda>_. []) True [] 4 True True 1 (async_new True))))) = [0]"
proof -
  let ?c = "snd (AsyncConnect (\<lambda>_. []) True [] 4 True True 1 (async_new True))"
  let ?x = "\<lparr>opType = IoConnect, io_fd = 4, callback = Some 0\<rparr>"
  let ?d = "EventLoop (\<lambda>_. []) [(?x, 0, [])] ?c"
  have c: "?c = \<lparr>a_fd = 4, a_ringReady = True, a_sq = [], a_kernel = [?x], a_runs = [], a_calls = 1, a_closed = []\<rparr>"
    by (simp add: AsyncConnect_def take_callback_def async_new_def prepare_def a_submit_def Let_def)
  have "reach async_start (async_step (\<lambda>_. [])) (async_new True)"
    by (rule reach_init) (auto simp: async_start_def)
  moreover have "async_step (\<lambda>_. []) (async_new True) ?c" by (rule a_connect) simp_all
  ultimately have "reach async_start (async_step (\<lambda>_. [])) ?c" by (rule reach_step)
  moreover have "async_step (\<lambda>_. []) ?c ?d" by (rule a_complete) (simp add: c)
  ultimately have "reach async_start (async_step (\<lambda>_. [])) ?d" by (rule reach_step)
  from async_callback_exactly_once [OF this]
  have "mset (map cb_id (a_runs ?d)) = {#0#}" unfolding c by (simp add: on_completion_def List.map_filter_simps)
  then show ?thesis by (metis mset_single_iff)
qed

text \<open>C38. A submission that fails leaves the operation in the submission queue after its callback has
  been told of the failure: the next successful submission starts it after all, and its completion
  runs the callback a second time.\<close>

theorem failed_submit_runs_callback_twice:
  assumes "a_fd c \<noteq> -1" and "a_ringReady c" and "a_sq c = []" and "a_kernel c = []" and "ret < 0" and "0 \<le> ret'"
    and "a_calls c \<notin> set (map cb_id (a_runs c))"
    and "write = \<lparr>opType = IoSend data, io_fd = a_fd c, callback = Some (a_calls c)\<rparr>"
  shows "let (started, c1) = AsyncWrite strerror True data True ret c;
             c2 = snd (AsyncRead strerror True True ret' c1);
             c3 = EventLoop strerror [(write, res, buf)] c2
         in \<not> started \<and> write \<in> set (a_kernel c2) \<and> count (mset (map cb_id (a_runs c3))) (a_calls c) = 2"
proof -
  let ?c1 = "snd (AsyncWrite strerror True data True ret c)"
  let ?c2 = "snd (AsyncRead strerror True True ret' ?c1)"
  have 1: "fst (AsyncWrite strerror True data True ret c) = False" "a_fd ?c1 = a_fd c" "a_sq ?c1 = [write]"
    "a_kernel ?c1 = []" "a_calls ?c1 = Suc (a_calls c)" "a_ringReady ?c1" "map cb_id (a_runs ?c1) = map cb_id (a_runs c) @ [a_calls c]"
    using assms by (simp_all add: AsyncWrite_def take_callback_def prepare_def a_submit_def Let_def)
  have 2: "a_kernel ?c2 = [write, \<lparr>opType = IoRecv, io_fd = a_fd c, callback = Some (Suc (a_calls c))\<rparr>]"
    "a_ringReady ?c2" "a_runs ?c2 = a_runs ?c1"
    using assms(1,6) 1 by (simp_all add: AsyncRead_def take_callback_def prepare_def a_submit_def Let_def)
  have "count (mset (map cb_id (a_runs c))) (a_calls c) = 0" using assms(7) by (simp only: count_mset_0_iff not_False_eq_True)
  then have "count (mset (map cb_id (a_runs (EventLoop strerror [(write, res, buf)] ?c2)))) (a_calls c) = 2"
    using 2 1(7) assms(8) by (simp del: mset_map)
  then show ?thesis using 1(1) 2(1) by (simp add: split_def Let_def)
qed

lemma failed_submit_runs_callback_twice_witness:
  fixes c
  defines "c \<equiv> (async_new True)\<lparr>a_fd := 4\<rparr>"
  shows "\<not> fst (AsyncWrite (\<lambda>_. []) True [1] True (-16) c)"
  using failed_submit_runs_callback_twice [of c "-16" 1 _ "[1]" "\<lambda>_. []" 1 "[]"]
  by (simp add: c_def async_new_def split_def Let_def)

section \<open>Coroutines\<close>

text \<open>C26. \<open>sync_wait\<close> computes what the coroutine body says, as if every \<open>co_await\<close> were a call: the
  same result or exception, the same operations answered, and no frame left but the awaited task's
  own; it waits forever exactly when an operation is never answered, and lazy start, symmetric
  transfer and the event loop never touch a frame that is not there.\<close>

theorem sync_wait_is_sequential:
  "case eval body (rooms, outs) of
     None \<Rightarrow> sync_wait body rooms outs = None
   | Some (r, w) \<Rightarrow> \<exists>m. sync_wait body rooms outs = Some (r, m) \<and> world_of m = w \<and> io_ring m = [] \<and>
       dom (heap m) \<subseteq> {0}"
proof -
  have "(\<forall>i. i \<noteq> 0 \<longrightarrow> heap m i = None) \<Longrightarrow> dom (heap m) \<subseteq> {0}" for m :: "'v machine" by auto
  then show ?thesis using sync_wait_eval [of body rooms outs] by (auto split: option.splits)
qed

text \<open>A \<open>DetachedTask\<close>, which nobody awaits, runs what its body says in the same way, starting when it is
  called: the same operations are answered; at its end its frame and those of its children are gone,
  and an exception that leaves the body has been printed, once.\<close>

theorem detached_is_sequential:
  "case eval body (rooms, outs) of
     None \<Rightarrow> DetachedTask body rooms outs = None
   | Some (r, w) \<Rightarrow> \<exists>m. DetachedTask body rooms outs = Some m \<and> world_of m = w \<and> io_ring m = [] \<and>
       heap m = Map.empty \<and> unhandled m = (case r of Inl e \<Rightarrow> [e] | Inr _ \<Rightarrow> [])"
  by (rule detached_eval)



section \<open>The thread pool\<close>

text \<open>The pool loses and repeats no task and takes them in the order of submission: what was
  submitted is what was taken followed by the queue, and what was taken is with a worker or done.\<close>

theorem tasks_taken_in_order:
  assumes "reach pool_start pool_step s"
  shows "pl_submitted s = pl_taken s @ pl_queue s \<and>
    mset (pl_taken s) = mset (busy_tasks (pl_workers s)) + mset (pl_done s) \<and>
    length (pl_taken s) \<le> length (pl_done s) + kThreads"
proof -
  have ok: "pool_ok s" by (rule thread_pool.reach_inv [OF assms])
  have "length (busy_tasks ws) \<le> length ws" for ws
  proof (induction ws)
    case (Cons w ws)
    then show ?case by (cases w) (simp_all add: busy_tasks_def)
  qed (simp add: busy_tasks_def)
  from this [of "pl_workers s"] have "length (busy_tasks (pl_workers s)) \<le> kThreads"
    using ok by (simp add: pool_ok_def)
  moreover have "length (pl_taken s) = length (busy_tasks (pl_workers s)) + length (pl_done s)"
    using ok by (metis pool_ok_def size_mset size_union)
  ultimately show ?thesis using ok by (simp add: pool_ok_def)
qed

lemma pool_init_reach: "reach pool_start pool_step pool_init"
  by (rule reach_init) (simp add: pool_start_def)

definition demo_pool :: pool where
  "demo_pool = pool_stop (pool_submit demo_task pool_init)"

lemma demo_pool_reach: "reach pool_start pool_step demo_pool"
  unfolding demo_pool_def
  by (rule reach_step [OF reach_step [OF pool_init_reach p_submit] p_stop]) (simp add: pool_init_def)

lemma tasks_taken_in_order_witness: "pl_submitted demo_pool = pl_taken demo_pool @ [demo_task]"
  using tasks_taken_in_order [OF demo_pool_reach]
  by (simp add: demo_pool_def pool_stop_def pool_submit_def pool_init_def)





section \<open>Start-up\<close>

text \<open>\<open>Init\<close> ends the process without arguments, for an unknown option, or when the file cannot be
  opened; otherwise the file of the last \<open>-i\<close> is loaded.\<close>

theorem Init_loads_last_file:
  "Init argc opts files =
     (if argc < 2 \<or> OptUnknown \<in> set opts then Inl ExitFailure
      else (case files (last ([] # List.map_filter (\<lambda>r. case r of OptI f \<Rightarrow> Some f | _ \<Rightarrow> None) opts)) of
              None \<Rightarrow> Inl ExitFailure
            | Some text \<Rightarrow> Inr (loadConfigFile text [])))"
proof -
  have "parse_args opts f = (if OptUnknown \<in> set opts then Inl ExitFailure
      else Inr (last (f # List.map_filter (\<lambda>r. case r of OptI f \<Rightarrow> Some f | _ \<Rightarrow> None) opts)))" for f
    by (induction opts f rule: parse_args.induct) (simp_all add: List.map_filter_simps)
  then show ?thesis by (simp add: Init_def)
qed

text \<open>Both servers come up in the same way: when the io_uring server reaches its event loop, a muduo
  server with the same configuration, services and answers of etcd reaches its loop and sends etcd
  the same requests; and the io_uring server starts with the published services, one accept and one
  read of the notification descriptor prepared, and all buffers in the ring.\<close>

theorem servers_start_alike:
  assumes "uring_Run jp ringReady cfg l sm h bufs sqes = Inr (s, h')"
  shows "muduo_Run jp cfg sm h = Inr h' \<and> m_serviceMap s = sm \<and>
    ops s = {#(None, ACCEPT), (None, NOTIFY)#} \<and> buf_ring s = [0..<kBufRingEntries]"
proof -
  have "start_loop (provider_init sm sqes) = Some s"
    using assms by (auto simp: uring_Run_def Let_def split: option.splits if_splits sum.splits)
  moreover from this have "ops s = {#(None, ACCEPT), (None, NOTIFY)#}"
    by (cases sqes; cases "tl sqes", auto simp: start_loop_def provider_init_def setupBufRing_def submitAccept_def
        submitNotifyRead_def get_sqe_def push_sqe_def ops_def sqe_key_def split: if_splits)
  ultimately show ?thesis using runs_register_alike [OF assms] start_loop_state(2,7) by blast
qed

lemma servers_start_alike_witness:
  fixes jp sm cfg h
  defines "jp \<equiv> (\<lambda>b. Some (JObject [(str ''ID'', JNumber 7), (str ''header'', JNull)]))"
  defines "sm \<equiv> demo_services"
  defines "cfg \<equiv> [(str ''rpcserverip'', str ''10.0.0.7''), (str ''rpcserverport'', str ''80'')]"
  defines "h \<equiv> \<lparr>answers = [[1], [1], [1]], posted = []\<rparr>"
  shows "muduo_Run jp cfg sm h \<noteq> Inl ExitFailure"
proof -
  let ?l = "\<lparr>l_socket = 5, l_ip_ok = True, l_bind = 0, l_listen = 0, l_getfl = 2, l_setfl = (\<lambda>f. 0)\<rparr>"
  have port: "stoi (load cfg (str ''rpcserverport'')) = Some 80"
    by (simp add: cfg_def load_def stoi_def stoll_def is_space_def is_digit_def digits_value_def Let_def)
  have keys: "length (instance_keys sm a) = 1" for a by (simp add: instance_keys_def sm_def demo_services_eq)
  have "registerServiceToEtcd jp sm ip (word_of_int 80) h \<noteq> None" for ip
  proof -
    obtain k where "instance_keys sm (instance_addr ip (word_of_int 80)) = [k]"
      using keys by (metis One_nat_def length_0_conv length_Suc_conv)
    then show ?thesis
      by (simp add: registerServiceToEtcd_def etcd_Start_def LeaseGrant_def httpPost_def h_def jp_def jint_def
          json_find_def Put_def Let_def)
  qed
  then obtain h' where h': "registerServiceToEtcd jp sm (load cfg (str ''rpcserverip'')) (word_of_int 80) h = Some h'" by blast
  have "\<exists>s. start_loop (provider_init sm [True, True]) = Some s"
    by (simp add: start_loop_def provider_init_def setupBufRing_def submitAccept_def submitNotifyRead_def get_sqe_def push_sqe_def)
  then obtain s where "uring_Run jp True cfg ?l sm h True [True, True] = Inr (s, h')"
    using h' port by (auto simp: uring_Run_def startListen_def setNonBlock_def)
  from servers_start_alike [OF this] show ?thesis by simp
qed

end
