(* ===== verification/EndToEnd.thy ===== *)
theory EndToEnd
  imports ReactorFlow CallPaths
begin

text \<open>
  A batch of calls through the whole system: the client's frames, the io_uring server's receive
  handler, its thread pool, the delivery of the responses, the client's receive thread and the
  callbacks. The pieces are the handlers of the component theories; this theory only composes
  them, in the order in which one batch passes through them.
\<close>

section \<open>A call\<close>

record rpc =
  e_call :: nat  \<comment> \<open>the number of the call in the channel\<close>
  e_service :: bytes
  e_method :: bytes
  e_id :: u64
  e_args :: bytes

definition header_of :: "rpc \<Rightarrow> rpc_header" where
  "header_of e = \<lparr>service_name = e_service e, method_name = e_method e,
     args_size = of_nat (length (e_args e)), request_id = e_id e\<rparr>"

definition frame_of :: "protobuf \<Rightarrow> rpc \<Rightarrow> bytes option" where
  "frame_of pb e = make_request pb (e_service e) (e_method e) (e_id e) (e_args e)"

text \<open>The server publishes the method and accepts the arguments; protobuf reads back the header it
  wrote, and the sizes are within the server's limits.\<close>

definition served :: "protobuf \<Rightarrow> service_map \<Rightarrow> rpc \<Rightarrow> request \<Rightarrow> bool" where
  "served pb sm e rq \<longleftrightarrow>
     (case serialize_header pb (header_of e) of
        None \<Rightarrow> False
      | Some hs \<Rightarrow> parse_header pb hs = Some (header_of e) \<and> length hs \<le> unat kMaxHeaderSize) \<and>
     length (e_args e) \<le> unat kMaxBodySize \<and> resolve_request pb sm (header_of e) (e_args e) = Request rq"

lemma served_frame:
  assumes "served pb sm e rq"
  shows "\<exists>hs. frame_of pb e = Some (request_frame hs (e_args e)) \<and> uring_ok pb sm (header_of e, hs, e_args e) \<and>
    rq_id rq = e_id e"
proof -
  obtain hs where hs: "serialize_header pb (header_of e) = Some hs" "parse_header pb hs = Some (header_of e)"
    "length hs \<le> unat kMaxHeaderSize" using assms by (auto simp: served_def split: option.splits)
  have res: "resolve_request pb sm (header_of e) (e_args e) = Request rq" and len: "length (e_args e) \<le> unat kMaxBodySize"
    using assms by (simp_all add: served_def)
  have n: "unat (of_nat (length (e_args e)) :: u32) = length (e_args e)"
    using len by (simp add: kMaxBodySize_def unat_of_nat)
  have "frame_of pb e = Some (request_frame hs (e_args e))"
    using hs(1) by (simp add: frame_of_def make_request_def header_of_def)
  moreover have "uring_ok pb sm (header_of e, hs, e_args e)"
    using hs res n len by (simp add: uring_ok_def header_of_def word_le_nat_alt)
  moreover have "rq_id rq = request_id (header_of e)"
    using res by (auto simp: resolve_request_def split: option.splits)
  ultimately show ?thesis by (auto simp: header_of_def)
qed

section \<open>The server\<close>

text \<open>The workers take the queued calls and run them; they finish in the order \<open>ts\<close>.\<close>

definition run_pool :: "(request \<Rightarrow> bytes) \<Rightarrow> rpc_task list \<Rightarrow> provider \<Rightarrow> provider" where
  "run_pool business ts s =
     foldl (\<lambda>s t. onPoolDone t (Some (business (t_request t))) s) ((workerThread_take ^^ length ts) s) ts"

definition response_of_task :: "(request \<Rightarrow> bytes) \<Rightarrow> rpc_task \<Rightarrow> bytes" where
  "response_of_task business t = response_frame (rq_id (t_request t)) (business (t_request t))"

text \<open>What neither the receive handler nor the pool touches.\<close>

definition same_output :: "int \<Rightarrow> ctx_ptr \<Rightarrow> provider \<Rightarrow> provider \<Rightarrow> bool" where
  "same_output fd p s s' \<longleftrightarrow>
     outQueue (ctx_of s' p) = outQueue (ctx_of s p) \<and> written (ctx_of s' p) = written (ctx_of s p) \<and>
     sending (ctx_of s' p) = sending (ctx_of s p) \<and> connId (ctx_of s' p) = connId (ctx_of s p) \<and>
     sqe_answers s' = sqe_answers s \<and> m_readyCoros s' = m_readyCoros s"

lemma same_output_refl [simp]: "same_output fd p s s"
  by (simp add: same_output_def)

lemma same_output_trans: "same_output fd p s t \<Longrightarrow> same_output fd p t u \<Longrightarrow> same_output fd p s u"
  by (simp add: same_output_def)

lemma close_output [simp]:
  "sending (m_allConns (close_conn fd m) p) = sending (m_allConns m p)"
  "connId (m_allConns (close_conn fd m) p) = connId (m_allConns m p)"
  by (simp_all add: close_conn_def recycle_def Let_def split: option.split)

lemma tryHandleRequest_output:
  "tryHandleRequest pb fd p s = (again, s') \<Longrightarrow> same_output fd p s s'"
  by (auto simp: tryHandleRequest_def handleRpc_def submitTask_def same_output_def close_fd_def set_ctx_def
      Let_def split: option.splits req_item.splits)

lemma handle_requests_output:
  "handle_requests pb fd p s = (normal, s') \<Longrightarrow> same_output fd p s s'"
proof (induction pb fd p s arbitrary: normal s' rule: handle_requests.induct)
  case (1 pb fd p s)
  obtain again s1 where t: "tryHandleRequest pb fd p s = (again, s1)" by fastforce
  note T = tryHandleRequest_output [OF t]
  show ?case
  proof (cases "again \<and> find_conn fd (mgr s1) \<noteq> None")
    case True
    then have "handle_requests pb fd p s1 = (normal, s')"
      using 1(2) t by (auto simp: handle_requests.simps [of pb fd p s])
    with True have "same_output fd p s1 s'" by (intro 1(1) [OF refl t [symmetric]]) simp_all
    with T show ?thesis by (rule same_output_trans)
  next
    case False
    then have "handle_requests pb fd p s = (\<not> again, s1)" by (subst handle_requests.simps) (simp add: t)
    then show ?thesis using 1(2) T by simp
  qed
qed

text \<open>A receive completion with \<open>chunk\<close>: the event loop has appended it to the input, and calls the
  handler. While the connection is open, nothing is rejected, the pause limit is not reached and
  the queue has room, the handler dispatches the complete requests and starts the next receive.\<close>

definition receive_event :: "protobuf \<Rightarrow> ctx_ptr \<Rightarrow> provider \<Rightarrow> bytes \<Rightarrow> provider" where
  "receive_event pb p s chunk = handleRecv pb p (int (length chunk)) (set_ctx p (\<lambda>c. c\<lparr>input := input c @ chunk\<rparr>) s)"

definition open_connection :: "int \<Rightarrow> ctx_ptr \<Rightarrow> provider \<Rightarrow> bool" where
  "open_connection fd p s \<longleftrightarrow> find_conn fd (mgr s) = Some p \<and> cfd (ctx_of s p) = fd \<and> \<not> closing (ctx_of s p)"

lemma receive_event_step:
  assumes conn: "open_connection fd p s" and chunk: "chunk \<noteq> []" and sqe: "sqe_answers s = True # as"
    and d: "drain (uring_take pb (m_serviceMap s)) uring_closes (input (ctx_of s p) @ chunk) = (items, rest)"
    and ok: "\<forall>i\<in>set items. \<not> uring_closes i" "pendingReqs (ctx_of s p) + int (length items) < kMaxInflightPerConn"
  shows "ctx_of (receive_event pb p s chunk) p = (ctx_of s p)\<lparr>input := rest,
      pendingReqs := pendingReqs (ctx_of s p) + int (length items), inflight := inflight (ctx_of s p) + 1\<rparr> \<and>
    open_connection fd p (receive_event pb p s chunk) \<and>
    m_taskQueue (receive_event pb p s chunk) =
      m_taskQueue s @ map (call_of fd (connId (ctx_of s p))) (requests_of items) \<and>
    sqe_answers (receive_event pb p s chunk) = as \<and> m_serviceMap (receive_event pb p s chunk) = m_serviceMap s \<and>
    m_readyCoros (receive_event pb p s chunk) = m_readyCoros s"
proof -
  let ?s1 = "set_ctx p (\<lambda>c. c\<lparr>input := input c @ chunk\<rparr>) s"
  obtain normal s2 where h: "handle_requests pb fd p ?s1 = (normal, s2)" by fastforce
  have pre: "find_conn fd (mgr ?s1) = Some p" "m_serviceMap ?s1 = m_serviceMap s"
    "ctx_of ?s1 p = (ctx_of s p)\<lparr>input := input (ctx_of s p) @ chunk\<rparr>" "m_taskQueue ?s1 = m_taskQueue s"
    "sqe_answers ?s1 = sqe_answers s" "m_readyCoros ?s1 = m_readyCoros s"
    using conn by (simp_all add: find_conn_def open_connection_def) (simp_all add: set_ctx_def)
  have "drain (uring_take pb (m_serviceMap ?s1)) uring_closes (input (ctx_of ?s1 p)) = (items, rest)" using d pre by simp
  note D = handle_requests_drain [OF h pre(1) this, unfolded pre]
  have normal: normal using D ok(1) by blast
  note O = handle_requests_output [OF h [simplified normal], unfolded same_output_def pre]
  have ctx: "ctx_of s2 p = (ctx_of s p)\<lparr>input := rest, pendingReqs := pendingReqs (ctx_of s p) + int (length items)\<rparr>"
    using D normal by simp
  have sub: "submitRecv fd s2 = (True, (push_sqe \<lparr>s_kind = PrepRecv fd, s_ctx = Some p, s_op = RECV\<rparr>
      (s2\<lparr>sqe_answers := as\<rparr>))\<lparr>mgr := onSubmit p (mgr s2)\<rparr>)"
    using D normal O sqe by (simp add: submitRecv_def get_sqe_def push_sqe_def)
  have "receive_event pb p s chunk = snd (submitRecv fd s2)"
    using conn chunk h normal ctx ok(2) pre(3)
    by (simp add: receive_event_def handleRecv_def open_connection_def Let_def sub)
  then show ?thesis
    using sub D normal ctx O conn keepsD(7) [OF keeps_handle_requests [OF h]] pre(2)
    by (simp add: push_sqe_def onSubmit_def open_connection_def find_conn_def set_ctx_def)
qed

lemma receive_events:
  assumes "open_connection fd p s" and "\<forall>c\<in>set cs. c \<noteq> []" and "sqe_answers s = replicate (length cs) True @ as"
    and "uring_take pb (m_serviceMap s) (input (ctx_of s p)) = None"
    and "drain (uring_take pb (m_serviceMap s)) uring_closes (input (ctx_of s p) @ concat cs) = (items, rest)"
    and "\<forall>i\<in>set items. \<not> uring_closes i" and "pendingReqs (ctx_of s p) + int (length items) < kMaxInflightPerConn"
  defines "s' \<equiv> foldl (receive_event pb p) s cs"
  shows "m_taskQueue s' = m_taskQueue s @ map (call_of fd (connId (ctx_of s p))) (requests_of items) \<and>
    open_connection fd p s' \<and> sqe_answers s' = as \<and> m_readyCoros s' = m_readyCoros s \<and>
    connId (ctx_of s' p) = connId (ctx_of s p) \<and> outQueue (ctx_of s' p) = outQueue (ctx_of s p) \<and>
    written (ctx_of s' p) = written (ctx_of s p)"
  using assms(1-7) unfolding s'_def
proof (induction cs arbitrary: s items)
  case Nil
  then show ?case by (simp add: uring.drain_None)
next
  case (Cons c cs)
  let ?d = "drain (uring_take pb (m_serviceMap s)) uring_closes"
  obtain items1 rest1 where d1: "?d (input (ctx_of s p) @ c) = (items1, rest1)" by fastforce
  have ok1: "\<forall>i\<in>set items1. \<not> uring_closes i"
  proof (rule ccontr)
    assume "\<not> ?thesis"
    moreover from this have "fst (?d ((input (ctx_of s p) @ c) @ concat cs)) = items1"
      using uring.drain_append_final [of pb "m_serviceMap s" "input (ctx_of s p) @ c" "concat cs"] d1 by simp
    ultimately show False using Cons.prems(5,6) by simp
  qed
  have app: "?d ((input (ctx_of s p) @ c) @ concat cs) = (items1 @ fst (?d (rest1 @ concat cs)), snd (?d (rest1 @ concat cs)))"
    using uring.drain_append [of pb "m_serviceMap s" "input (ctx_of s p) @ c" "concat cs"] ok1 d1 by (simp add: prod_eq_iff)
  obtain items2 where i2: "?d (rest1 @ concat cs) = (items2, rest)" "items = items1 @ items2"
    using app Cons.prems(5) by (cases "?d (rest1 @ concat cs)") auto
  have n1: "pendingReqs (ctx_of s p) + int (length items1) < kMaxInflightPerConn" using Cons.prems(7) i2 by simp
  have "c \<noteq> []" "sqe_answers s = True # replicate (length cs) True @ as" using Cons.prems(2,3) by simp_all
  note S = receive_event_step [OF Cons.prems(1) this d1 ok1 n1]
  have "m_taskQueue (foldl (receive_event pb p) (receive_event pb p s c) cs) = m_taskQueue (receive_event pb p s c) @
      map (call_of fd (connId (ctx_of (receive_event pb p s c) p))) (requests_of items2) \<and>
    open_connection fd p (foldl (receive_event pb p) (receive_event pb p s c) cs) \<and>
    sqe_answers (foldl (receive_event pb p) (receive_event pb p s c) cs) = as \<and>
    m_readyCoros (foldl (receive_event pb p) (receive_event pb p s c) cs) = m_readyCoros (receive_event pb p s c) \<and>
    connId (ctx_of (foldl (receive_event pb p) (receive_event pb p s c) cs) p) = connId (ctx_of (receive_event pb p s c) p) \<and>
    outQueue (ctx_of (foldl (receive_event pb p) (receive_event pb p s c) cs) p) = outQueue (ctx_of (receive_event pb p s c) p) \<and>
    written (ctx_of (foldl (receive_event pb p) (receive_event pb p s c) cs) p) = written (ctx_of (receive_event pb p s c) p)"
  proof (rule Cons.IH)
    show "uring_take pb (m_serviceMap (receive_event pb p s c)) (input (ctx_of (receive_event pb p s c) p)) = None"
      using uring.drain_rest_None [of pb "m_serviceMap s" "input (ctx_of s p) @ c"] ok1 d1 S by simp
  qed (use S Cons.prems(2,6,7) i2 in auto)
  then show ?case using S i2 by (simp add: requests_of_append)
qed

text \<open>The pool hands every call's response to the reactor.\<close>

lemma workers_take:
  "n \<le> length (m_taskQueue s) \<Longrightarrow> (workerThread_take ^^ n) s =
     s\<lparr>m_taskQueue := drop n (m_taskQueue s), running := running s @ take n (m_taskQueue s)\<rparr>"
proof (induction n)
  case (Suc n)
  then have IH: "(workerThread_take ^^ n) s = s\<lparr>m_taskQueue := drop n (m_taskQueue s), running := running s @ take n (m_taskQueue s)\<rparr>"
    by simp
  have "drop n (m_taskQueue s) = m_taskQueue s ! n # drop (Suc n) (m_taskQueue s)"
    using Suc.prems by (intro Cons_nth_drop_Suc [symmetric]) simp
  then have "workerThread_take (s\<lparr>m_taskQueue := drop n (m_taskQueue s), running := running s @ take n (m_taskQueue s)\<rparr>) =
      s\<lparr>m_taskQueue := drop (Suc n) (m_taskQueue s), running := running s @ take (Suc n) (m_taskQueue s)\<rparr>"
    using Suc.prems by (simp add: workerThread_take_def take_Suc_conv_app_nth)
  then show ?case unfolding funpow.simps comp_apply IH .
qed simp

lemma done_all:
  "m_readyCoros (foldl (\<lambda>s t. onPoolDone t (Some (f (t_request t))) s) s ts) =
     m_readyCoros s @ map (\<lambda>t. (t, response_of_task f t)) ts"
  "mgr (foldl (\<lambda>s t. onPoolDone t (Some (f (t_request t))) s) s ts) = mgr s"
  "sqe_answers (foldl (\<lambda>s t. onPoolDone t (Some (f (t_request t))) s) s ts) = sqe_answers s"
  by (induction ts arbitrary: s) (simp_all add: onPoolDone_def resumeOnReactor_def response_of_task_def)

lemma run_pool_facts:
  assumes "mset ts = mset (m_taskQueue s)"
  shows "m_readyCoros (run_pool f ts s) = m_readyCoros s @ map (\<lambda>t. (t, response_of_task f t)) ts"
    "mgr (run_pool f ts s) = mgr s" "sqe_answers (run_pool f ts s) = sqe_answers s"
  using workers_take [of "length ts" s] mset_eq_length [OF assms] by (simp_all add: run_pool_def done_all)

text \<open>Delivering responses to an open connection that has room to start a send.\<close>

definition can_send :: "int \<Rightarrow> u64 \<Rightarrow> ctx_ptr \<Rightarrow> provider \<Rightarrow> bool" where
  "can_send fd cid p s \<longleftrightarrow> m_active (mgr s) fd = Some p \<and> connId (ctx_of s p) = cid \<and>
     written (ctx_of s p) \<le> length (concat (outQueue (ctx_of s p))) \<and>
     (sending (ctx_of s p) \<or> (\<exists>as. sqe_answers s = True # as))"

lemma deliver_can_send:
  assumes c: "can_send fd cid p s" and data: "data \<noteq> []"
  shows "can_send fd cid p (deliverResponse fd cid data s)"
    "unsent (ctx_of (deliverResponse fd cid data s) p) = unsent (ctx_of s p) @ data"
proof -
  show "unsent (ctx_of (deliverResponse fd cid data s) p) = unsent (ctx_of s p) @ data"
    using c by (intro deliverResponse_unsent) (simp_all add: can_send_def)
  obtain front q where q: "outQueue (ctx_of s p) @ [data] = front # q" by (cases "outQueue (ctx_of s p) @ [data]") auto
  show "can_send fd cid p (deliverResponse fd cid data s)"
  proof (cases "sending (ctx_of s p)")
    case True
    then show ?thesis using c by (simp add: can_send_def deliverResponse_def find_conn_def)
  next
    case False
    then obtain as where "sqe_answers s = True # as" using c by (auto simp: can_send_def)
    moreover have "length (concat (front # q)) = length (concat (outQueue (ctx_of s p))) + length data"
      unfolding q [symmetric] by simp
    then have "written (ctx_of s p) \<le> length front + length (concat q)" using c by (simp add: can_send_def)
    ultimately show ?thesis using c False q
      by (simp add: can_send_def deliverResponse_def find_conn_def submitSend_def get_sqe_def push_sqe_def
          onSubmit_def Let_def set_ctx_def)
  qed
qed

lemma resume_all:
  assumes "can_send fd cid p s" and "\<forall>(t, frame)\<in>set hs. t_fd t = fd \<and> t_connId t = cid \<and> frame \<noteq> []"
  shows "unsent (ctx_of (foldl (\<lambda>s h. resume_handleRpc h s) s hs) p) = unsent (ctx_of s p) @ concat (map snd hs)"
  using assms
proof (induction hs arbitrary: s)
  case (Cons h hs)
  obtain t frame where h: "h = (t, frame)" "t_fd t = fd" "t_connId t = cid" "frame \<noteq> []" using Cons.prems(2) by (cases h) auto
  then have r: "resume_handleRpc h s = deliverResponse fd cid frame s" by (simp add: resume_handleRpc_def)
  note D = deliver_can_send [OF Cons.prems(1) h(4)]
  have "unsent (ctx_of (foldl (\<lambda>s h. resume_handleRpc h s) (deliverResponse fd cid frame s) hs) p) =
      unsent (ctx_of (deliverResponse fd cid frame s) p) @ concat (map snd hs)"
    by (rule Cons.IH [OF D(1)]) (use Cons.prems(2) in simp)
  then show ?case by (simp add: r D(2)) (simp add: h(1))
qed simp

section \<open>The client\<close>

text \<open>The calls of a batch: each draws its id, is registered, and its frame is sent.\<close>

definition start_call :: "int \<Rightarrow> channel \<Rightarrow> channel" where
  "start_call now c =
     (let cl = \<lparr>cl_call = issued c, cl_id = m_nextId c, cl_stage = Allocated, cl_controller = True\<rparr> in
      callAsync_sent (cl\<lparr>cl_stage := Registered\<rparr>) True [] (callAsync_register cl now (callAsync_begin True True c)))"

fun issue_calls :: "int \<Rightarrow> (bytes \<times> bytes \<times> bytes) list \<Rightarrow> channel \<Rightarrow> rpc list \<times> channel" where
  "issue_calls now [] c = ([], c)"
| "issue_calls now ((svc, mth, args) # cs) c =
     (let (es, c') = issue_calls now cs (start_call now c) in
      (\<lparr>e_call = issued c, e_service = svc, e_method = mth, e_id = m_nextId c, e_args = args\<rparr> # es, c'))"

lemma start_call_facts:
  "m_nextId (start_call now c) = m_nextId c + 1" "completions (start_call now c) = completions c"
  "rx_taken (start_call now c) = rx_taken c"
  "map_of (m_pending (start_call now c)) = (map_of (m_pending c))
     (m_nextId c \<mapsto> \<lparr>p_call = issued c, p_controller = True, p_deadline = deadline_of (m_timeoutMs c) now\<rparr>)"
  by (simp_all add: start_call_def callAsync_begin_def callAsync_register_def callAsync_sent_def Let_def update_conv')

lemma issue_calls_all:
  assumes "issue_calls now cs c = (es, c')" and "length cs < 2 ^ 64"
  shows "map e_id es = map (\<lambda>i. m_nextId c + of_nat i) [0..<length cs] \<and>
    (\<forall>k. k \<notin> set (map e_id es) \<longrightarrow> map_of (m_pending c') k = map_of (m_pending c) k) \<and>
    completions c' = completions c \<and> rx_taken c' = rx_taken c \<and>
    (\<forall>e\<in>set es. \<exists>slot. map_of (m_pending c') (e_id e) = Some slot \<and> p_call slot = e_call e)"
  using assms
proof (induction now cs c arbitrary: es rule: issue_calls.induct)
  case (2 now svc mth args cs c)
  obtain es1 where r: "issue_calls now cs (start_call now c) = (es1, c')"
    "es = \<lparr>e_call = issued c, e_service = svc, e_method = mth, e_id = m_nextId c, e_args = args\<rparr> # es1"
    using "2.prems" by (auto split: prod.splits)
  have n: "length cs < 2 ^ 64" using "2.prems" by simp
  note IH = "2.IH" [OF r(1) n]
  note S = start_call_facts [of now c]
  have ids: "map e_id es1 = map (\<lambda>i. m_nextId c + 1 + of_nat i) [0..<length cs]" using IH S(1) by simp
  have fresh: "m_nextId c \<notin> set (map e_id es1)"
  proof
    assume "m_nextId c \<in> set (map e_id es1)"
    then obtain i where i: "i < length cs" "(1 + of_nat i :: u64) = 0" unfolding ids by (auto simp: add.assoc)
    have "(of_nat (Suc i) :: u64) = 0" using i(2) by simp
    then have "2 ^ LENGTH(64) dvd Suc i" by (simp only: word_of_nat_eq_0_iff)
    then have "2 ^ 64 \<le> Suc i" by (auto dest!: dvd_imp_le)
    then show False using i(1) "2.prems"(2) by simp
  qed
  have all: "map e_id es = map (\<lambda>i. m_nextId c + of_nat i) [0..<length ((svc, mth, args) # cs)]"
    unfolding r(2) using ids
    by (simp add: upt_conv_Cons map_Suc_upt [symmetric] comp_def add.assoc add.commute del: upt_Suc)
  have "map_of (m_pending c') (m_nextId c) = map_of (m_pending (start_call now c)) (m_nextId c)"
    using IH fresh by blast
  then have slots: "\<forall>e\<in>set es. \<exists>slot. map_of (m_pending c') (e_id e) = Some slot \<and> p_call slot = e_call e"
    using IH S(4) unfolding r(2) by auto
  have others: "\<forall>k. k \<notin> set (map e_id es) \<longrightarrow> map_of (m_pending c') k = map_of (m_pending c) k"
    using IH [THEN conjunct2, THEN conjunct1] S(4) unfolding r(2) by auto
  from IH S(2,3) have "completions c' = completions c \<and> rx_taken c' = rx_taken c" by simp
  with all others slots show ?case by blast
qed auto

lemmas issue_calls_facts =
  issue_calls_all [THEN conjunct1] issue_calls_all [THEN conjunct2, THEN conjunct2, THEN conjunct1]
  issue_calls_all [THEN conjunct2, THEN conjunct2, THEN conjunct2, THEN conjunct1]
  issue_calls_all [THEN conjunct2, THEN conjunct2, THEN conjunct2, THEN conjunct2]

lemma issue_calls_distinct:
  assumes "issue_calls now cs c = (es, c')" and "length cs < 2 ^ 64"
  shows "distinct (map e_id es)"
proof -
  have "inj_on (\<lambda>i. m_nextId c + of_nat i :: u64) {0..<length cs}"
  proof (intro inj_onI)
    fix i j assume "i \<in> {0..<length cs}" "j \<in> {0..<length cs}" "m_nextId c + of_nat i = m_nextId c + (of_nat j :: u64)"
    then have "take_bit 64 i = take_bit 64 j" "i < 2 ^ 64" "j < 2 ^ 64" using assms(2) by (auto simp: word_of_nat_eq_iff)
    then show "i = j" by (simp add: take_bit_nat_eq_self)
  qed
  then show ?thesis unfolding issue_calls_facts(1) [OF assms] by (simp add: distinct_map)
qed

definition answer :: "(bytes \<Rightarrow> bool) \<Rightarrow> channel \<Rightarrow> u64 \<times> bytes \<Rightarrow> channel" where
  "answer parses c x = recv_complete parses (recv_dispatch (fst x) (snd x) c)"

lemma answers_complete:
  assumes "distinct (map fst xs)" and "rx_taken c = []"
    and "\<forall>(i, b)\<in>set xs. parses b \<and> (\<exists>slot. map_of (m_pending c) i = Some slot \<and> p_call slot = call i)"
  shows "completions (foldl (answer parses) c xs) =
    completions c @ map (\<lambda>(i, b). \<lparr>c_call = call i, c_error = None, c_body = Some b\<rparr>) xs"
  using assms
proof (induction xs arbitrary: c)
  case (Cons x xs)
  obtain i b where x: "x = (i, b)" by fastforce
  with Cons.prems obtain slot where slot: "map_of (m_pending c) i = Some slot" "p_call slot = call i" "parses b" by auto
  have a: "completions (answer parses c x) = completions c @ [\<lparr>c_call = call i, c_error = None, c_body = Some b\<rparr>]"
    "rx_taken (answer parses c x) = []" "m_pending (answer parses c x) = AList.delete i (m_pending c)"
    using slot Cons.prems(2) by (simp_all add: answer_def recv_dispatch_def recv_complete_def x)
  have "\<forall>(j, b)\<in>set xs. parses b \<and> (\<exists>slot. map_of (m_pending (answer parses c x)) j = Some slot \<and> p_call slot = call j)"
  proof (intro ballI, clarify)
    fix j b' assume j: "(j, b') \<in> set xs"
    then have "j \<noteq> i" using Cons.prems(1) x by (auto simp: image_iff)
    moreover have "parses b' \<and> (\<exists>slot. map_of (m_pending c) j = Some slot \<and> p_call slot = call j)"
      using Cons.prems(3) j by auto
    ultimately show "parses b' \<and> (\<exists>slot. map_of (m_pending (answer parses c x)) j = Some slot \<and> p_call slot = call j)"
      by (simp add: a(3) map_of_delete)
  qed
  from Cons.IH [OF _ a(2) this] Cons.prems(1) show ?case by (simp add: a(1) [unfolded x] x)
qed simp

section \<open>The batch\<close>

definition serve_batch ::
  "protobuf \<Rightarrow> (request \<Rightarrow> bytes) \<Rightarrow> int \<Rightarrow> ctx_ptr \<Rightarrow> bytes list \<Rightarrow> rpc_task list \<Rightarrow> provider \<Rightarrow> provider" where
  "serve_batch pb business fd p chunks ts s =
     handleNotify (run_pool business ts (foldl (receive_event pb p) s chunks))"

definition client_batch :: "(bytes \<Rightarrow> bool) \<Rightarrow> sock \<Rightarrow> channel \<Rightarrow> channel" where
  "client_batch parses sk c = foldl (answer parses) c (fst (recvLoop sk))"

text \<open>An open connection with nothing buffered in either direction, a server with nothing queued, and
  room in the submission queue for \<open>n\<close> entries.\<close>

definition idle_connection :: "int \<Rightarrow> ctx_ptr \<Rightarrow> nat \<Rightarrow> provider \<Rightarrow> bool" where
  "idle_connection fd p n s \<longleftrightarrow> open_connection fd p s \<and> input (ctx_of s p) = [] \<and> outQueue (ctx_of s p) = [] \<and>
     written (ctx_of s p) = 0 \<and> pendingReqs (ctx_of s p) = 0 \<and> m_taskQueue s = [] \<and> m_readyCoros s = [] \<and>
     take n (sqe_answers s) = replicate n True"

lemma requests_of_map: "requests_of (map Request rqs) = rqs"
  by (induction rqs) simp_all

lemma batch_requests:
  assumes idle: "idle_connection fd p (length chunks + 1) s" and served: "\<forall>e\<in>set es. served pb (m_serviceMap s) e (rq e)"
    and frames: "map (frame_of pb) es = map Some frames" "concat chunks = concat frames"
    and chunks: "\<forall>c\<in>set chunks. c \<noteq> []" and few: "int (length es) < kMaxInflightPerConn"
  defines "s' \<equiv> foldl (receive_event pb p) s chunks"
  shows "m_taskQueue s' = map (\<lambda>e. call_of fd (connId (ctx_of s p)) (rq e)) es \<and> open_connection fd p s' \<and>
    (\<exists>as. sqe_answers s' = True # as) \<and> m_readyCoros s' = [] \<and> connId (ctx_of s' p) = connId (ctx_of s p) \<and>
    outQueue (ctx_of s' p) = [] \<and> written (ctx_of s' p) = 0"
proof -
  define hs where "hs = (\<lambda>e. the (serialize_header pb (header_of e)))"
  define ms where "ms = map (\<lambda>e. (header_of e, hs e, e_args e)) es"
  have f: "frame_of pb e = Some (request_frame (hs e) (e_args e)) \<and> uring_ok pb (m_serviceMap s) (header_of e, hs e, e_args e) \<and>
      resolve_request pb (m_serviceMap s) (header_of e) (e_args e) = Request (rq e)" if "e \<in> set es" for e
    using served_frame [of pb "m_serviceMap s" e "rq e"] served that
    by (auto simp: hs_def frame_of_def make_request_def header_of_def served_def request_frame_def split: option.splits)
  have "map Some frames = map Some (map (\<lambda>e. request_frame (hs e) (e_args e)) es)"
    unfolding frames(1) [symmetric] using f by simp
  then have "frames = map (\<lambda>e. request_frame (hs e) (e_args e)) es" by (simp del: map_map)
  then have bytes: "concat chunks = concat (map (\<lambda>(h, hs, args). request_frame hs args) ms)"
    by (simp add: frames(2) ms_def comp_def)
  have ok: "\<forall>m\<in>set ms. uring_ok pb (m_serviceMap s) m" using f by (auto simp: ms_def)
  have none: "uring_take pb (m_serviceMap s) [] = None" by (simp add: uring_take_def)
  have "drain (uring_take pb (m_serviceMap s)) uring_closes (concat chunks) =
      (map (\<lambda>(h, hs, args). resolve_request pb (m_serviceMap s) h args) ms, [])"
    using uring_frames.drain_enc_append [of ms pb "m_serviceMap s" "[]"] ok bytes by (simp add: uring.drain_None [OF none])
  also have "map (\<lambda>(h, hs, args). resolve_request pb (m_serviceMap s) h args) ms = map Request (map rq es)"
    using f by (simp add: ms_def)
  finally have d: "drain (uring_take pb (m_serviceMap s)) uring_closes (concat chunks) = (map Request (map rq es), [])" .
  have room: "take (length chunks + 1) (sqe_answers s) = replicate (length chunks) True @ [True]"
    using idle by (simp add: idle_connection_def replicate_append_same)
  have as: "sqe_answers s = replicate (length chunks) True @ True # drop (length chunks + 1) (sqe_answers s)"
    using append_take_drop_id [of "length chunks + 1" "sqe_answers s"] unfolding room by simp
  have "m_taskQueue s' = m_taskQueue s @ map (call_of fd (connId (ctx_of s p))) (requests_of (map Request (map rq es))) \<and>
    open_connection fd p s' \<and> sqe_answers s' = True # drop (length chunks + 1) (sqe_answers s) \<and>
    m_readyCoros s' = m_readyCoros s \<and> connId (ctx_of s' p) = connId (ctx_of s p) \<and>
    outQueue (ctx_of s' p) = outQueue (ctx_of s p) \<and> written (ctx_of s' p) = written (ctx_of s p)"
    unfolding s'_def
  proof (rule receive_events)
    show "drain (uring_take pb (m_serviceMap s)) uring_closes (input (ctx_of s p) @ concat chunks) = (map Request (map rq es), [])"
      using d idle by (simp add: idle_connection_def)
  qed (use idle chunks few as none in \<open>auto simp: idle_connection_def\<close>)
  then show ?thesis using idle by (auto simp: idle_connection_def requests_of_map simp del: map_map) simp
qed

lemma batch_bytes:
  assumes idle: "idle_connection fd p (length chunks + 1) s" and served: "\<forall>e\<in>set es. served pb (m_serviceMap s) e (rq e)"
    and frames: "map (frame_of pb) es = map Some frames" "concat chunks = concat frames"
    and chunks: "\<forall>c\<in>set chunks. c \<noteq> []" and few: "int (length es) < kMaxInflightPerConn"
    and ts: "mset ts = mset (map (\<lambda>e. call_of fd (connId (ctx_of s p)) (rq e)) es)"
  shows "unsent (ctx_of (serve_batch pb f fd p chunks ts s) p) = concat (map (response_of_task f) ts)"
proof -
  let ?s1 = "foldl (receive_event pb p) s chunks"
  let ?s2 = "run_pool f ts ?s1"
  note b = batch_requests [OF idle served frames chunks few]
  have "mset ts = mset (m_taskQueue ?s1)" using b ts by simp
  note r = run_pool_facts [OF this, of f]
  have can: "can_send fd (connId (ctx_of s p)) p (?s2\<lparr>m_readyCoros := []\<rparr>)"
    using b r by (simp add: can_send_def open_connection_def find_conn_def)
  have ready: "m_readyCoros ?s2 = map (\<lambda>t. (t, response_of_task f t)) ts" using r(1) b by simp
  have "\<forall>t\<in>set ts. t_fd t = fd \<and> t_connId t = connId (ctx_of s p)"
    using mset_eq_setD [OF ts] by (auto simp: call_of_def)
  then have "\<forall>(t, frame)\<in>set (m_readyCoros ?s2). t_fd t = fd \<and> t_connId t = connId (ctx_of s p) \<and> frame \<noteq> []"
    by (auto simp: ready response_of_task_def)
  from resume_all [OF can this] show ?thesis
    using b r(2) by (simp add: serve_batch_def handleNotify_def Let_def ready unsent_def comp_def)
qed

lemma batch_end_to_end:
  assumes idle: "idle_connection fd p (length chunks + 1) s" and served: "\<forall>e\<in>set es. served pb (m_serviceMap s) e (rq e)"
    and frames: "map (frame_of pb) es = map Some frames" "concat chunks = concat frames"
    and chunks: "\<forall>c\<in>set chunks. c \<noteq> []" and few: "int (length es) < kMaxInflightPerConn"
    and ts: "mset ts = mset (map (\<lambda>e. call_of fd (connId (ctx_of s p)) (rq e)) es)"
    and f: "\<forall>e\<in>set es. body_fits (f (rq e)) \<and> parses (f (rq e))"
    and issued: "issue_calls now cs c = (es, c1)" "length cs < 2 ^ 64" "rx_taken c = []"
    and sk: "ready sk" "incoming sk = unsent (ctx_of (serve_batch pb f fd p chunks ts s) p)"
  shows "mset (completions (client_batch parses sk c1)) = mset (completions c) +
    mset (map (\<lambda>e. \<lparr>c_call = e_call e, c_error = None, c_body = Some (f (rq e))\<rparr>) es)"
proof -
  note ids = issue_calls_distinct [OF issued(1,2)]
  note iss = issue_calls_facts [OF issued(1,2)]
  note waiting = iss(4)
  let ?call = "call_of fd (connId (ctx_of s p))"
  let ?x = "\<lambda>t. (rq_id (t_request t), f (t_request t))"
  have id: "rq_id (rq e) = e_id e" if "e \<in> set es" for e using served_frame served that by blast
  have set_ts: "set ts = (\<lambda>e. ?call (rq e)) ` set es" using mset_eq_setD [OF ts] by simp
  have "incoming sk = concat (map (\<lambda>(rid, body). response_frame rid body) (map ?x ts))"
    unfolding sk(2) batch_bytes [OF idle served frames chunks few ts] by (simp add: response_of_task_def [abs_def] comp_def)
  then have read: "fst (recvLoop sk) = map ?x ts"
    using f set_ts by (intro recvLoop_reads [OF sk(1)]) (auto simp: call_of_def)
  have msx: "mset (map ?x ts) = mset (map (\<lambda>e. (e_id e, f (rq e))) es)"
  proof -
    have "mset (map ?x ts) = image_mset ?x (mset ts)" by simp
    also have "\<dots> = mset (map (\<lambda>e. ?x (?call (rq e))) es)" unfolding ts by (simp add: image_mset.compositionality comp_def)
    also have "map (\<lambda>e. ?x (?call (rq e))) es = map (\<lambda>e. (e_id e, f (rq e))) es" using id by (simp add: call_of_def)
    finally show ?thesis .
  qed
  define call where "call = (\<lambda>i. the (map_of (map (\<lambda>e. (e_id e, e_call e)) es) i))"
  have call: "call (e_id e) = e_call e" if "e \<in> set es" for e
  proof -
    have "map_of (map (\<lambda>e. (e_id e, e_call e)) es) (e_id e) = Some (e_call e)"
      using ids that by (intro map_of_is_SomeI) (auto simp: comp_def)
    then show ?thesis by (simp add: call_def)
  qed
  have "mset (map fst (map ?x ts)) = image_mset fst (mset (map (\<lambda>e. (e_id e, f (rq e))) es))" unfolding msx [symmetric] by (rule mset_map)
  also have "\<dots> = mset (map e_id es)" by (simp add: image_mset.compositionality comp_def)
  finally have dist: "distinct (map fst (map ?x ts))" using mset_eq_imp_distinct_iff ids by blast
  have "\<forall>(i, b)\<in>set (map ?x ts). parses b \<and> (\<exists>slot. map_of (m_pending c1) i = Some slot \<and> p_call slot = call i)"
    unfolding mset_eq_setD [OF msx] using f waiting call by auto
  note completed = answers_complete [OF dist iss(3) [unfolded issued(3)] this]
  have "mset (completions (client_batch parses sk c1)) = mset (completions c) +
      image_mset (\<lambda>(i, b). \<lparr>c_call = call i, c_error = None, c_body = Some b\<rparr>) (mset (map ?x ts))"
    unfolding client_batch_def read completed iss(2) by (simp only: mset_append mset_map)
  also have "image_mset (\<lambda>(i, b). \<lparr>c_call = call i, c_error = None, c_body = Some b\<rparr>) (mset (map ?x ts)) =
      mset (map (\<lambda>e. \<lparr>c_call = e_call e, c_error = None, c_body = Some (f (rq e))\<rparr>) es)"
    unfolding msx using call by (auto simp: image_mset.compositionality comp_def intro: image_mset_cong)
  finally show ?thesis .
qed

end
