(* ===== verification/Examples.thy ===== *)
theory Examples
  imports EndToEnd Startup DemoServer
begin

text \<open>
  The programs under example/: the two services (callee/userservice.cc, callee/friendservice.cc and
  benchmark/userservice.h), the programs that publish them, the clients (caller/) and the load
  generator (benchmark/bench_user.cc). The message classes are records with the fields of
  user.proto and friend.proto; their encoding is generated code and a parameter. What a program
  prints is the list of its lines.
\<close>

section \<open>Messages\<close>

record result_code =
  errcode :: int
  errmsg :: bytes

record login_request =
  lg_name :: bytes
  lg_pwd :: bytes

record register_request =
  rg_id :: u32
  rg_name :: bytes
  rg_pwd :: bytes

text \<open>\<open>LoginResponse\<close> and \<open>RegisterResponse\<close> have the same fields.\<close>

record user_response =
  ur_result :: result_code
  ur_success :: bool

record friends_response =
  fr_result :: result_code
  fr_friends :: "bytes list"

definition no_result :: result_code where "no_result = \<lparr>errcode = 0, errmsg = []\<rparr>"

definition new_user_response :: user_response where
  "new_user_response = \<lparr>ur_result = no_result, ur_success = False\<rparr>"

section \<open>The services\<close>

definition local_Login :: "bytes \<Rightarrow> bytes \<Rightarrow> bool" where "local_Login name pwd = True"
definition local_Register :: "u32 \<Rightarrow> bytes \<Rightarrow> bytes \<Rightarrow> bool" where "local_Register uid name pwd = True"

definition rpc_Login :: "login_request \<Rightarrow> user_response \<Rightarrow> user_response" where
  "rpc_Login request response =
     (let login_result = local_Login (lg_name request) (lg_pwd request) in
      response\<lparr>ur_result := \<lparr>errcode = 0, errmsg = []\<rparr>, ur_success := login_result\<rparr>)"

definition rpc_Register :: "register_request \<Rightarrow> user_response \<Rightarrow> user_response" where
  "rpc_Register request response =
     (let ret = local_Register (rg_id request) (rg_name request) (rg_pwd request) in
      response\<lparr>ur_result := \<lparr>errcode = 0, errmsg = []\<rparr>, ur_success := ret\<rparr>)"

definition local_GetFriendList :: "u32 \<Rightarrow> bytes list" where
  "local_GetFriendList userid = [str ''gao yang'', str ''wang wu'', str ''li gui'', str ''a da xi wa'']"

definition rpc_GetFriendList :: "u32 \<Rightarrow> friends_response \<Rightarrow> friends_response" where
  "rpc_GetFriendList userid response =
     foldl (\<lambda>r name. r\<lparr>fr_friends := fr_friends r @ [name]\<rparr>)
       (response\<lparr>fr_result := \<lparr>errcode = 0, errmsg = []\<rparr>\<rparr>) (local_GetFriendList userid)"

text \<open>What the generated base class lists, and its \<open>CallMethod\<close>, which picks the method by its
  descriptor. The parsers and the serialiser of the messages are parameters.\<close>

definition login_md :: method_desc where
  "login_md = \<lparr>md_service = str ''UserServiceRpc'', md_name = str ''Login''\<rparr>"

definition register_md :: method_desc where
  "register_md = \<lparr>md_service = str ''UserServiceRpc'', md_name = str ''Register''\<rparr>"

definition user_service :: service where
  "user_service = \<lparr>svc_id = 0, svc_name = str ''UserServiceRpc'', svc_methods = [login_md, register_md]\<rparr>"

definition user_call ::
  "(message \<Rightarrow> login_request) \<Rightarrow> (message \<Rightarrow> register_request) \<Rightarrow> (user_response \<Rightarrow> bytes) \<Rightarrow> request \<Rightarrow> bytes" where
  "user_call login register put rq =
     (if md_name (rq_method rq) = str ''Login'' then put (rpc_Login (login (rq_msg rq)) new_user_response)
      else put (rpc_Register (register (rq_msg rq)) new_user_response))"

section \<open>The programs that publish them\<close>

definition uring_provider_main ::
  "nat \<Rightarrow> getopt_result list \<Rightarrow> (bytes \<Rightarrow> bytes option) \<Rightarrow> json_parser \<Rightarrow> bool \<Rightarrow> listen_calls \<Rightarrow> http \<Rightarrow> bool \<Rightarrow>
     bool list \<Rightarrow> (run_error, provider \<times> http) sum" where
  "uring_provider_main argc opts files jp ringReady l h bufs sqes =
     (case Init argc opts files of
        Inl e \<Rightarrow> Inl e
      | Inr cfg \<Rightarrow> uring_Run jp ringReady cfg l (NotifyService user_service []) h bufs sqes)"

definition muduo_provider_main ::
  "nat \<Rightarrow> getopt_result list \<Rightarrow> (bytes \<Rightarrow> bytes option) \<Rightarrow> json_parser \<Rightarrow> http \<Rightarrow> (run_error, http) sum" where
  "muduo_provider_main argc opts files jp h =
     (case Init argc opts files of
        Inl e \<Rightarrow> Inl e
      | Inr cfg \<Rightarrow> muduo_Run jp cfg (NotifyService user_service []) h)"

section \<open>The clients\<close>

definition show_bool :: "bool \<Rightarrow> bytes" where "show_bool b = (if b then str ''1'' else str ''0'')"

text \<open>
  The blocking call as the caller sees it: the controller, if it passed one, and the response body.
  The channel calls \<open>controller->SetFailed\<close> without a test: \<open>None\<close> is the null dereference.
  \<open>text\<close> gives the error texts.
\<close>

definition report_blocking ::
  "(call_error \<Rightarrow> bytes) \<Rightarrow> controller option \<Rightarrow> (call_error, bytes) sum \<Rightarrow> (controller option \<times> bytes option) option" where
  "report_blocking text ctl r =
     (case r of
        Inr body \<Rightarrow> Some (ctl, Some body)
      | Inl e \<Rightarrow> (case ctl of None \<Rightarrow> None | Some c \<Rightarrow> Some (Some (SetFailed (text e) c), None)))"

definition print_user_response :: "user_response \<Rightarrow> bytes" where
  "print_user_response r =
     (if errcode (ur_result r) = 0 then str ''rpc login response success:'' @ show_bool (ur_success r)
      else str ''rpc login response error:'' @ errmsg (ur_result r))"

text \<open>calluserservice.cc, blocking build: two calls without a controller. The flag tells whether
  the program got through.\<close>

fun call_and_print ::
  "(call_error \<Rightarrow> bytes) \<Rightarrow> (bytes \<Rightarrow> user_response) \<Rightarrow> (call_error, bytes) sum list \<Rightarrow> bytes list \<times> bool" where
  "call_and_print text get [] = ([], True)"
| "call_and_print text get (r # rs) =
     (case report_blocking text None r of
        None \<Rightarrow> ([], False)
      | Some (ctl, body) \<Rightarrow>
          let (ls, ok) = call_and_print text get rs in
          (print_user_response (case body of Some b \<Rightarrow> get b | None \<Rightarrow> new_user_response) # ls, ok))"

text \<open>The non-blocking build: \<open>AsyncLogin::onDone\<close>.\<close>

definition onDone :: "controller \<Rightarrow> user_response \<Rightarrow> bytes" where
  "onDone ctl response =
     (if m_failed ctl then str ''[async] login rpc failed: '' @ m_errText ctl
      else if errcode (ur_result response) \<noteq> 0 then str ''[async] login biz error: '' @ errmsg (ur_result response)
      else str ''[async] login success: '' @ show_bool (ur_success response))"

text \<open>The line a completion of the channel makes it print.\<close>

definition login_line :: "(bytes \<Rightarrow> user_response) \<Rightarrow> completion \<Rightarrow> bytes" where
  "login_line get c =
     onDone (case c_error c of Some e \<Rightarrow> SetFailed e KimRpcController | None \<Rightarrow> KimRpcController)
       (case c_body c of Some b \<Rightarrow> get b | None \<Rightarrow> new_user_response)"

definition two_logins :: "bytes \<Rightarrow> (bytes \<times> bytes \<times> bytes) list" where
  "two_logins args = replicate 2 (str ''UserServiceRpc'', str ''Login'', args)"

text \<open>callfriendservice.cc, which passes a controller.\<close>

definition friend_lines :: "controller \<Rightarrow> friends_response \<Rightarrow> bytes list" where
  "friend_lines ctl response =
     (if m_failed ctl then [m_errText ctl]
      else if errcode (fr_result response) = 0 then
        str ''rpc GetFriendList response success'' #
        map (\<lambda>i. str ''index:'' @ to_string (int i + 1) @ str '' name:'' @ fr_friends response ! i)
          [0..<length (fr_friends response)]
      else [str ''rpc GetFriendList response error:'' @ errmsg (fr_result response)])"

section \<open>The load generator\<close>

record bench_opts =
  bo_threads :: int
  bo_n_per_thr :: int
  bo_channels :: int
  bo_argv :: "bytes list"

text \<open>The loop over \<open>argv\<close> from 1 on; \<open>None\<close> is the exception of \<open>stoi\<close>.\<close>

fun bench_args :: "bytes list \<Rightarrow> bench_opts \<Rightarrow> bench_opts option" where
  "bench_args [] o1 = Some o1"
| "bench_args [a] o1 = Some (o1\<lparr>bo_argv := bo_argv o1 @ [a]\<rparr>)"
| "bench_args (a # v # rest) o1 =
     (if a = str ''-t'' then (case stoi v of None \<Rightarrow> None | Some n \<Rightarrow> bench_args rest (o1\<lparr>bo_threads := n\<rparr>))
      else if a = str ''-n'' then (case stoi v of None \<Rightarrow> None | Some n \<Rightarrow> bench_args rest (o1\<lparr>bo_n_per_thr := n\<rparr>))
      else if a = str ''-c'' then (case stoi v of None \<Rightarrow> None | Some n \<Rightarrow> bench_args rest (o1\<lparr>bo_channels := n\<rparr>))
      else bench_args (v # rest) (o1\<lparr>bo_argv := bo_argv o1 @ [a]\<rparr>))"

definition bench_options :: "bytes \<Rightarrow> bytes list \<Rightarrow> bench_opts option" where
  "bench_options argv0 args =
     (case bench_args args \<lparr>bo_threads = 1, bo_n_per_thr = 1000, bo_channels = 1, bo_argv = [argv0]\<rparr> of
        None \<Rightarrow> None
      | Some o1 \<Rightarrow> Some (if bo_channels o1 < 1 then o1\<lparr>bo_channels := 1\<rparr> else o1))"

text \<open>One call of a worker, and the counters.\<close>

record bench_call =
  bc_us :: int
  bc_failed :: bool
  bc_errcode :: int

record bench =
  g_success :: int
  g_failed :: int
  g_latencies :: "int list"

definition count_call :: "bench_call \<Rightarrow> bench \<Rightarrow> bench" where
  "count_call c b =
     (if bc_failed c \<or> bc_errcode c \<noteq> 0 then b\<lparr>g_failed := g_failed b + 1\<rparr> else b\<lparr>g_success := g_success b + 1\<rparr>)"

text \<open>A worker's calls are \<open>made 0\<close>, \<open>made 1\<close>, \dots. A negative number makes \<open>reserve\<close> throw in
  the thread, which ends the program.\<close>

definition worker :: "int \<Rightarrow> (nat \<Rightarrow> bench_call) \<Rightarrow> bench \<Rightarrow> bench option" where
  "worker n_requests made b =
     (if n_requests < 0 then None
      else let cs = map made [0..<nat n_requests]; b1 = fold count_call cs b in
        Some (b1\<lparr>g_latencies := g_latencies b1 @ map bc_us cs\<rparr>))"

text \<open>The workers' counters are atomic and the latencies are appended under a mutex, so a run is
  given by the order in which the workers finish.\<close>

fun bench_run :: "int \<Rightarrow> (nat \<Rightarrow> nat \<Rightarrow> bench_call) \<Rightarrow> nat list \<Rightarrow> bench \<Rightarrow> bench option" where
  "bench_run n made [] b = Some b"
| "bench_run n made (t # ts) b =
     (case worker n (made t) b of None \<Rightarrow> None | Some b1 \<Rightarrow> bench_run n made ts b1)"

definition bench_start :: bench where "bench_start = \<lparr>g_success = 0, g_failed = 0, g_latencies = []\<rparr>"

definition channel_of_worker :: "bench_opts \<Rightarrow> nat \<Rightarrow> nat" where
  "channel_of_worker o1 i = i mod nat (bo_channels o1)"

text \<open>\<open>k\<close> is the value of \<open>(int)(v.size() * p)\<close>.\<close>

definition pct :: "int list \<Rightarrow> int \<Rightarrow> int" where
  "pct v k = (if v = [] then 0 else v ! nat (min k (int (length v) - 1)))"

section \<open>What the programs do\<close>

text \<open>A server program that gets to its event loop publishes the two methods, and every
  \<open>Login\<close> whose arguments parse becomes a request for that method.\<close>

lemma user_services:
  "NotifyService user_service [] = [(str ''UserServiceRpc'',
     \<lparr>m_service = user_service, m_methodMap = [(str ''Login'', login_md), (str ''Register'', register_md)]\<rparr>)]"
  by (simp add: NotifyService_def user_service_def login_md_def register_md_def map_insert_def)

lemma uring_main_publishes:
  assumes "uring_provider_main argc opts files jp ringReady l h bufs sqes = Inr (s, h')"
  shows "m_serviceMap s = NotifyService user_service []" and "provider_start s"
    and "muduo_provider_main argc opts files jp h = Inr h'"
  using assms runs_register_alike by (auto simp: uring_provider_main_def muduo_provider_main_def split: sum.splits)

definition login_of :: "nat \<Rightarrow> u64 \<Rightarrow> bytes \<Rightarrow> rpc" where
  "login_of n rid args =
     \<lparr>e_call = n, e_service = str ''UserServiceRpc'', e_method = str ''Login'', e_id = rid, e_args = args\<rparr>"

definition login_request_of :: "u64 \<Rightarrow> message \<Rightarrow> request" where
  "login_request_of rid msg = \<lparr>rq_service = user_service, rq_method = login_md, rq_id = rid, rq_msg = msg\<rparr>"

lemma login_served:
  assumes "serialize_header pb (header_of (login_of n rid args)) = Some hs"
    and "parse_header pb hs = Some (header_of (login_of n rid args))"
    and "length hs \<le> unat kMaxHeaderSize" "length args \<le> unat kMaxBodySize"
    and "parse_request pb login_md args = Some msg"
  shows "served pb (NotifyService user_service []) (login_of n rid args) (login_request_of rid msg)"
  using assms by (simp add: served_def resolve_request_def user_services header_of_def login_of_def login_request_of_def)

lemma login_answer:
  "user_call login register put (login_request_of rid msg) =
     put \<lparr>ur_result = \<lparr>errcode = 0, errmsg = []\<rparr>, ur_success = True\<rparr>"
  by (simp add: user_call_def login_request_of_def login_md_def rpc_Login_def local_Login_def new_user_response_def)

lemma two_logins_issue:
  "issue_calls now (two_logins args) c =
     ([login_of (issued c) (m_nextId c) args, login_of (issued c + 1) (m_nextId c + 1) args],
      start_call now (start_call now c))"
  by (simp add: two_logins_def numeral_2_eq_2 login_of_def start_call_def callAsync_begin_def callAsync_register_def
      callAsync_sent_def Let_def)

lemma mset_replicate_list: "mset xs = mset (replicate n x) \<Longrightarrow> xs = replicate n x"
  by (metis mset_eq_length mset_eq_setD in_set_replicate length_replicate replicate_length_same)

text \<open>The two calls of the non-blocking client, through the whole system.\<close>

lemma both_logins_succeed:
  assumes idle: "idle_connection fd p (length chunks + 1) s" "m_serviceMap s = NotifyService user_service []"
    and header: "\<forall>i. \<exists>hs. serialize_header pb (header_of (login_of 0 i args)) = Some hs \<and>
      parse_header pb hs = Some (header_of (login_of 0 i args)) \<and> length hs \<le> unat kMaxHeaderSize"
    and args: "length args \<le> unat kMaxBodySize" "parse_request pb login_md args = Some msg"
    and put: "\<And>r. get (put r) = r" "\<And>r. body_fits (put r) \<and> parses (put r)"
    and fresh: "rx_taken c = []" "completions c = []"
    and frames: "map (frame_of pb) (fst (issue_calls now (two_logins args) c)) = map Some frames"
      "concat chunks = concat frames" "\<forall>c\<in>set chunks. c \<noteq> []"
    and ts: "mset ts = mset [call_of fd (connId (ctx_of s p)) (login_request_of (m_nextId c) msg),
      call_of fd (connId (ctx_of s p)) (login_request_of (m_nextId c + 1) msg)]"
    and sk: "ready sk" "incoming sk = unsent (ctx_of (serve_batch pb (user_call login register put) fd p chunks ts s) p)"
  shows "map (login_line get) (completions (client_batch parses sk (snd (issue_calls now (two_logins args) c)))) =
    [str ''[async] login success: 1'', str ''[async] login success: 1'']"
proof -
  let ?es = "[login_of (issued c) (m_nextId c) args, login_of (issued c + 1) (m_nextId c + 1) args]"
  let ?rq = "\<lambda>e. login_request_of (e_id e) msg"
  let ?f = "user_call login register put"
  have hd: "header_of (login_of n i args) = header_of (login_of 0 i args)" for n i by (simp add: header_of_def login_of_def)
  have served: "served pb (m_serviceMap s) (login_of n i args) (login_request_of i msg)" for n i
    using header args idle(2) by (metis hd login_served)
  have "mset (completions (client_batch parses sk (start_call now (start_call now c)))) = mset (completions c) +
      mset (map (\<lambda>e. \<lparr>c_call = e_call e, c_error = None, c_body = Some (?f (?rq e))\<rparr>) ?es)"
  proof (rule batch_end_to_end [OF idle(1) _ _ frames(2,3) _ _ _ two_logins_issue])
    show "\<forall>e\<in>set ?es. served pb (m_serviceMap s) e (?rq e)" using served by (simp add: login_of_def)
    show "map (frame_of pb) ?es = map Some frames" using frames(1) by (simp add: two_logins_issue)
    show "mset ts = mset (map (\<lambda>e. call_of fd (connId (ctx_of s p)) (?rq e)) ?es)" using ts by (simp add: login_of_def)
  qed (use put fresh sk in \<open>simp_all add: login_answer two_logins_def kMaxInflightPerConn_def\<close>)
  then have "mset (map (login_line get) (completions (client_batch parses sk (start_call now (start_call now c))))) =
      mset (replicate 2 (str ''[async] login success: 1''))"
    using put(1) fresh(2)
    by (simp add: login_answer login_line_def onDone_def KimRpcController_def show_bool_def numeral_2_eq_2)
  from mset_replicate_list [OF this] show ?thesis by (simp add: two_logins_issue numeral_2_eq_2)
qed

lemma friends_printed:
  "friend_lines KimRpcController (rpc_GetFriendList uid \<lparr>fr_result = no_result, fr_friends = []\<rparr>) =
     [str ''rpc GetFriendList response success'', str ''index:1 name:gao yang'', str ''index:2 name:wang wu'',
      str ''index:3 name:li gui'', str ''index:4 name:a da xi wa'']"
  by (simp add: friend_lines_def rpc_GetFriendList_def local_GetFriendList_def KimRpcController_def upt_rec
      to_string_def dec_digits.simps)

text \<open>The blocking client passes no controller: an error of either call ends it in the null
  dereference, after the lines of the calls before.\<close>

lemma failed_call_without_controller:
  "snd (call_and_print text get rs) \<longleftrightarrow> (\<forall>r\<in>set rs. \<exists>body. r = Inr body)"
  by (induction rs) (auto simp: report_blocking_def split: sum.splits prod.splits)

text \<open>The load generator counts every call once.\<close>

lemma count_calls:
  "g_success (fold count_call cs b) + g_failed (fold count_call cs b) = g_success b + g_failed b + int (length cs)"
  "g_latencies (fold count_call cs b) = g_latencies b"
  by (induction cs arbitrary: b) (auto simp: count_call_def)

lemma bench_counts:
  assumes "0 \<le> n"
  shows "\<exists>b'. bench_run n made ts b = Some b' \<and>
    g_success b' + g_failed b' = g_success b + g_failed b + n * int (length ts) \<and>
    length (g_latencies b') = length (g_latencies b) + nat n * length ts"
proof (induction ts arbitrary: b)
  case (Cons t ts)
  obtain b1 where "worker n (made t) b = Some b1" "g_success b1 + g_failed b1 = g_success b + g_failed b + n"
    "length (g_latencies b1) = length (g_latencies b) + nat n"
    using assms count_calls [of "map (made t) [0..<nat n]" b] by (auto simp: worker_def Let_def)
  then show ?case using Cons.IH [of b1] by (auto simp: algebra_simps)
qed simp

lemma pct_in_range: "v \<noteq> [] \<Longrightarrow> 0 \<le> k \<Longrightarrow> pct v k \<in> set v"
  by (auto simp: pct_def intro!: nth_mem) (cases v; simp)

lemma pct_mono:
  assumes "sorted v" "0 \<le> j" "j \<le> k"
  shows "pct v j \<le> pct v k"
proof (cases "v = []")
  case False
  then have "nat (min k (int (length v) - 1)) < length v" by (cases v) auto
  then show ?thesis using False assms by (auto simp: pct_def intro!: sorted_nth_mono)
qed (simp add: pct_def)

text \<open>Arguments that are not options of the load generator go to \<open>Init\<close> unchanged.\<close>

lemma bench_args_others:
  "(\<forall>a\<in>set args. a \<notin> {str ''-t'', str ''-n'', str ''-c''}) \<Longrightarrow>
     bench_args args o1 = Some (o1\<lparr>bo_argv := bo_argv o1 @ args\<rparr>)"
  by (induction args o1 rule: bench_args.induct) auto


section \<open>One run of the two calls\<close>

text \<open>The header of a \<open>Login\<close> is encoded by its id, the messages by themselves, a response by one byte.\<close>

definition pair_header :: "u64 \<Rightarrow> rpc_header" where
  "pair_header i = \<lparr>service_name = str ''UserServiceRpc'', method_name = str ''Login'', args_size = 1, request_id = i\<rparr>"

definition pair_pb :: protobuf where
  "pair_pb = \<lparr>parse_header = (\<lambda>b. if length b = 8 then Some (pair_header (rd64 b)) else None),
     serialize_header = (\<lambda>h. if h = pair_header (request_id h) then Some (le64 (request_id h)) else None),
     parse_request = (\<lambda>md a. Some a)\<rparr>"

definition pair_answer :: "request \<Rightarrow> bytes" where
  "pair_answer = user_call (\<lambda>m. \<lparr>lg_name = m, lg_pwd = m\<rparr>) (\<lambda>m. \<lparr>rg_id = 0, rg_name = m, rg_pwd = m\<rparr>)
     (\<lambda>r. if ur_success r then [1] else [0])"

definition pair_server :: provider where
  "pair_server = demo_accepted\<lparr>m_serviceMap := NotifyService user_service [], sqe_answers := [True, True, True]\<rparr>"

definition pair_bytes :: bytes where
  "pair_bytes = request_frame (le64 1) [7] @ request_frame (le64 2) [7]"

text \<open>The first receive ends in the middle of the second frame, and the second call is done first.\<close>

definition pair_chunks :: "bytes list" where "pair_chunks = [take 15 pair_bytes, drop 15 pair_bytes]"

definition pair_tasks :: "rpc_task list" where
  "pair_tasks = [call_of 7 1 (login_request_of 2 [7]), call_of 7 1 (login_request_of 1 [7])]"

definition pair_sock :: sock where
  "pair_sock = (let b = unsent (ctx_of (serve_batch pair_pb pair_answer 7 0 pair_chunks pair_tasks pair_server) 0) in
     \<lparr>incoming = b, outgoing = [], results = replicate (length b) 5\<rparr>)"

lemma pair_idle: "idle_connection 7 0 (length pair_chunks + 1) pair_server" "connId (ctx_of pair_server 0) = 1"
  by (simp_all add: idle_connection_def open_connection_def pair_server_def demo_unfold find_conn_def pair_chunks_def)

lemma pair_served: "served pair_pb (m_serviceMap pair_server) (login_of n i [7]) (login_request_of i [7])"
proof -
  have h: "header_of (login_of n i [7]) = pair_header i" by (simp add: header_of_def login_of_def pair_header_def)
  have "served pair_pb (NotifyService user_service []) (login_of n i [7]) (login_request_of i [7])"
    by (rule login_served [where hs = "le64 i"])
      (simp_all add: h pair_pb_def kMaxHeaderSize_def kMaxBodySize_def rd64_le64 [of i "[]", simplified],
        simp_all add: pair_header_def)
  then show ?thesis by (simp add: pair_server_def)
qed

lemma pair_frame: "frame_of pair_pb (login_of n i [7]) = Some (request_frame (le64 i) [7])"
  by (simp add: frame_of_def make_request_def login_of_def pair_pb_def pair_header_def)

lemma pair_wire: "concat pair_chunks = concat [request_frame (le64 1) [7], request_frame (le64 2) [7]]"
    "\<forall>c\<in>set pair_chunks. c \<noteq> []"
  by (simp_all add: pair_chunks_def pair_bytes_def request_frame_def)

end
