(* ===== verification/SystemRun.thy ===== *)
theory SystemRun
  imports EndToEnd ReactorProgress
begin

text \<open>
  A client of the running io_uring server: whatever the server does with any number of other
  connections, at every moment, the answers the client has read are answers the business code gave
  to this client's own requests.
\<close>

section \<open>What the server makes of a client's frames\<close>

lemma served_requests:
  assumes "\<forall>e\<in>set es. served pb sm e (rq e)" and "map (frame_of pb) es = map Some frames"
  shows "drain (uring_take pb sm) uring_closes (concat frames) = (map Request (map rq es), [])"
proof -
  define hs where "hs = (\<lambda>e. the (serialize_header pb (header_of e)))"
  define ms where "ms = map (\<lambda>e. (header_of e, hs e, e_args e)) es"
  have f: "frame_of pb e = Some (request_frame (hs e) (e_args e)) \<and> uring_ok pb sm (header_of e, hs e, e_args e) \<and>
      resolve_request pb sm (header_of e) (e_args e) = Request (rq e)" if "e \<in> set es" for e
    using served_frame [of pb sm e "rq e"] assms(1) that
    by (auto simp: hs_def frame_of_def make_request_def header_of_def served_def request_frame_def split: option.splits)
  have "map Some frames = map Some (map (\<lambda>e. request_frame (hs e) (e_args e)) es)"
    unfolding assms(2) [symmetric] using f by simp
  then have "frames = map (\<lambda>e. request_frame (hs e) (e_args e)) es" by (simp del: map_map)
  then have bytes: "concat frames = concat (map (\<lambda>(h, hs, args). request_frame hs args) ms)"
    by (simp add: ms_def comp_def)
  have ok: "\<forall>m\<in>set ms. uring_ok pb sm m" using f by (auto simp: ms_def)
  have "drain (uring_take pb sm) uring_closes (concat frames) =
      (map (\<lambda>(h, hs, args). resolve_request pb sm h args) ms, [])"
    using uring_frames.drain_enc_append [of ms pb sm "[]"] ok bytes
    by (simp add: uring.drain_None [of pb sm "[]"] uring_take_def)
  also have "map (\<lambda>(h, hs, args). resolve_request pb sm h args) ms = map Request (map rq es)"
    using f by (simp add: ms_def)
  finally show ?thesis .
qed

lemma requests_of_prefix:
  assumes "map Request rqs = items @ zs"
  shows "\<exists>n. requests_of items = take n rqs"
proof -
  have "items = map Request (take (length items) rqs)"
    using arg_cong [OF assms, of "take (length items)"] by (simp add: take_map)
  then have "requests_of items = take (length items) rqs" by (metis requests_of_map)
  then show ?thesis by blast
qed

text \<open>The calls dispatched for a client's connection are its first requests.\<close>

lemma dispatched_are_own:
  assumes ok: "reads_at pb s fd p" and served: "\<forall>e\<in>set es. served pb (m_serviceMap (srv s)) e (rq e)"
    and frames: "map (frame_of pb) es = map Some frames" "got s (connId (ctx_of (srv s) p)) @ coming = concat frames"
  shows "\<exists>n. dispatched s (connId (ctx_of (srv s) p)) =
    mset (map (\<lambda>e. call_of fd (connId (ctx_of (srv s) p)) (rq e)) (take n es))"
proof -
  let ?cid = "connId (ctx_of (srv s) p)"
  obtain seen items rest where r: "got s ?cid = seen @ rest"
    "fst (drain (uring_take pb (m_serviceMap (srv s))) uring_closes seen) = items"
    "dispatched s ?cid = mset (map (call_of fd ?cid) (requests_of items))"
    using ok unfolding reads_at_def Let_def by (metis fst_conv)
  obtain zs where "fst (drain (uring_take pb (m_serviceMap (srv s))) uring_closes (concat frames)) = items @ zs"
    using uring.drain_more [of pb "m_serviceMap (srv s)" seen "rest @ coming"] r(1,2) frames(2) by (metis append.assoc)
  then have "map Request (map rq es) = items @ zs" using served_requests [OF served frames(1)] by simp
  then obtain n where "requests_of items = take n (map rq es)" using requests_of_prefix by blast
  then show ?thesis using r(3) by (intro exI [of _ n]) (simp add: take_map comp_def)
qed

section \<open>What the client makes of the server's frames\<close>

definition answered_pairs :: "(rpc_task \<times> bytes option) list \<Rightarrow> (u64 \<times> bytes) list" where
  "answered_pairs as = concat (map (\<lambda>(t, b). case b of Some body \<Rightarrow> [(rq_id (t_request t), body)] | None \<Rightarrow> []) as)"

lemma answer_frames: "concat (map answer_frame as) = concat (map (\<lambda>(rid, body). response_frame rid body) (answered_pairs as))"
  by (induction as) (auto simp: answered_pairs_def answer_frame_def split: option.split)

lemma answered_pairs_in: "(i, body) \<in> set (answered_pairs as) \<longleftrightarrow> (\<exists>t. (t, Some body) \<in> set as \<and> rq_id (t_request t) = i)"
  by (auto simp: answered_pairs_def split: option.splits prod.splits)

lemma answered_pairs_distinct:
  "distinct (map (\<lambda>a. rq_id (t_request (fst a))) as) \<Longrightarrow> distinct (map fst (answered_pairs as))"
proof (induction as)
  case (Cons a as)
  have "fst ` set (answered_pairs as) \<subseteq> (\<lambda>a. rq_id (t_request (fst a))) ` set as"
    by (force simp: answered_pairs_in)
  moreover have "answered_pairs (a # as) = (case snd a of Some body \<Rightarrow> [(rq_id (t_request (fst a)), body)] | None \<Rightarrow> []) @ answered_pairs as"
    by (cases a; cases "snd a") (simp_all add: answered_pairs_def)
  moreover have "rq_id (t_request (fst a)) \<notin> (\<lambda>a. rq_id (t_request (fst a))) ` set as" using Cons.prems by simp
  ultimately show ?case using Cons by (cases "snd a") auto
qed (simp add: answered_pairs_def)

text \<open>A client that has received the first bytes of a stream of answers has read the first answers.\<close>

lemma recvLoop_reads_prefix:
  assumes "incoming sk @ later = concat (map (\<lambda>(rid, body). response_frame rid body) rs)"
    and "\<forall>(rid, body)\<in>set rs. body_fits body"
  shows "\<exists>n. fst (recvLoop sk) = take n rs"
proof -
  obtain fs s' where l: "recvLoop sk = (fs, s')" by fastforce
  obtain m1 where m1: "concat (map response_of (fst (drain take_response is_bad_frame (incoming sk)))) = fs @ m1"
    using recvLoop_prefix [OF l] by blast
  obtain m2 where m2: "fst (drain take_response is_bad_frame (incoming sk @ later)) =
      fst (drain take_response is_bad_frame (incoming sk)) @ m2" using responses.drain_more by blast
  have "drain take_response is_bad_frame (incoming sk @ later) = (map (\<lambda>(rid, body). Response rid body) rs, [])"
    using responses.drain_enc_append [of rs "[]"] assms by (simp add: responses.drain_None take_response_def)
  then have "map (\<lambda>(rid, body). Response rid body) rs = fst (drain take_response is_bad_frame (incoming sk)) @ m2"
    using m2 by simp
  moreover have "concat (map response_of (map (\<lambda>(rid, body). Response rid body) rs)) = rs" by (induction rs) auto
  ultimately have "rs = fs @ (m1 @ concat (map response_of m2))"
    using m1 by (metis append.assoc concat_append map_append)
  then have "fst (recvLoop sk) = take (length fs) rs" by (simp add: l)
  then show ?thesis by blast
qed

section \<open>Both together\<close>

lemma distinct_submset:
  assumes "mset xs \<subseteq># mset ys" and "distinct ys"
  shows "distinct xs"
proof -
  have one: "count (mset ys) a \<le> 1" for a using assms(2) unfolding distinct_count_atmost_1 by auto
  have "count (mset xs) a = (if a \<in> set xs then 1 else 0)" for a
  proof (cases "a \<in> set xs")
    case True
    then have "0 < count (mset xs) a" by (simp only: count_greater_zero_iff set_mset_mset)
    then have "count (mset xs) a = 1" using mset_subset_eq_count [OF assms(1), of a] one [of a] by linarith
    then show ?thesis using True by simp
  next
    case False
    then show ?thesis by (simp add: count_mset_0_iff)
  qed
  then show ?thesis unfolding distinct_count_atmost_1 by blast
qed

text \<open>What a client has read are answers to its own requests, each at most once.\<close>

lemma client_reads_own:
  assumes ok: "reads_at pb s fd p" "writes_at s p"
    and served: "\<forall>e\<in>set es. served pb (m_serviceMap (srv s)) e (rq e)" "distinct (map e_id es)"
    and frames: "map (frame_of pb) es = map Some frames" "got s (connId (ctx_of (srv s) p)) @ coming = concat frames"
    and sk: "incoming sk @ later = wire s (connId (ctx_of (srv s) p))"
    and fit: "\<forall>t body. (t, Some body) \<in> set (answered s) \<longrightarrow> t_connId t = connId (ctx_of (srv s) p) \<longrightarrow> body_fits body"
  shows "distinct (map fst (fst (recvLoop sk))) \<and> (\<forall>(i, body)\<in>set (fst (recvLoop sk)).
    \<exists>e\<in>set es. e_id e = i \<and> (call_of fd (connId (ctx_of (srv s) p)) (rq e), Some body) \<in> set (answered s))"
proof -
  let ?cid = "connId (ctx_of (srv s) p)" let ?mine = "filter (\<lambda>a. t_connId (fst a) = ?cid) (answered s)"
  have id: "rq_id (rq e) = e_id e" if "e \<in> set es" for e using served_frame served(1) that by blast
  obtain n where n: "dispatched s ?cid = mset (map (\<lambda>e. call_of fd ?cid (rq e)) (take n es))"
    using dispatched_are_own [OF ok(1) served(1) frames] by blast
  have "mset (map fst (filter (\<lambda>a. t_connId (fst a) = ?cid) as)) = filter_mset (\<lambda>t. t_connId t = ?cid) (mset (map fst as))"
    for as :: "(rpc_task \<times> bytes option) list" by (induction as) simp_all
  then have sub: "mset (map fst ?mine) \<subseteq># mset (map (\<lambda>e. call_of fd ?cid (rq e)) (take n es))"
    unfolding n [symmetric] by (simp add: dispatched_def)
  obtain zs where "wire s ?cid @ zs = concat (map answer_frame ?mine)" using ok(2) unfolding writes_at_def Let_def by blast
  then have "incoming sk @ (later @ zs) = concat (map (\<lambda>(rid, body). response_frame rid body) (answered_pairs ?mine))"
    using sk answer_frames by (metis append.assoc)
  moreover have "\<forall>(rid, body)\<in>set (answered_pairs ?mine). body_fits body" using fit by (auto simp: answered_pairs_in)
  ultimately obtain k where k: "fst (recvLoop sk) = take k (answered_pairs ?mine)" using recvLoop_reads_prefix by blast
  have "distinct (map (\<lambda>a. rq_id (t_request (fst a))) ?mine)"
  proof -
    have "image_mset (\<lambda>t. rq_id (t_request t)) (mset (map fst ?mine)) \<subseteq>#
        image_mset (\<lambda>t. rq_id (t_request t)) (mset (map (\<lambda>e. call_of fd ?cid (rq e)) (take n es)))"
      by (rule image_mset_subseteq_mono [OF sub])
    also have "\<dots> = mset (map (\<lambda>e. rq_id (rq e)) (take n es))" by (simp add: image_mset.compositionality comp_def call_of_def)
    also have "map (\<lambda>e. rq_id (rq e)) (take n es) = map e_id (take n es)"
      by (rule map_cong [OF refl]) (rule id [OF in_set_takeD])
    also have "map e_id (take n es) = take n (map e_id es)" by (simp only: take_map)
    finally have "mset (map (\<lambda>a. rq_id (t_request (fst a))) ?mine) \<subseteq># mset (take n (map e_id es))"
      by (simp add: image_mset.compositionality comp_def)
    moreover have "distinct (take n (map e_id es))" using served(2) by simp
    ultimately show ?thesis by (rule distinct_submset)
  qed
  then have "distinct (map fst (fst (recvLoop sk)))"
    unfolding k using answered_pairs_distinct by (simp flip: take_map)
  moreover have "\<exists>e\<in>set es. e_id e = i \<and> (call_of fd ?cid (rq e), Some body) \<in> set (answered s)"
    if "(i, body) \<in> set (fst (recvLoop sk))" for i body
  proof -
    from that have "(i, body) \<in> set (answered_pairs ?mine)" unfolding k by (rule in_set_takeD)
    then obtain t where t: "(t, Some body) \<in> set ?mine" "rq_id (t_request t) = i" by (auto simp: answered_pairs_in)
    then have "t \<in># mset (map fst ?mine)" by force
    with sub have "t \<in># mset (map (\<lambda>e. call_of fd ?cid (rq e)) (take n es))" by (rule mset_subset_eqD)
    then obtain e where "e \<in> set es" "t = call_of fd ?cid (rq e)" by (auto dest: in_set_takeD)
    then show ?thesis using t id by (intro bexI [of _ e]) (auto simp: call_of_def)
  qed
  ultimately show ?thesis by auto
qed

text \<open>The callbacks of the client that has read them.\<close>

lemma client_completes_own:
  assumes ok: "reads_at pb s fd p" "writes_at s p"
    and issued: "issue_calls now cs c = (es, c1)" "length cs < 2 ^ 64" "rx_taken c = []"
    and served: "\<forall>e\<in>set es. served pb (m_serviceMap (srv s)) e (rq e)"
    and frames: "map (frame_of pb) es = map Some frames" "got s (connId (ctx_of (srv s) p)) @ coming = concat frames"
    and sk: "incoming sk @ later = wire s (connId (ctx_of (srv s) p))"
    and fit: "\<forall>t body. (t, Some body) \<in> set (answered s) \<longrightarrow> t_connId t = connId (ctx_of (srv s) p) \<longrightarrow>
      body_fits body \<and> parses body"
  shows "\<exists>xs. completions (client_batch parses sk c1) =
      completions c @ map (\<lambda>(e, body). \<lparr>c_call = e_call e, c_error = None, c_body = Some body\<rparr>) xs \<and>
    distinct (map (\<lambda>x. e_id (fst x)) xs) \<and> length xs = length (fst (recvLoop sk)) \<and>
    (\<forall>(e, body)\<in>set xs. e \<in> set es \<and> (call_of fd (connId (ctx_of (srv s) p)) (rq e), Some body) \<in> set (answered s))"
proof -
  let ?cid = "connId (ctx_of (srv s) p)" let ?rs = "fst (recvLoop sk)"
  note iss = issue_calls_facts [OF issued(1,2)] and ids = issue_calls_distinct [OF issued(1,2)]
  have own: "distinct (map fst ?rs) \<and> (\<forall>(i, body)\<in>set ?rs.
      \<exists>e\<in>set es. e_id e = i \<and> (call_of fd ?cid (rq e), Some body) \<in> set (answered s))"
    by (rule client_reads_own [OF ok served ids frames sk]) (use fit in blast)
  define ev where "ev = (\<lambda>x :: u64 \<times> bytes. SOME e. e \<in> set es \<and> e_id e = fst x \<and>
      (call_of fd ?cid (rq e), Some (snd x)) \<in> set (answered s))"
  have ev: "ev x \<in> set es \<and> e_id (ev x) = fst x \<and> (call_of fd ?cid (rq (ev x)), Some (snd x)) \<in> set (answered s)"
    if "x \<in> set ?rs" for x
    unfolding ev_def by (rule someI_ex) (use own that in fastforce)
  have fits: "parses (snd x)" if "x \<in> set ?rs" for x using ev [OF that] fit by (auto simp: call_of_def)
  define call where "call = (\<lambda>i. the (map_of (map (\<lambda>e. (e_id e, e_call e)) es) i))"
  have call: "call (e_id e) = e_call e" if "e \<in> set es" for e
  proof -
    have "map_of (map (\<lambda>e. (e_id e, e_call e)) es) (e_id e) = Some (e_call e)"
      using ids that by (intro map_of_is_SomeI) (auto simp: comp_def)
    then show ?thesis by (simp add: call_def)
  qed
  have slots: "parses (snd x) \<and> (\<exists>slot. map_of (m_pending c1) (fst x) = Some slot \<and> p_call slot = call (fst x))"
    if "x \<in> set ?rs" for x
    using ev [OF that] iss(4) fits [OF that] call by metis
  have "completions (client_batch parses sk c1) =
      completions c1 @ map (\<lambda>(i, b). \<lparr>c_call = call i, c_error = None, c_body = Some b\<rparr>) ?rs"
    unfolding client_batch_def by (rule answers_complete) (use own iss(3) issued(3) slots in auto)
  also have "completions c1 = completions c" by (rule iss(2))
  also have "map (\<lambda>(i, b). \<lparr>c_call = call i, c_error = None, c_body = Some b\<rparr>) ?rs =
      map (\<lambda>(e, body). \<lparr>c_call = e_call e, c_error = None, c_body = Some body\<rparr>) (map (\<lambda>x. (ev x, snd x)) ?rs)"
    using ev call by (auto split: prod.split) (metis fst_conv)
  finally have fin: "completions (client_batch parses sk c1) = completions c @
      map (\<lambda>(e, body). \<lparr>c_call = e_call e, c_error = None, c_body = Some body\<rparr>) (map (\<lambda>x. (ev x, snd x)) ?rs)" .
  have "map (\<lambda>x. e_id (fst x)) (map (\<lambda>x. (ev x, snd x)) ?rs) = map fst ?rs" using ev by simp
  then have "distinct (map (\<lambda>x. e_id (fst x)) (map (\<lambda>x. (ev x, snd x)) ?rs))" using own by (simp only:)
  moreover have "\<forall>(e, body)\<in>set (map (\<lambda>x. (ev x, snd x)) ?rs).
      e \<in> set es \<and> (call_of fd ?cid (rq e), Some body) \<in> set (answered s)" using ev by auto
  moreover have "length (map (\<lambda>x. (ev x, snd x)) ?rs) = length ?rs" by simp
  ultimately show ?thesis using fin by blast
qed

section \<open>When everything has been handled\<close>

lemma settled_answers:
  assumes ok: "reads_at pb s fd p" "writes_at s p" and st: "settled s p"
    and served: "\<forall>e\<in>set es. served pb (m_serviceMap (srv s)) e (rq e)"
    and frames: "map (frame_of pb) es = map Some frames" "got s (connId (ctx_of (srv s) p)) = concat frames"
  shows "mset (map fst (filter (\<lambda>a. t_connId (fst a) = connId (ctx_of (srv s) p)) (answered s))) =
      mset (map (\<lambda>e. call_of fd (connId (ctx_of (srv s) p)) (rq e)) es)"
    and "wire s (connId (ctx_of (srv s) p)) =
      concat (map answer_frame (filter (\<lambda>a. t_connId (fst a) = connId (ctx_of (srv s) p)) (answered s)))"
proof -
  let ?cid = "connId (ctx_of (srv s) p)"
  have none: "filter_mset (\<lambda>t. t_connId t = ?cid) (mset (m_taskQueue (srv s))) = {#}"
    "filter_mset (\<lambda>t. t_connId t = ?cid) (mset (running (srv s))) = {#}"
    "filter (\<lambda>h. t_connId (fst h) = ?cid) (m_readyCoros (srv s)) = []" "arriving (srv s) p = []" "unsent (ctx_of (srv s) p) = []"
    using st by (auto simp: settled_def Let_def filter_empty_conv simp flip: mset_filter)
  have "mset (map fst (filter (\<lambda>a. t_connId (fst a) = ?cid) as)) = filter_mset (\<lambda>t. t_connId t = ?cid) (mset (map fst as))"
    for as :: "(rpc_task \<times> bytes option) list" by (induction as) simp_all
  then have mine: "dispatched s ?cid = mset (map fst (filter (\<lambda>a. t_connId (fst a) = ?cid) (answered s)))"
    using none(1,2) by (simp add: dispatched_def)
  obtain seen items where r: "got s ?cid = seen"
    "fst (drain (uring_take pb (m_serviceMap (srv s))) uring_closes seen) = items"
    "dispatched s ?cid = mset (map (call_of fd ?cid) (requests_of items))"
    using ok(1) none(4) unfolding reads_at_def Let_def by (metis append_Nil2 fst_conv)
  have "items = map Request (map rq es)" using r(1,2) frames(2) served_requests [OF served frames(1)] by simp
  then have "requests_of items = map rq es" by (simp only: requests_of_map)
  then show "mset (map fst (filter (\<lambda>a. t_connId (fst a) = ?cid) (answered s))) = mset (map (\<lambda>e. call_of fd ?cid (rq e)) es)"
    using r(3) unfolding mine by (simp add: comp_def)
  show "wire s ?cid = concat (map answer_frame (filter (\<lambda>a. t_connId (fst a) = ?cid) (answered s)))"
    using ok(2) none(3,5) by (simp add: writes_at_def Let_def)
qed

lemma mset_same_length:
  assumes "distinct (map f xs)" "distinct ys" "set xs \<subseteq> set ys" "length xs = length ys"
  shows "mset xs = mset ys"
proof -
  have d: "distinct xs" using assms(1) by (simp add: distinct_map)
  have "card (set xs) = card (set ys)" using d assms(2,4) by (simp add: distinct_card)
  then have "set xs = set ys" using assms(3) by (intro card_subset_eq) auto
  then show ?thesis using d assms(2) by (simp add: set_eq_iff_mset_eq_distinct)
qed

text \<open>Then a client that has received all of them has exactly one completion for every call.\<close>

lemma client_completes_all:
  assumes ok: "reads_at pb s fd p" "writes_at s p" "settled s p"
    and issued: "issue_calls now cs c = (es, c1)" "length cs < 2 ^ 64" "rx_taken c = []"
    and served: "\<forall>e\<in>set es. served pb (m_serviceMap (srv s)) e (rq e)"
    and frames: "map (frame_of pb) es = map Some frames" "got s (connId (ctx_of (srv s) p)) = concat frames"
    and sk: "incoming sk = wire s (connId (ctx_of (srv s) p))" "ready sk"
    and fit: "\<forall>t body. (t, body) \<in> set (answered s) \<longrightarrow> t_connId t = connId (ctx_of (srv s) p) \<longrightarrow>
      (\<exists>b. body = Some b \<and> body_fits b \<and> parses b)"
  shows "\<exists>xs. completions (client_batch parses sk c1) =
      completions c @ map (\<lambda>(e, body). \<lparr>c_call = e_call e, c_error = None, c_body = Some body\<rparr>) xs \<and>
    mset (map fst xs) = mset es \<and>
    (\<forall>(e, body)\<in>set xs. (call_of fd (connId (ctx_of (srv s) p)) (rq e), Some body) \<in> set (answered s))"
proof -
  let ?cid = "connId (ctx_of (srv s) p)" let ?mine = "filter (\<lambda>a. t_connId (fst a) = ?cid) (answered s)"
  note A = settled_answers [OF ok served frames]
  have fit': "\<forall>t body. (t, Some body) \<in> set (answered s) \<longrightarrow> t_connId t = ?cid \<longrightarrow> body_fits body \<and> parses body" using fit by blast
  obtain xs where xs: "completions (client_batch parses sk c1) =
      completions c @ map (\<lambda>(e, body). \<lparr>c_call = e_call e, c_error = None, c_body = Some body\<rparr>) xs"
    "distinct (map (\<lambda>x. e_id (fst x)) xs)" "length xs = length (fst (recvLoop sk))"
    "\<forall>(e, body)\<in>set xs. e \<in> set es \<and> (call_of fd ?cid (rq e), Some body) \<in> set (answered s)"
    using client_completes_own [OF ok(1,2) issued served frames(1) _ _ fit', of "[]" sk "[]"] frames(2) sk(1) by auto
  have "fst (recvLoop sk) = answered_pairs ?mine"
    using A(2) sk(1) fit' answer_frames [of ?mine] by (intro recvLoop_reads [OF sk(2)]) (auto simp: answered_pairs_in)
  moreover have "length (answered_pairs as) = length as" if "\<forall>a\<in>set as. snd a \<noteq> None" for as
    using that by (induction as) (auto simp: answered_pairs_def)
  moreover have "length ?mine = length es" using A(1) by (metis length_map size_mset)
  moreover have "\<forall>a\<in>set ?mine. snd a \<noteq> None" using fit by fastforce
  ultimately have "length (map fst xs) = length es" using xs(3) by simp
  moreover have "distinct es" using issue_calls_distinct [OF issued(1,2)] by (simp add: distinct_map)
  moreover have "distinct (map e_id (map fst xs))" using xs(2) by (simp add: comp_def)
  moreover have "set (map fst xs) \<subseteq> set es" using xs(4) by auto
  ultimately have "mset (map fst xs) = mset es" by (intro mset_same_length)
  then show ?thesis using xs(1,4) by blast
qed

text \<open>And the server can always be brought there: no call of the client is lost in it.\<close>

lemma client_can_complete:
  fixes f :: "request \<Rightarrow> bytes"
  assumes r: "reach traced_start (traced_step pb) s" and act: "m_active (mgr (srv s)) fd = Some p" and cq: "cq (srv s) = []"
    and issued: "issue_calls now cs c = (es, c1)" "length cs < 2 ^ 64" "rx_taken c = []"
    and served: "\<forall>e\<in>set es. served pb (m_serviceMap (srv s)) e (rq e)"
    and frames: "map (frame_of pb) es = map Some frames" "got s (connId (ctx_of (srv s) p)) = concat frames"
    and before: "\<forall>t body. (t, body) \<in> set (answered s) \<longrightarrow> t_connId t = connId (ctx_of (srv s) p) \<longrightarrow>
      (\<exists>b. body = Some b \<and> body_fits b \<and> parses b)"
    and f: "\<forall>e\<in>set es. body_fits (f (rq e)) \<and> parses (f (rq e))"
  shows "\<exists>t. (smooth pb)\<^sup>*\<^sup>* s t \<and> m_active (mgr (srv t)) fd = Some p \<and>
    (\<forall>sk. ready sk \<longrightarrow> incoming sk = wire t (connId (ctx_of (srv s) p)) \<longrightarrow>
      (\<exists>xs. completions (client_batch parses sk c1) =
         completions c @ map (\<lambda>(e, body). \<lparr>c_call = e_call e, c_error = None, c_body = Some body\<rparr>) xs \<and>
       mset (map fst xs) = mset es))"
proof -
  let ?cid = "connId (ctx_of (srv s) p)"
  obtain t where t: "(smooth pb)\<^sup>*\<^sup>* s t" "m_active (mgr (srv t)) fd = Some p" "connId (ctx_of (srv t) p) = ?cid"
      "m_serviceMap (srv t) = m_serviceMap (srv s)" "settled t p" "got t = got s"
      "answered t = answered s @ map (\<lambda>t. (t, Some (f (t_request t)))) (running (srv s) @ m_taskQueue (srv s))"
    using can_settle [OF r act cq, of f] by blast
  have "traced_ok pb t" by (rule streams.reach_inv [OF smooth_reach [OF t(1) r]])
  then have ok: "reads_at pb t fd p" "writes_at t p" using t(2) by (simp_all add: traced_ok_def streams_ok_def)
  have served': "\<forall>e\<in>set es. served pb (m_serviceMap (srv t)) e (rq e)" using served t(4) by simp
  have got: "got t (connId (ctx_of (srv t) p)) = concat frames" using frames(2) t(3,6) by simp
  have own: "set (map fst (filter (\<lambda>a. t_connId (fst a) = ?cid) (answered t))) = set (map (\<lambda>e. call_of fd ?cid (rq e)) es)"
    using mset_eq_setD [OF settled_answers(1) [OF ok t(5) served' frames(1) got]] by (simp only: t(3))
  have fit: "\<exists>b. body = Some b \<and> body_fits b \<and> parses b" if "(t', body) \<in> set (answered t)" "t_connId t' = ?cid" for t' body
  proof (cases "(t', body) \<in> set (answered s)")
    case True
    then show ?thesis using before that(2) by blast
  next
    case False
    then have "body = Some (f (t_request t'))" using that(1) t(7) by auto
    moreover have "t' \<in> set (map fst (filter (\<lambda>a. t_connId (fst a) = ?cid) (answered t)))" using that by force
    then have "\<exists>e\<in>set es. t_request t' = rq e" unfolding own by (auto simp: call_of_def)
    ultimately show ?thesis using f by auto
  qed
  have "\<exists>xs. completions (client_batch parses sk c1) =
         completions c @ map (\<lambda>(e, body). \<lparr>c_call = e_call e, c_error = None, c_body = Some body\<rparr>) xs \<and>
       mset (map fst xs) = mset es" if "ready sk" "incoming sk = wire t ?cid" for sk
    using client_completes_all [OF ok t(5) issued served' frames(1) got, of sk parses] that fit t(3) by auto
  then show ?thesis using t(1,2) by blast
qed

end
