(* ===== verification/SystemProps.thy ===== *)
theory SystemProps
  imports Examples SystemRun
begin













text \<open>The blocking example client passes no controller and the blocking channel reports an error
  through the controller without looking whether there is one: the program gets through exactly
  when both calls are answered; the first call that fails ends it in a null dereference, after the
  lines of the calls before it.\<close>

theorem client_without_controller_needs_success:
  "snd (call_and_print text get rs) = (\<forall>r\<in>set rs. \<exists>body. r = Inr body) \<and>
   fst (call_and_print text get (map Inr bodies @ Inl e # rs)) = map (\<lambda>b. print_user_response (get b)) bodies \<and>
   report_blocking text (Some c) (Inl e) = Some (Some (SetFailed (text e) c), None)"
proof -
  have "fst (call_and_print text get (map Inr bodies @ Inl e # rs)) = map (\<lambda>b. print_user_response (get b)) bodies"
    by (induction bodies) (auto simp: report_blocking_def split_def Let_def)
  then show ?thesis by (simp add: failed_call_without_controller report_blocking_def)
qed

lemma client_without_controller_needs_success_witness:
  fixes errtext :: "call_error \<Rightarrow> bytes"
  defines "errtext \<equiv> (\<lambda>_. [])"
  shows "\<not> snd (call_and_print errtext (\<lambda>_. new_user_response) [Inr [1], Inl ClosedBeforeResponse])"
  using client_without_controller_needs_success [of errtext "\<lambda>_. new_user_response" "[Inr [1], Inl ClosedBeforeResponse]" "[]" ClosedBeforeResponse]
  by simp

end
