(* ===== verification/Spec2Isabelle.thy ===== *)
theory Spec2Isabelle
  imports ServerProps WireProps EtcdProps ClientProps BlockingProps RuntimeProps SystemProps
begin

text \<open>
  \<^bold>\<open>KimRpc: a model of the RPC framework and the theorems that make it correct.\<close>

  KimRpc is an RPC framework in C++: two servers (one on io_uring, one on muduo), a TCP client on
  sockets, one on io_uring, service discovery through etcd, and the support code both sides link.
  A server registers an etcd key per method; a client scans the keys of a method, keeps the table
  of instances current by a watch, picks one round robin, connects, and sends
  \<open>[4B size][RpcHeader][args]\<close>; the server answers \<open>[4B size][8B request_id][body]\<close>.
  File names below are relative to \<open>src/src\<close>, headers to \<open>src/src/include\<close>.

  \<^bold>\<open>Shared theories.\<close>
  \<^item> KimPrelude: bytes, the little-endian integers of the wire format, insertion into an
    \<open>unordered_map\<close>, reachability (\<open>reach\<close>) with its invariant rule.
  \<^item> StreamConsumer: the loop that takes complete items off the front of a buffer. The locale
    \<open>consumer\<close> is the contract of one "take an item" routine, and its lemmas say that the items do
    not depend on how the stream is cut; \<open>framing\<close> adds an encoder and the round trip. It is
    interpreted for both servers' request readers, the client's response reader and the etcd watch.

  \<^bold>\<open>The io_uring server\<close> (uringrpcprovider.h/.cc, connectionmanager.h/.cc).
  \<^item> UserData: \<open>packUserData\<close>, \<open>unpackCtx\<close>, \<open>unpackOp\<close> on 64-bit words.
  \<^item> ConnManager: \<open>ConnectionContext\<close> and \<open>ConnectionManager\<close>; a pointer is an index into
    \<open>m_allConns\<close>. The locale \<open>connection_table\<close> states what the reactor relies on.
  \<^item> UringProvider: the record \<open>provider\<close> and one definition per method, guards and early returns
    included. \<open>ub\<close> is set where the code would call \<open>front()\<close> on an empty deque.
  \<^item> ReactorSteps: the running server as a step relation of the reactor, the kernel and the
    workers; a handler is one step of the reactor thread.
  \<^item> ReactorInv, ReactorSafety, ReactorFrame, ReactorReach: the invariant that ties \<open>inflight\<close>,
    \<open>sending\<close>, \<open>readPaused\<close> and \<open>closing\<close> to the operations the kernel still owes, that every
    handler keeps it, and that it holds in every reachable state.
  \<^item> ReactorData, ReactorSend: conservation of the receive buffers, freshness of connection ids,
    and that a send carries the unsent rest of the front response.
  \<^item> ReactorStream, ReactorAnswers: the steps labelled with the bytes and answers that cross the
    border to the kernel and to the business code, and the record of a run. The recorded runs are
    those of \<open>fresh_step\<close> (\<open>traced_step_fresh\<close>, \<open>fresh_reach_traced\<close>). The invariant says, for any
    number of connections, what every open one has received, what was called for it, what was
    answered and what is on the wire. ReactorProgress: from every reachable state without
    an unhandled completion, the work of a connection can be brought to its end (\<open>settled\<close>) by a run
    in which nothing fails.
  \<^item> ReactorFlow: what the handlers compute (dispatch, queue consumption, back pressure).
    ReactorTypes: every call in the server was resolved in the service table.
  \<^item> ThreadPool: \<open>submitTask\<close>, \<open>workerThread\<close> and the destructor's joins with four workers; a
    refinement of the server model's single task queue, order of tasks, and shutdown.
  \<^item> DemoServer: the concrete run the witnesses use.

  \<^bold>\<open>Wire format and the muduo server\<close> (provider.h/.cc, header.proto as a parameter).
  \<^item> WireFormat: frames, \<open>NotifyService\<close>, the readers \<open>uring_take\<close> and \<open>muduo_take\<close>.
  \<^item> MuduoProvider: \<open>RpcProvider::onConnection\<close>, \<open>onMessage\<close> and \<open>sendRpcResponse\<close>, for
    one connection.

  \<^bold>\<open>The clients\<close> (channel.h/.cc, uringchannel.cc, uringtcpclient.h/.cc).
  \<^item> SocketLoops: \<open>sendLocked\<close>, \<open>recvAll\<close>, \<open>WriteAll\<close>, \<open>ReadExact\<close>, \<open>ReadSome\<close>, \<open>Connect\<close>;
    the locales \<open>writer\<close> and \<open>reader\<close> are interpreted for sockets and for io_uring.
  \<^item> Channel: the non-blocking build of \<open>KimRpcChannel\<close>; callers, the receive thread and the
    timer thread interleave at the critical sections of \<open>m_pendingMtx\<close>. ChannelTimer: where the timer
    thread is in its loop, and the destructor. The locale \<open>stoppable_thread\<close> of the prelude states
    what stopping a thread takes; this thread and the etcd client's lease thread interpret it.
  \<^item> CallPaths: one call of the blocking build and of \<open>KimRpcUringChannel\<close>, every error included.
  \<^item> BlockingChannel: the blocking build with several callers and the receive thread. A slot lives in
    its caller's stack frame; \<open>b_fault\<close> records a pointer followed after its frame is gone and a
    promise set twice.
  \<^item> AsyncClient: \<open>AsyncConnect\<close>, \<open>AsyncWrite\<close>, \<open>AsyncRead\<close> and \<open>EventLoop\<close> with callbacks.
  \<^item> Coroutine: coroutine/task.h, io_uring_awaiter.h and sync_wait.h; frames in a heap, symmetric
    transfer, the awaiters of io_uring operations, and equivalence of \<open>sync_wait\<close> and of
    \<open>DetachedTask\<close> with running the bodies one after the other. The locale \<open>coro_loop\<close> is the event
    loop both share. The coroutines of test/coroutine/test_coro.cc are instances.
  \<^item> TaskObject: the class \<open>Task\<close>: objects that own frames, with moves, assignments and destruction,
    and the two \<open>co_await\<close> operators on an object.

  \<^bold>\<open>Service discovery\<close> (etcdclient.h/.cc, rpcaddresscache.h/.cc).
  \<^item> EtcdCodec: base64, \<open>prefixEnd\<close>, \<open>stoll\<close>. EtcdClient: the requests and the reading of their
    answers, the lease and its keep-alive loop. EtcdLease: the thread that runs this loop, its start
    and \<open>Stop\<close>, as steps that interleave. EtcdWatch: \<open>watchWrite\<close>, \<open>parseWatchLine\<close> and the
    loop of \<open>WatchPrefixBlocking\<close>. AddressCache: the instance table, the scan and the watch
    callback that maintain it, and the round robin.

  \<^bold>\<open>Support\<close> (config.cc, controller.cc, logger.h/.cc, lockqueue.h, application.cc).
  \<^item> Support: configuration, controller, logger queue. Startup: the command line, both servers'
    \<open>Run\<close> up to their event loops, the socket options, and what the io_uring server's destructor
    releases.

  \<^bold>\<open>The whole\<close> (and example/).
  \<^item> EndToEnd: a batch of calls from \<open>callAsync\<close> through the server's receive handler, pool and
    delivery back to the callbacks. It composes the handlers of the theories above.
  \<^item> SystemRun: a client of the running server, any number of other connections included: the
    answers it reads are those to its own calls, once its connection is \<open>settled\<close> it has all, and
    the server can always be brought there.
  \<^item> Examples: the services, servers and clients under example/, and the load generator.

  \<^bold>\<open>Properties.\<close> ServerProps: safety, exactness and flow of the io_uring server in every reachable
  state. WireProps: round trips and independence of chunk boundaries. ClientProps: one owner per
  call, delivery to the right caller, timeouts, teardown, the io_uring call path, the configuration.
  BlockingProps: memory safety, own response and wake-up in the blocking build.
  EtcdProps: the codec, watch, instance table and lease. RuntimeProps: callbacks, coroutines, pool,
  start-up. SystemProps: calls end to end, on one connection and
  beside others, and the example client. This theory: what spans server,
  etcd and client.

  \<^bold>\<open>Bounds, fuel and what runs forever.\<close>
  \<^item> \<open>drain\<close> and the readers built on it terminate because an item takes at least a byte.
  \<^item> The transfer loops terminate on the remaining length. The results of the calls of a socket are
    a list, and a call without a result left fails; \<open>read_some\<close> has fuel \<open>length incoming + 1\<close>,
    enough because every round but the last takes a byte (lemma \<open>read_some_total\<close>).
  \<^item> The coroutine machine is \<open>partial_function (option)\<close>: not returning is \<open>None\<close>, and the
    equivalence states that it returns.
  \<^item> The 64-bit counters of connection and request ids wrap around in the definitions. The
    reachability properties that need distinct ids speak of runs of \<open>fresh_step\<close>,
    \<open>fresh_channel_step\<close> and \<open>fresh_blocking_step\<close>, which end before the counter is back at 0.
  \<^item> \<open>async_step\<close> has submissions that succeed; the other case is
    \<open>failed_submit_runs_callback_twice\<close>.
  \<^item> The table sizes are the code's constants: \<open>kMaxInflightPerConn\<close> 256, \<open>kBufRingEntries\<close> 1024,
    four workers.

  \<^bold>\<open>Parameters.\<close> protobuf (record \<open>protobuf\<close>), the JSON parser \<open>jp\<close>, the answers of libcurl,
  the results of system calls, the text of \<open>strerror\<close>, and the choices of the kernel and of the
  business code, which are the steps of the relation.

  \<^bold>\<open>Not modelled.\<close> The ring set-up flags, log texts and time stamps, generated protobuf code (the
  message classes are records, their encoding a parameter), the vendored JSON header, the protobuf
  example under test/, and what the load generator prints. Of modelled parts: in TaskObject the body
  of a task runs to its end in one step; the abort flag of \<open>watchProgress\<close> is the end of a session. That a
  batch does complete is proved for one idle connection and a batch below the pause limit; for a
  server with any number of connections, that what has completed is right, that all has
  completed once the connection is settled, and that (with all completions handled) a run which settles it always exists; that
  kernel and scheduler take such a run is their fairness, which is left out.
\<close>

section \<open>Properties that span components\<close>

text \<open>C23. What a server registers a client finds: the key a server puts for a method is in the range the
  client scans for it, the scan and the watch turn it into the server's address, and the channel
  parses this address into the IP and port the server listens on.\<close>

theorem registered_instance_is_found:
  assumes "(svc, info) \<in> set sm" and "(mth, md) \<in> set (m_methodMap info)"
    and "of_char CHR '':'' \<notin> set ip" and "length ip \<le> 57"
  shows "let addr = instance_addr ip port; pfx = method_path svc mth @ str ''/''; key = instance_key svc mth addr in
    key \<in> set (instance_keys sm addr) \<and> in_range pfx (prefixEnd pfx) key \<and>
    initial_instances pfx [\<lparr>kv_key = key, kv_value = addr\<rparr>] = [addr] \<and>
    on_watch_event pfx \<lparr>we_type = PutEvent, we_key = key, we_value = addr\<rparr> [] = [addr] \<and>
    parse_host addr = Host ip port"
proof -
  let ?addr = "instance_addr ip port" let ?pfx = "method_path svc mth @ str ''/''"
  have key: "instance_key svc mth ?addr = ?pfx @ ?addr" by (simp add: instance_key_def method_path_def)
  have addr: "?addr \<noteq> []" by (simp add: instance_addr_def)
  have "instance_key svc mth ?addr \<in> set (instance_keys sm ?addr)"
    using assms(1,2) by (force simp: instance_keys_def)
  moreover have "in_range ?pfx (prefixEnd ?pfx) (?pfx @ ?addr)" by (simp add: prefixEnd_range)
  ultimately show ?thesis
    unfolding Let_def key
    using parse_host_instance [OF assms(3,4)] addr by (simp add: initial_instances_def on_watch_event_def)
qed

lemma registered_instance_is_found_witness:
  "parse_host (instance_addr (str ''10.0.0.7'') 8000) = Host (str ''10.0.0.7'') 8000"
  using registered_instance_is_found [of "[0x53]" "\<lparr>m_service = demo_service, m_methodMap = [([0x6d], demo_method)]\<rparr>"
      demo_services "[0x6d]" demo_method "str ''10.0.0.7''" 8000]
  by (simp add: demo_services_eq Let_def)

text \<open>A response is matched to its call: what the reactor is given to deliver when the business code
  is done is, for the client's reader, one response with the id of the request and the body.\<close>

theorem response_carries_request_id:
  assumes "body_fits body"
  shows "\<exists>frame. m_readyCoros (onPoolDone t (Some body) s) = m_readyCoros s @ [(t, frame)] \<and> frame \<noteq> [] \<and>
    take_response (frame @ rest) = Some (Response (rq_id (t_request t)) body, rest)"
  by (rule exI [of _ "response_frame (rq_id (t_request t)) body"])
    (simp add: onPoolDone_def resumeOnReactor_def take_response_frame [OF assms])

lemma response_carries_request_id_witness:
  "\<exists>frame. take_response (frame @ [9]) = Some (Response 5 [1], [9])"
  using response_carries_request_id [of "[1]" demo_task demo_running "[9]"]
  by (auto simp: body_fits_def demo_task_def demo_request_def)

end
